(* ===== verification/Prelude.thy ===== *)
theory Prelude
  imports Main "HOL-Library.Word" "HOL-Library.Sublist"
begin

text \<open>
  Shared vocabulary of the development: the pieces of the Rust language and its standard
  library that the modelled code uses (slices, \<open>VecDeque\<close>, binary search, polling,
  checked and wrapping arithmetic), and the generic facts on lists that the component theories
  share.

  Unsigned machine integers are natural numbers; where the code can wrap around, panic on
  underflow or saturate, the model writes it out (\<open>usize_succ\<close>, \<open>u64_add\<close>,
  \<open>checked_sub\<close>, truncated subtraction for \<open>saturating_sub\<close>). Values packed into a word are words.
\<close>

section \<open>Types\<close>

type_synonym byte = "8 word"

datatype 'a poll = Pending | Ready 'a

datatype search = Found nat | Missing nat

section \<open>Collections of rules\<close>

named_theorems rust_std \<open>equations for the operations of the Rust standard library\<close>
named_theorems seg_simps \<open>how a list of segments answers a point query\<close>

section \<open>Integers\<close>

definition u64_add :: "nat \<Rightarrow> nat \<Rightarrow> nat option" where
  "u64_add a b = (if a + b < 2 ^ 64 then Some (a + b) else None)"

definition usize_succ :: "nat \<Rightarrow> nat" where
  "usize_succ i = (i + 1) mod 2 ^ 64"

definition usize_pred :: "nat \<Rightarrow> nat" where
  "usize_pred i = (i + (2 ^ 64 - 1)) mod 2 ^ 64"

definition checked_sub :: "nat \<Rightarrow> nat \<Rightarrow> nat option" where
  "checked_sub a b = (if b \<le> a then Some (a - b) else None)"

section \<open>Vectors and deques\<close>

definition partition_point :: "('a \<Rightarrow> bool) \<Rightarrow> 'a list \<Rightarrow> nat" where
  "partition_point P xs = length (takeWhile P xs)"

definition binary_search_by_key :: "('a \<Rightarrow> nat) \<Rightarrow> nat \<Rightarrow> 'a list \<Rightarrow> search" where
  "binary_search_by_key f k xs =
     (let i = partition_point (\<lambda>x. f x < k) xs
      in if i < length xs \<and> f (xs ! i) = k then Found i else Missing i)"

definition vec_insert :: "nat \<Rightarrow> 'a \<Rightarrow> 'a list \<Rightarrow> 'a list" where
  "vec_insert i x xs = take i xs @ x # drop i xs"

definition vec_drain :: "nat \<Rightarrow> nat \<Rightarrow> 'a list \<Rightarrow> 'a list" where
  "vec_drain i j xs = take i xs @ drop j xs"

definition vec_get :: "'a list \<Rightarrow> nat \<Rightarrow> 'a option" where
  "vec_get xs i = (if i < length xs then Some (xs ! i) else None)"

section \<open>Facts\<close>

lemma u64_add_Some [rust_std]: "u64_add a b = Some c \<longleftrightarrow> a + b < 2 ^ 64 \<and> c = a + b"
  by (auto simp: u64_add_def)

lemma checked_sub_Some [rust_std]: "checked_sub a b = Some c \<longleftrightarrow> b \<le> a \<and> c = a - b"
  by (auto simp: checked_sub_def)

lemma checked_sub_None [rust_std]: "checked_sub a b = None \<longleftrightarrow> a < b"
  by (auto simp: checked_sub_def)

lemma usize_succ_small [rust_std]: "i + 1 < 2 ^ 64 \<Longrightarrow> usize_succ i = i + 1"
  by (simp add: usize_succ_def)

lemma usize_pred_Suc [rust_std]: "Suc i < 2 ^ 64 \<Longrightarrow> usize_pred (Suc i) = i"
  by (simp add: usize_pred_def)

lemma usize_pred_0 [rust_std]: "usize_pred 0 = 2 ^ 64 - 1"
  by (simp add: usize_pred_def)

lemma usize_succ_pred [rust_std]: "i < 2 ^ 64 \<Longrightarrow> usize_succ (usize_pred i) = i"
  by (cases i) (auto simp: usize_succ_def usize_pred_def)

lemma vec_get_Some [rust_std]: "vec_get xs i = Some x \<longleftrightarrow> i < length xs \<and> xs ! i = x"
  by (auto simp: vec_get_def)

lemma vec_get_None [rust_std]: "vec_get xs i = None \<longleftrightarrow> length xs \<le> i"
  by (auto simp: vec_get_def)

lemma length_vec_insert [simp]: "i \<le> length xs \<Longrightarrow> length (vec_insert i x xs) = Suc (length xs)"
  by (simp add: vec_insert_def)

lemma length_vec_drain [simp]:
  "i \<le> j \<Longrightarrow> j \<le> length xs \<Longrightarrow> length (vec_drain i j xs) = length xs - (j - i)"
  by (simp add: vec_drain_def)

text \<open>
  \<open>partition_point\<close> splits a list at the first element that fails the predicate.
\<close>

lemma partition_point_le [simp]: "partition_point P xs \<le> length xs"
  by (simp add: partition_point_def length_takeWhile_le)

lemma partition_point_less: "i < partition_point P xs \<Longrightarrow> P (xs ! i)"
  unfolding partition_point_def
  by (metis nth_mem set_takeWhileD takeWhile_nth)

lemma partition_point_nth:
  "partition_point P xs < length xs \<Longrightarrow> \<not> P (xs ! partition_point P xs)"
  unfolding partition_point_def by (rule nth_length_takeWhile)

lemma take_partition_point: "take (partition_point P xs) xs = takeWhile P xs"
  by (simp add: partition_point_def takeWhile_eq_take [symmetric])

lemma drop_partition_point: "drop (partition_point P xs) xs = dropWhile P xs"
  by (simp add: partition_point_def dropWhile_eq_drop [symmetric])

lemma partition_point_mono:
  assumes "sorted_wrt R xs" and "\<And>x y. R x y \<Longrightarrow> P y \<Longrightarrow> P x"
    and "i < length xs"
  shows "P (xs ! i) \<longleftrightarrow> i < partition_point P xs"
proof
  assume p: "P (xs ! i)"
  show "i < partition_point P xs"
  proof (rule ccontr)
    assume "\<not> i < partition_point P xs"
    then have le: "partition_point P xs \<le> i" by simp
    with assms(3) have lt: "partition_point P xs < length xs" by simp
    have "P (xs ! partition_point P xs)"
    proof (cases "partition_point P xs = i")
      case True
      with p show ?thesis by simp
    next
      case False
      with le have "partition_point P xs < i" by simp
      with assms(1,3) have "R (xs ! partition_point P xs) (xs ! i)"
        by (simp add: sorted_wrt_iff_nth_less)
      with p show ?thesis using assms(2) by blast
    qed
    with partition_point_nth [OF lt] show False by simp
  qed
qed (rule partition_point_less)

lemma binary_search_Found:
  "binary_search_by_key f k xs = Found i \<Longrightarrow> i < length xs \<and> f (xs ! i) = k"
  by (auto simp: binary_search_by_key_def Let_def split: if_splits)

lemma binary_search_Missing:
  assumes "binary_search_by_key f k xs = Missing i"
  shows "i \<le> length xs" and "\<And>j. j < i \<Longrightarrow> f (xs ! j) < k" and "i < length xs \<Longrightarrow> k < f (xs ! i)"
proof -
  from assms have i: "i = partition_point (\<lambda>x. f x < k) xs"
    and ne: "i < length xs \<Longrightarrow> f (xs ! i) \<noteq> k"
    by (auto simp: binary_search_by_key_def Let_def split: if_splits)
  show "i \<le> length xs" by (simp add: i)
  show "f (xs ! j) < k" if "j < i" for j
    using that partition_point_less [of j "\<lambda>x. f x < k" xs] by (simp add: i)
  show "k < f (xs ! i)" if "i < length xs"
    using that ne partition_point_nth [of "\<lambda>x. f x < k" xs] by (auto simp: i)
qed

lemma split_at_nth: "i < length xs \<Longrightarrow> xs = take i xs @ xs ! i # drop (Suc i) xs"
  by (rule id_take_nth_drop)

lemma nth_take_drop_slice:
  "i < n \<Longrightarrow> o' + i < length W \<Longrightarrow> take n (drop o' W) ! i = W ! (o' + i)"
  by simp

section \<open>Slices of a stream\<close>

text \<open>\<open>data\<close> is the part of the stream \<open>W\<close> that starts at \<open>offset\<close>.\<close>

definition slice_of :: "byte list \<Rightarrow> nat \<Rightarrow> byte list \<Rightarrow> bool" where
  "slice_of W offset data \<longleftrightarrow> offset + length data \<le> length W \<and> data = take (length data) (drop offset W)"

lemma slice_of_nth:
  "slice_of W offset data \<Longrightarrow> i < length data \<Longrightarrow> data ! i = W ! (offset + i)"
  by (metis add_leD1 nth_drop nth_take slice_of_def)

lemma slice_of_Nil [simp]: "slice_of W offset [] \<longleftrightarrow> offset \<le> length W"
  by (simp add: slice_of_def)

lemma slice_of_append:
  "slice_of W offset xs \<Longrightarrow> slice_of W (offset + length xs) ys \<Longrightarrow> slice_of W offset (xs @ ys)"
  by (simp add: slice_of_def take_add add.commute)

lemma slice_of_prefix: "slice_of W 0 xs \<longleftrightarrow> prefix xs W"
  by (auto simp: slice_of_def prefix_def) (metis append_take_drop_id)

lemma slice_of_extend: "slice_of W offset data \<Longrightarrow> slice_of (W @ W') offset data"
  by (auto simp: slice_of_def)

section \<open>Words and big-endian bytes\<close>

unbundle bit_operations_syntax

lemma nat_or_disjoint:
  assumes "y < 2 ^ n"
  shows "(push_bit n x OR y :: nat) = x * 2 ^ n + y"
proof -
  from assms have "take_bit n y = y" by (simp add: take_bit_nat_eq_self)
  then have "\<not> bit y k" if "n \<le> k" for k using that by (metis bit_take_bit_iff not_le)
  then have "push_bit n x + y = push_bit n x OR y"
    by (intro disjunctive_add) (auto simp: bit_simps)
  then show ?thesis by (simp add: push_bit_eq_mult)
qed

lemma unat_clear_low: "unat ((x :: 'a::len word) AND NOT (mask n)) = push_bit n (unat x div 2 ^ n)"
proof -
  have "x AND NOT (mask n) = push_bit n (drop_bit n x)"
    by (rule bit_eqI) (auto simp: bit_simps dest: bit_imp_le_length)
  moreover have "unat (push_bit n (drop_bit n x)) = push_bit n (drop_bit n (unat x))"
    by (rule bit_eqI) (auto simp: bit_simps dest: bit_imp_le_length)
  ultimately show ?thesis by (simp add: drop_bit_eq_div)
qed

lemma unat_clear_low_or:
  fixes x y :: "'a::len word"
  assumes "unat y < 2 ^ n"
  shows "unat ((x AND NOT (mask n)) OR y) = unat x div 2 ^ n * 2 ^ n + unat y"
  by (simp add: unsigned_or_eq unat_clear_low nat_or_disjoint [OF assms])


lemma unat_bound: "unat (x :: 'a::len word) < 2 ^ LENGTH('a)"
  by (rule unsigned_less)

lemma unat_ucast_up:
  "LENGTH('a) \<le> LENGTH('b) \<Longrightarrow> unat (ucast (x :: 'a::len word) :: 'b::len word) = unat x"
  using less_le_trans [OF unat_bound [of x] power_increasing [of "LENGTH('a)" "LENGTH('b)" "2 :: nat"]]
  by (simp add: unsigned_ucast_eq take_bit_nat_eq_self)

text \<open>
  What \<open>BufMut::put_u8\<close>, \<open>put_u16\<close>, \<open>put_u32\<close> and \<open>put_u64\<close> append to a buffer: the big-endian bytes of
  the value; and the value that a big-endian byte string denotes.
\<close>

fun be_bytes :: "nat \<Rightarrow> nat \<Rightarrow> byte list" where
  "be_bytes 0 v = []"
| "be_bytes (Suc n) v = be_bytes n (v div 256) @ [word_of_nat v]"

definition be_nat :: "byte list \<Rightarrow> nat" where
  "be_nat xs = foldl (\<lambda>a x. a * 256 + unat x) 0 xs"

lemma be_nat_Nil [simp]: "be_nat [] = 0" by (simp add: be_nat_def)

lemma be_nat_snoc [simp]: "be_nat (xs @ [x]) = be_nat xs * 256 + unat x"
  by (simp add: be_nat_def)

lemma be_nat_append: "be_nat (xs @ ys) = be_nat xs * 256 ^ length ys + be_nat ys"
proof (induction ys rule: rev_induct)
  case (snoc y ys)
  then show ?case by (simp add: algebra_simps flip: append_assoc)
qed simp

lemma length_be_bytes [simp]: "length (be_bytes n v) = n"
  by (induction n arbitrary: v) auto

lemma be_nat_be_bytes: "be_nat (be_bytes n v) = v mod 256 ^ n"
proof (induction n arbitrary: v)
  case (Suc n)
  have "v div 256 mod 256 ^ n * 256 + v mod 256 = v mod 256 ^ Suc n"
    by (simp add: mod_mult2_eq mult.commute)
  with Suc show ?case by (simp add: unat_of_nat)
qed simp

lemma be_nat_be_bytes_id: "v < 256 ^ n \<Longrightarrow> be_nat (be_bytes n v) = v"
  by (simp add: be_nat_be_bytes)

lemma be_nat_less: "be_nat xs < 256 ^ length xs"
proof (induction xs rule: rev_induct)
  case (snoc x xs)
  have "unat x < 256" using unsigned_less [of x] by simp
  with snoc show ?case by simp
qed simp

text \<open>
  The documented behaviour of the \<open>nom\<close> parsers \<open>be_u8\<close>, \<open>be_u16\<close>, \<open>be_u24\<close>, \<open>be_u32\<close> and \<open>be_u64\<close>: the
  crate is not part of the sources, so the parsers are a parameter of the definitions that
  call them, indexed by the number of bytes they take.
\<close>

definition nom_be_uint :: "(nat \<Rightarrow> byte list \<Rightarrow> (byte list \<times> nat) option) \<Rightarrow> bool" where
  "nom_be_uint be_uint \<longleftrightarrow>
     (\<forall>n xs. be_uint n xs = (if length xs < n then None else Some (drop n xs, be_nat (take n xs))))"

end
