(* ===== verification/Packet_Number.thy ===== *)
theory Packet_Number
  imports Prelude
begin

text \<open>
  Packet numbers on the wire, \<open>qbase/src/packet/number.rs\<close>: a 62-bit number is truncated to its
  low bytes when it is sent and reconstructed from the number the receiver expects next. A
  panic (subtraction underflow, a range too large to encode, an impossible length) is the
  value \<open>None\<close>. The lemmas relate the bit operations of \<open>decode\<close> to the arithmetic of RFC 9000,
  appendix A.3, and show that the wire round trip is exact inside the window.
\<close>

datatype packet_number = U8 "8 word" | U16 "16 word" | U24 "32 word" | U32 "32 word"

fun put_packet_number :: "packet_number \<Rightarrow> byte list" where
  "put_packet_number (U8 x) = be_bytes 1 (unat x)"
| "put_packet_number (U16 x) = be_bytes 2 (unat x)"
| "put_packet_number (U24 x) =
     be_bytes 1 (unat (ucast (drop_bit 16 x) :: 8 word)) @ be_bytes 2 (unat (ucast x :: 16 word))"
| "put_packet_number (U32 x) = be_bytes 4 (unat x)"

definition take_pn_len ::
  "(nat \<Rightarrow> byte list \<Rightarrow> (byte list \<times> nat) option) \<Rightarrow> nat \<Rightarrow> byte list \<Rightarrow>
   (byte list \<times> packet_number) option option" where
  "take_pn_len be_uint pn_len input =
     (if pn_len = 1 then Some (map_option (apsnd (\<lambda>v. U8 (word_of_nat v))) (be_uint 1 input))
      else if pn_len = 2 then Some (map_option (apsnd (\<lambda>v. U16 (word_of_nat v))) (be_uint 2 input))
      else if pn_len = 3 then Some (map_option (apsnd (\<lambda>v. U24 (word_of_nat v))) (be_uint 3 input))
      else if pn_len = 4 then Some (map_option (apsnd (\<lambda>v. U32 (word_of_nat v))) (be_uint 4 input))
      else None)"

definition encode :: "nat \<Rightarrow> nat \<Rightarrow> packet_number option" where
  "encode pn largest_acked =
     (if pn < largest_acked then None
      else
        (let range = max ((pn - largest_acked) * 2) (2 ^ 16 - 1)
         in if range < 2 ^ 8 then Some (U8 (word_of_nat pn))
            else if range < 2 ^ 16 then Some (U16 (word_of_nat pn))
            else if range < 2 ^ 24 then Some (U24 (word_of_nat pn))
            else if range < 2 ^ 32 then Some (U32 (word_of_nat pn))
            else None))"

fun pn_size :: "packet_number \<Rightarrow> nat" where
  "pn_size (U8 _) = 1"
| "pn_size (U16 _) = 2"
| "pn_size (U24 _) = 3"
| "pn_size (U32 _) = 4"

definition decode :: "packet_number \<Rightarrow> 64 word \<Rightarrow> 64 word" where
  "decode p expected =
     (let (truncated, nbits) =
            (case p of U8 x \<Rightarrow> (ucast x, 8) | U16 x \<Rightarrow> (ucast x, 16)
             | U24 x \<Rightarrow> (ucast x, 24) | U32 x \<Rightarrow> (ucast x, 32));
          win = push_bit nbits 1;
          hwin = win div 2;
          mask = win - 1;
          candidate = (expected AND NOT mask) OR truncated
      in if hwin \<le> expected \<and> candidate \<le> expected - hwin then candidate + win
         else if expected + hwin < candidate \<and> win < candidate then candidate - win
         else candidate)"

text \<open>The specification: the decoding of RFC 9000, appendix A.3, on numbers.\<close>

definition truncated_of :: "packet_number \<Rightarrow> nat" where
  "truncated_of p = (case p of U8 x \<Rightarrow> unat x | U16 x \<Rightarrow> unat x | U24 x \<Rightarrow> unat x | U32 x \<Rightarrow> unat x)"

definition rfc_decode :: "nat \<Rightarrow> nat \<Rightarrow> nat \<Rightarrow> nat" where
  "rfc_decode expected nbits truncated =
     (let win = 2 ^ nbits; hwin = win div 2;
          candidate = expected div win * win + truncated
      in if int candidate \<le> int expected - int hwin \<and> int candidate < 2 ^ 62 - int win then candidate + win
         else if expected + hwin < candidate \<and> win \<le> candidate then candidate - win
         else candidate)"

definition pn_wf :: "packet_number \<Rightarrow> bool" where
  "pn_wf p \<longleftrightarrow> truncated_of p < 2 ^ (8 * pn_size p)"

lemma pn_wf_iff [simp]:
  "pn_wf (U8 x)" "pn_wf (U16 y)" "pn_wf (U24 z) \<longleftrightarrow> unat z < 2 ^ 24" "pn_wf (U32 z)"
  using unat_bound [of x] unat_bound [of y] unat_bound [of z]
  by (simp_all add: pn_wf_def truncated_of_def)

definition decode_nat :: "nat \<Rightarrow> nat \<Rightarrow> nat \<Rightarrow> nat" where
  "decode_nat expected nbits truncated =
     (let win = 2 ^ nbits; hwin = win div 2;
          candidate = expected div win * win + truncated
      in if hwin \<le> expected \<and> candidate \<le> expected - hwin then candidate + win
         else if expected + hwin < candidate \<and> win < candidate then candidate - win
         else candidate)"

lemma unat_decode_core:
  fixes e t :: "64 word"
  assumes "0 < n" "n \<le> 32" and t: "unat t < 2 ^ n" and e: "unat e \<le> 2 ^ 62"
  defines "win \<equiv> push_bit n 1" and "cand \<equiv> (e AND NOT (push_bit n 1 - 1)) OR t"
  shows "unat win = 2 ^ n" "unat (win div 2) = 2 ^ n div 2"
    "unat cand = unat e div 2 ^ n * 2 ^ n + unat t" 
    "unat (e + win div 2) = unat e + 2 ^ n div 2" "unat (cand + win) = unat cand + 2 ^ n"
proof -
  have "(2::nat) ^ n < 2 ^ 64" using assms(2) by (intro power_strict_increasing) auto
  moreover have "win = word_of_nat (2 ^ n)" by (simp add: win_def push_bit_eq_mult)
  ultimately show win: "unat win = 2 ^ n" by (simp add: unat_of_nat del: of_nat_power)
  show hw: "unat (win div 2) = 2 ^ n div 2" by (simp add: unat_div win)
  have "push_bit n 1 - 1 = (mask n :: 64 word)" by (simp add: mask_eq_exp_minus_1 push_bit_eq_mult)
  then show c: "unat cand = unat e div 2 ^ n * 2 ^ n + unat t"
    unfolding cand_def using unat_clear_low_or [OF t, of e] by simp
  have n: "(2::nat) ^ n \<le> 2 ^ 32" using assms(2) by (rule power_increasing) simp
  have "unat e div 2 ^ n * 2 ^ n \<le> unat e" by simp
  then have "unat cand \<le> 2 ^ 62 + 2 ^ n" using c t e by linarith
  with n show "unat (cand + win) = unat cand + 2 ^ n"
    by (subst unat_add_lem [THEN iffD1]) (auto simp: win)
  from n e show "unat (e + win div 2) = unat e + 2 ^ n div 2"
    by (subst unat_add_lem [THEN iffD1]) (auto simp: hw)
qed


lemma unat_decode:
  assumes wf: "pn_wf p" and e: "unat e \<le> 2 ^ 62"
  shows "unat (decode p e) = decode_nat (unat e) (8 * pn_size p) (truncated_of p)"
proof -
  define n where "n = 8 * pn_size p"
  define t :: "64 word" where "t = (case p of U8 x \<Rightarrow> ucast x | U16 x \<Rightarrow> ucast x | U24 x \<Rightarrow> ucast x | U32 x \<Rightarrow> ucast x)"
  have n: "0 < n" "n \<le> 32" by (cases p; simp add: n_def)+
  have t: "unat t = truncated_of p"
    by (cases p) (simp_all add: t_def truncated_of_def unat_ucast_up)
  then have tn: "unat t < 2 ^ n" using wf by (simp add: pn_wf_def n_def)
  define win :: "64 word" where "win = push_bit n 1"
  define cand where "cand = (e AND NOT (win - 1)) OR t"
  note core = unat_decode_core [OF n tn e, folded win_def, folded cand_def]
  have dec: "decode p e = (if win div 2 \<le> e \<and> cand \<le> e - win div 2 then cand + win
         else if e + win div 2 < cand \<and> win < cand then cand - win else cand)"
    by (cases p) (simp_all add: decode_def Let_def n_def t_def win_def cand_def)
  have sub: "unat (e - win div 2) = unat e - 2 ^ n div 2" if "win div 2 \<le> e"
    using that core(2) by (simp add: unat_sub)
  have sub': "unat (cand - win) = unat cand - 2 ^ n" if "win < cand"
    using that core(1) by (simp add: unat_sub less_imp_le)
  show ?thesis
    unfolding decode_nat_def Let_def n_def [symmetric] t [symmetric] core(3) [symmetric]
    unfolding dec using sub sub'
    by (auto simp: word_le_nat_alt word_less_nat_alt core(1,2,4,5))
qed

lemma decode_nat_window:
  assumes n: "0 < n" and t: "t = pn mod 2 ^ n"
    and lo: "expected < pn + 2 ^ n div 2" and hi: "pn \<le> expected + 2 ^ n div 2"
  shows "decode_nat expected n t = pn"
proof -
  obtain h :: nat where h: "2 ^ n = 2 * h" "0 < h" using n by (cases n) auto
  define A where "A = expected div (2 * h) * (2 * h)"
  define B where "B = pn div (2 * h) * (2 * h)"
  have e: "A \<le> expected" "expected < A + 2 * h"
    using h(2) div_mult_mod_eq [of expected "2 * h"] mod_less_divisor [of "2 * h" expected]
    unfolding A_def by linarith+
  have p: "pn = B + t" unfolding B_def t h(1) by (rule div_mult_mod_eq [symmetric])
  have t_less: "t < 2 * h" using h by (simp add: t)
  have far: "x * (2 * h) + 4 * h \<le> y * (2 * h)" if "x + 2 \<le> y" for x y :: nat
    using mult_le_mono1 [OF that, of "2 * h"] by (simp add: algebra_simps)
  have "expected div (2 * h) = pn div (2 * h) \<or> expected div (2 * h) = Suc (pn div (2 * h)) \<or>
      pn div (2 * h) = Suc (expected div (2 * h))"
    using far [of "pn div (2 * h)" "expected div (2 * h)"] far [of "expected div (2 * h)" "pn div (2 * h)"]
      e p t_less lo hi h unfolding A_def [symmetric] B_def [symmetric] by linarith
  then consider "A = B" | "A = B + 2 * h" | "B = A + 2 * h" by (auto simp: A_def B_def)
  then have "(if h \<le> expected \<and> A + t \<le> expected - h then A + t + 2 * h
     else if expected + h < A + t \<and> 2 * h < A + t then A + t - 2 * h else A + t) = pn"
    using e p t_less lo hi h by cases (simp_all; linarith)+
  then show ?thesis
    unfolding decode_nat_def Let_def h(1) A_def [symmetric]
    by (simp only: nonzero_mult_div_cancel_left [of 2 h] zero_neq_numeral not_False_eq_True)
qed


lemma decode_nat_eq_rfc:
  assumes n: "0 < n" and t: "t < 2 ^ n" and r: "decode_nat expected n t < 2 ^ 62"
  shows "decode_nat expected n t = rfc_decode expected n t"
proof -
  obtain h :: nat where h: "2 ^ n = 2 * h" "0 < h" using n by (cases n) auto
  define A where "A = expected div (2 * h) * (2 * h)"
  have e: "A \<le> expected" "expected < A + 2 * h"
    using h(2) div_mult_mod_eq [of expected "2 * h"] mod_less_divisor [of "2 * h" expected]
    unfolding A_def by linarith+
  have d: "decode_nat expected n t = (if h \<le> expected \<and> A + t \<le> expected - h then A + t + 2 * h
     else if expected + h < A + t \<and> 2 * h < A + t then A + t - 2 * h else A + t)"
    unfolding decode_nat_def Let_def h(1) A_def [symmetric] by simp
  have f: "rfc_decode expected n t =
     (if int (A + t) \<le> int expected - int h \<and> int (A + t) < 2 ^ 62 - int (2 * h) then A + t + 2 * h
      else if expected + h < A + t \<and> 2 * h \<le> A + t then A + t - 2 * h else A + t)"
    unfolding rfc_decode_def Let_def h(1) A_def [symmetric] by simp
  have exact: "\<not> expected + h < A + t" if "A + t = 2 * h"
  proof
    assume "expected + h < A + t"
    with that have "expected < 2 * h" by linarith
    then have "A = 0" by (simp add: A_def)
    with that t h show False by simp
  qed
  show ?thesis
    using r exact h(2) unfolding d f by (auto split: if_splits)
qed

lemma put_take_pn:
  assumes "nom_be_uint be_uint"
  shows "\<exists>p'. take_pn_len be_uint (pn_size p) (put_packet_number p @ rest) = Some (Some (rest, p')) \<and>
     pn_size p' = pn_size p \<and> pn_wf p' \<and> truncated_of p' = truncated_of p mod 2 ^ (8 * pn_size p)"
proof -
  have be: "be_uint n (xs @ rest) = Some (rest, be_nat xs)" if "length xs = n" for n xs
    using assms that by (simp add: nom_be_uint_def)
  show ?thesis
  proof (cases p)
    case (U8 x)
    have "be_uint 1 (put_packet_number p @ rest) = Some (rest, unat x)"
      using be [of "be_bytes 1 (unat x)" 1] be_nat_be_bytes [of 1 "unat x"] unat_bound [of x]
      by (simp add: U8)
    then show ?thesis using unat_bound [of x] by (simp add: U8 take_pn_len_def truncated_of_def unat_of_nat)
  next
    case (U24 x)
    have len: "length (put_packet_number p) = 3" by (simp add: U24)
    have "be_nat (put_packet_number p) = unat x div 2 ^ 16 mod 2 ^ 8 * 2 ^ 16 + unat x mod 2 ^ 16"
      by (simp add: U24 be_nat_append be_nat_be_bytes unsigned_ucast_eq unat_drop_bit_eq
          take_bit_eq_mod drop_bit_eq_div [where 'a = nat] del: be_bytes.simps)
    also have "\<dots> = unat x mod (2 ^ 16 * 2 ^ 8)"
      using mod_mult2_eq [of "unat x" "2 ^ 16" "2 ^ 8"] by simp
    finally have "be_nat (put_packet_number p) = unat x mod 2 ^ 24" by simp
    with be [OF len] U24 show ?thesis
      by (simp add: take_pn_len_def truncated_of_def unat_of_nat)
  qed (use unat_bound in \<open>auto simp: take_pn_len_def be be_nat_be_bytes truncated_of_def unat_of_nat\<close>)
qed

lemma encode_Some:
  assumes "la \<le> pn" and "pn - la < 2 ^ 31"
  shows "\<exists>p. encode pn la = Some p \<and> truncated_of p mod 2 ^ (8 * pn_size p) = pn mod 2 ^ (8 * pn_size p) \<and>
    2 ^ 15 \<le> (2::nat) ^ (8 * pn_size p) div 2 \<and> pn - la < 2 ^ (8 * pn_size p) div 2"
proof -
  consider "pn - la < 2 ^ 15" | "2 ^ 15 \<le> pn - la" "pn - la < 2 ^ 23" | "2 ^ 23 \<le> pn - la" by linarith
  then show ?thesis
  proof cases
    case 1
    with assms show ?thesis
      by (intro exI [of _ "U16 (word_of_nat pn)"]) (simp add: encode_def truncated_of_def unat_of_nat)
  next
    case 2
    with assms show ?thesis
      by (intro exI [of _ "U24 (word_of_nat pn)"])
        (simp add: encode_def max_def truncated_of_def unat_of_nat mod_mod_cancel)
  next
    case 3
    with assms show ?thesis
      by (intro exI [of _ "U32 (word_of_nat pn)"]) (simp add: encode_def max_def truncated_of_def unat_of_nat)
  qed
qed

section \<open>Properties\<close>

text \<open>
  C18. A packet number that the sender truncates against the largest acknowledged one, writes,
  and the receiver parses and reconstructs comes back unchanged, whenever at most \<open>2 ^ 31\<close>
  packets are unacknowledged, the receiver has seen at least what it acknowledged, and the
  packet is less than \<open>2 ^ 15\<close> behind the number the receiver expects (the 16-bit minimum the
  encoder enforces). The 24-bit form keeps 32 bits in memory and is cut to 24 by the writer,
  so the property is about the wire and not about \<open>encode\<close> and \<open>decode\<close> alone.
\<close>

theorem pn_wire_roundtrip:
  assumes "nom_be_uint be_uint" and "la \<le> pn" and "pn - la < 2 ^ 31"
    and "la \<le> unat expected" and "unat expected < pn + 2 ^ 15" and "unat expected \<le> 2 ^ 62"
  shows "\<exists>p p'. encode pn la = Some p \<and>
     take_pn_len be_uint (pn_size p) (put_packet_number p @ rest) = Some (Some (rest, p')) \<and>
     unat (decode p' expected) = pn"
proof -
  obtain p where p: "encode pn la = Some p"
    "truncated_of p mod 2 ^ (8 * pn_size p) = pn mod 2 ^ (8 * pn_size p)"
    "2 ^ 15 \<le> (2::nat) ^ (8 * pn_size p) div 2" "pn - la < 2 ^ (8 * pn_size p) div 2"
    using encode_Some [OF assms(2,3)] by blast
  obtain p' where p': "take_pn_len be_uint (pn_size p) (put_packet_number p @ rest) = Some (Some (rest, p'))"
    "pn_size p' = pn_size p" "pn_wf p'" "truncated_of p' = pn mod 2 ^ (8 * pn_size p)"
    using put_take_pn [OF assms(1), of p rest] p(2) by metis
  have "0 < 8 * pn_size p" by (cases p) auto
  then have "decode_nat (unat expected) (8 * pn_size p) (truncated_of p') = pn"
    using p p'(4) assms by (intro decode_nat_window) linarith+
  with unat_decode [OF p'(3) assms(6)] p p' show ?thesis by auto
qed

definition sample_be_uint :: "nat \<Rightarrow> byte list \<Rightarrow> (byte list \<times> nat) option" where
  "sample_be_uint n xs = (if length xs < n then None else Some (drop n xs, be_nat (take n xs)))"

theorem pn_wire_roundtrip_witness:
  "nom_be_uint sample_be_uint \<and>
   (\<exists>p p'. encode 16777300 16000000 = Some p \<and>
     take_pn_len sample_be_uint (pn_size p) (put_packet_number p @ [7]) = Some (Some ([7], p')) \<and>
     unat (decode p' 16777216) = 16777300)"
proof -
  have be: "nom_be_uint sample_be_uint" by (simp add: nom_be_uint_def sample_be_uint_def)
  then show ?thesis
    using pn_wire_roundtrip [OF be, of 16000000 16777300 16777216 "[7]"] by simp
qed

text \<open>
  C13. \<open>decode\<close>, with its masks and its \<open>checked_sub\<close>, computes the decoding of RFC 9000,
  appendix A.3, for every well-formed truncated number whenever its result is a legal packet
  number (below \<open>2 ^ 62\<close>, the check \<open>decode_pn\<close> makes next).
\<close>

theorem decode_matches_rfc:
  assumes "pn_wf p" and "unat expected \<le> 2 ^ 62" and "unat (decode p expected) < 2 ^ 62"
  shows "unat (decode p expected) = rfc_decode (unat expected) (8 * pn_size p) (truncated_of p)"
proof -
  have "0 < 8 * pn_size p" by (cases p) auto
  with assms show ?thesis
    unfolding unat_decode [OF assms(1,2)] by (intro decode_nat_eq_rfc) (auto simp: pn_wf_def)
qed
theorem decode_matches_rfc_witness:
  "unat (decode (U16 39730) 2826462003) = rfc_decode 2826462003 16 39730"
  using decode_matches_rfc [of "U16 39730" 2826462003]
  by (simp add: decode_def truncated_of_def)

end
