(* ===== verification/Recv_Buf.thy ===== *)
theory Recv_Buf
  imports Prelude
begin

text \<open>
  The receive buffer of a stream, \<open>qrecovery/src/recv/rcvbuf.rs\<close>. Fragments arrive in any
  order, may repeat and may overlap; the buffer keeps the bytes it does not have yet as a
  deque of disjoint segments and hands them to the application in order. A \<open>Bytes\<close> value is
  the list of its bytes (\<open>advance\<close>, \<open>split_to\<close> and \<open>split_off\<close> are \<open>take\<close> and \<open>drop\<close>).

  The abstraction \<open>lookup\<close> reads the deque as a partial map from stream offsets to bytes.
  The lemmas show that \<open>recv\<close> terminates, adds exactly the missing bytes and keeps the ones
  already stored, that reads deliver the contiguous bytes at the read position, and, in the
  locale \<open>reassembly\<close>, that any schedule of fragments and reads delivers a prefix of the
  stream.
\<close>

section \<open>Segments\<close>

record segment =
  seg_offset :: nat
  seg_data :: "byte list"

definition seg_end :: "segment \<Rightarrow> nat" where
  "seg_end s = seg_offset s + length (seg_data s)"

record recv_buf =
  nread :: nat
  largest_offset :: nat
  segments :: "segment list"

definition empty_buf :: recv_buf where
  "empty_buf = \<lparr>nread = 0, largest_offset = 0, segments = []\<rparr>"

section \<open>Receiving a fragment\<close>

text \<open>
  One turn of the loop of \<open>RecvBuf::recv\<close>: \<open>None\<close> is \<open>break\<close>, \<open>Some\<close> the state the next turn
  starts from (start, remaining data, segments, largest offset).
\<close>

definition recv_step ::
  "nat \<Rightarrow> byte list \<Rightarrow> segment list \<Rightarrow> nat \<Rightarrow> (nat \<times> byte list \<times> segment list \<times> nat) option" where
  "recv_step start data segs largest =
     (case binary_search_by_key seg_offset start segs of
        Found i \<Rightarrow>
          (let covered = min (length data) (length (seg_data (segs ! i)))
           in Some (start + covered, drop covered data, segs, largest))
      | Missing i \<Rightarrow>
          if i = 0 then
            (let uncovered =
                   (case segs of
                      next # _ \<Rightarrow>
                        if seg_offset next < start + length data
                        then take (seg_offset next - start) data else data
                    | [] \<Rightarrow> data);
                 segment = \<lparr>seg_offset = start, seg_data = uncovered\<rparr>
             in Some (start + length uncovered, drop (length uncovered) data, segment # segs,
                      max largest (seg_end segment)))
          else
            (let prev = segs ! (i - 1)
             in if start + length data \<le> seg_end prev then None
                else
                  (let covered = (if start < seg_end prev then seg_end prev - start else 0);
                       start = start + covered;
                       data = drop covered data
                   in if i < length segs \<and> start = seg_offset (segs ! i)
                      then Some (start, data, segs, largest)
                      else
                        (let uncovered =
                               (if i < length segs \<and> seg_offset (segs ! i) < start + length data
                                then take (seg_offset (segs ! i) - start) data else data);
                             segment = \<lparr>seg_offset = start, seg_data = uncovered\<rparr>
                         in Some (start + length uncovered, drop (length uncovered) data,
                                  vec_insert i segment segs, max largest (seg_end segment))))))"

text \<open>
  The loop itself. On a segment with no data it would not advance, so not returning is the
  value \<open>None\<close>; \<open>recv_loop_returns\<close> below shows that it returns on every well-formed buffer.
\<close>

partial_function (option) recv_loop ::
  "nat \<Rightarrow> byte list \<Rightarrow> segment list \<Rightarrow> nat \<Rightarrow> (segment list \<times> nat) option" where
  "recv_loop start data segs largest =
     (if data = [] then Some (segs, largest)
      else case recv_step start data segs largest of
             None \<Rightarrow> Some (segs, largest)
           | Some (start', data', segs', largest') \<Rightarrow> recv_loop start' data' segs' largest')"

definition recv :: "nat \<Rightarrow> byte list \<Rightarrow> recv_buf \<Rightarrow> (nat \<times> recv_buf) option" where
  "recv offset data b =
     (let previous_largest = largest_offset b;
          start = max offset (nread b);
          data = drop (min (length data) (start - offset)) data
      in map_option
           (\<lambda>(segs, largest).
              (largest - previous_largest, b\<lparr>segments := segs, largest_offset := largest\<rparr>))
           (recv_loop start data (segments b) previous_largest))"

section \<open>Reading\<close>

fun continuous_end :: "nat \<Rightarrow> segment list \<Rightarrow> nat" where
  "continuous_end offset [] = offset"
| "continuous_end offset (s # ss) =
     (if seg_offset s = offset then continuous_end (offset + length (seg_data s)) ss else offset)"

definition available :: "recv_buf \<Rightarrow> nat" where
  "available b = continuous_end (nread b) (segments b) - nread b"

definition is_readable :: "recv_buf \<Rightarrow> bool" where
  "is_readable b \<longleftrightarrow> segments b \<noteq> [] \<and> seg_offset (segments b ! 0) = nread b"

definition is_empty :: "recv_buf \<Rightarrow> bool" where
  "is_empty b \<longleftrightarrow> segments b = []"

definition segment_count :: "recv_buf \<Rightarrow> nat" where
  "segment_count b = length (segments b)"

text \<open>
  \<open>try_read\<close> into a buffer with room for \<open>room\<close> more bytes: the bytes written to it, the new
  read position and the segments left.
\<close>

function read_loop ::
  "nat \<Rightarrow> segment list \<Rightarrow> nat \<Rightarrow> byte list \<times> nat \<times> segment list" where
  "read_loop pos [] room = ([], pos, [])"
| "read_loop pos (s # ss) room =
     (if seg_offset s \<noteq> pos \<or> room = 0 then ([], pos, s # ss)
      else
        (let n = min room (length (seg_data s));
             rest = drop n (seg_data s);
             segs = (if rest \<noteq> [] then s\<lparr>seg_data := rest, seg_offset := seg_offset s + n\<rparr> # ss else ss);
             (out, pos', segs') = read_loop (pos + n) segs (room - n)
         in (take n (seg_data s) @ out, pos', segs')))"
  by pat_completeness auto
termination
  by (relation "measure (\<lambda>(pos, segs, room). length segs + room)") (auto simp: min_def)

definition try_read :: "nat \<Rightarrow> recv_buf \<Rightarrow> byte list \<times> recv_buf" where
  "try_read room b =
     (let (out, pos, segs) = read_loop (nread b) (segments b) room
      in (out, b\<lparr>nread := pos, segments := segs\<rparr>))"

definition try_next :: "recv_buf \<Rightarrow> byte list option \<times> recv_buf" where
  "try_next b =
     (if is_readable b
      then (let data = seg_data (hd (segments b))
            in (Some data, b\<lparr>segments := tl (segments b), nread := nread b + length data\<rparr>))
      else (None, b))"

section \<open>The buffer as a partial map\<close>

fun lookup :: "segment list \<Rightarrow> nat \<Rightarrow> byte option" where
  "lookup [] p = None"
| "lookup (s # ss) p =
     (if seg_offset s \<le> p \<and> p < seg_end s then Some (seg_data s ! (p - seg_offset s))
      else lookup ss p)"

text \<open>Stored bytes win; a fragment only fills the positions that are still missing.\<close>

definition overlay :: "nat \<Rightarrow> byte list \<Rightarrow> (nat \<Rightarrow> byte option) \<Rightarrow> nat \<Rightarrow> byte option" where
  "overlay start data m p =
     (case m p of
        Some x \<Rightarrow> Some x
      | None \<Rightarrow> if start \<le> p \<and> p < start + length data then Some (data ! (p - start)) else None)"

definition segs_ok :: "segment list \<Rightarrow> bool" where
  "segs_ok segs \<longleftrightarrow>
     sorted_wrt (\<lambda>s t. seg_end s \<le> seg_offset t) segs \<and> (\<forall>s \<in> set segs. seg_data s \<noteq> [])"

definition buf_ok :: "recv_buf \<Rightarrow> bool" where
  "buf_ok b \<longleftrightarrow>
     segs_ok (segments b) \<and>
     (\<forall>s \<in> set (segments b). nread b \<le> seg_offset s \<and> seg_end s \<le> largest_offset b) \<and>
     nread b \<le> largest_offset b"

lemma seg_end_gt: "seg_data s \<noteq> [] \<Longrightarrow> seg_offset s < seg_end s"
  by (simp add: seg_end_def)

lemma segs_ok_Nil [simp]: "segs_ok []"
  by (simp add: segs_ok_def)

lemma segs_ok_Cons:
  "segs_ok (s # ss) \<longleftrightarrow>
     seg_data s \<noteq> [] \<and> (\<forall>t \<in> set ss. seg_end s \<le> seg_offset t) \<and> segs_ok ss"
  by (auto simp: segs_ok_def)

lemma segs_ok_append:
  "segs_ok (xs @ ys) \<longleftrightarrow>
     segs_ok xs \<and> segs_ok ys \<and> (\<forall>s \<in> set xs. \<forall>t \<in> set ys. seg_end s \<le> seg_offset t)"
  by (auto simp: segs_ok_def sorted_wrt_append)

lemma segs_ok_disjoint:
  "segs_ok segs \<Longrightarrow> s \<in> set segs \<Longrightarrow> t \<in> set segs \<Longrightarrow>
     seg_offset s \<le> p \<Longrightarrow> p < seg_end s \<Longrightarrow> seg_offset t \<le> p \<Longrightarrow> p < seg_end t \<Longrightarrow> s = t"
  by (induction segs) (fastforce simp: segs_ok_Cons)+

lemma lookup_iff:
  "segs_ok segs \<Longrightarrow>
     lookup segs p = Some x \<longleftrightarrow>
       (\<exists>s \<in> set segs. seg_offset s \<le> p \<and> p < seg_end s \<and> x = seg_data s ! (p - seg_offset s))"
proof (induction segs)
  case Nil
  then show ?case by simp
next
  case (Cons s ss)
  then have ok: "segs_ok ss" by (simp add: segs_ok_Cons)
  show ?case
  proof (cases "seg_offset s \<le> p \<and> p < seg_end s")
    case True
    with Cons.prems have "t = s" if "t \<in> set (s # ss)" "seg_offset t \<le> p" "p < seg_end t" for t
      using that segs_ok_disjoint [of "s # ss" t s p] by simp
    with True show ?thesis by auto
  next
    case False
    with Cons.IH [OF ok] show ?thesis by auto
  qed
qed

lemma lookup_None_iff:
  "lookup segs p = None \<longleftrightarrow> (\<forall>s \<in> set segs. p < seg_offset s \<or> seg_end s \<le> p)"
  by (induction segs) auto

lemma lookup_Some_in: "s \<in> set segs \<Longrightarrow> seg_offset s \<le> p \<Longrightarrow> p < seg_end s \<Longrightarrow> lookup segs p \<noteq> None"
  by (metis leD lookup_None_iff)

lemma lookup_append:
  "lookup (xs @ ys) p = (case lookup xs p of Some x \<Rightarrow> Some x | None \<Rightarrow> lookup ys p)"
  by (induction xs) auto

text \<open>Storing a new segment in a gap.\<close>

lemma set_vec_insert [simp]: "set (vec_insert i x xs) = insert x (set xs)"
  unfolding vec_insert_def
  by (metis append_take_drop_id insert_is_Un list.simps(15) set_append sup.left_commute)

lemma segs_ok_insert:
  assumes "segs_ok segs" and "i \<le> length segs" and "seg_data s \<noteq> []"
    and "\<And>j. j < i \<Longrightarrow> seg_end (segs ! j) \<le> seg_offset s"
    and "\<And>j. i \<le> j \<Longrightarrow> j < length segs \<Longrightarrow> seg_end s \<le> seg_offset (segs ! j)"
  shows "segs_ok (vec_insert i s segs)"
proof -
  have l: "seg_end t \<le> seg_offset s" if "t \<in> set (take i segs)" for t
    using that assms(2,4) by (auto simp: in_set_conv_nth)
  have r: "seg_end s \<le> seg_offset t" if "t \<in> set (drop i segs)" for t
    using that assms(5) by (auto simp: in_set_conv_nth)
  have "segs_ok (take i segs @ drop i segs)" using assms(1) by simp
  then have "segs_ok (take i segs)" and "segs_ok (drop i segs)"
    and "\<forall>s \<in> set (take i segs). \<forall>t \<in> set (drop i segs). seg_end s \<le> seg_offset t"
    unfolding segs_ok_append by blast+
  with l r assms(3) show ?thesis
    by (auto simp: vec_insert_def segs_ok_append segs_ok_Cons)
qed

lemma lookup_insert:
  assumes "segs_ok segs" and "segs_ok (vec_insert i s segs)"
  shows "lookup (vec_insert i s segs) p =
           overlay (seg_offset s) (seg_data s) (lookup segs) p"
proof (cases "lookup segs p")
  case None
  then show ?thesis
  proof (cases "seg_offset s \<le> p \<and> p < seg_end s")
    case True
    then have "lookup (vec_insert i s segs) p = Some (seg_data s ! (p - seg_offset s))"
      using assms(2) by (auto simp: lookup_iff)
    with True None show ?thesis by (simp add: overlay_def seg_end_def)
  next
    case False
    with None have "lookup (vec_insert i s segs) p = None"
      by (auto simp: lookup_None_iff)
    with False None show ?thesis by (auto simp: overlay_def seg_end_def)
  qed
next
  case (Some x)
  with assms have "lookup (vec_insert i s segs) p = Some x"
    by (auto simp: lookup_iff)
  with Some show ?thesis by (simp add: overlay_def)
qed

section \<open>One turn of the loop\<close>

lemma overlay_skip:
  assumes "k \<le> length data" and "\<And>p. start \<le> p \<Longrightarrow> p < start + k \<Longrightarrow> m p \<noteq> None"
  shows "overlay (start + k) (drop k data) m = overlay start data m"
proof
  fix p
  show "overlay (start + k) (drop k data) m p = overlay start data m p"
  proof (cases "m p")
    case None
    with assms(2) have "\<not> (start \<le> p \<and> p < start + k)" by blast
    with None assms(1) show ?thesis by (auto simp: overlay_def nth_drop)
  qed (simp add: overlay_def)
qed

lemma overlay_store:
  assumes "k \<le> length data"
  shows "overlay (start + k) (drop k data) (overlay start (take k data) m) = overlay start data m"
proof
  fix p
  show "overlay (start + k) (drop k data) (overlay start (take k data) m) p = overlay start data m p"
    using assms by (cases "m p") (auto simp: overlay_def nth_drop split: option.splits)
qed

lemma segs_nth_le:
  assumes "segs_ok segs" and "j \<le> i" and "i < length segs"
  shows "seg_offset (segs ! j) \<le> seg_offset (segs ! i)" and "seg_end (segs ! j) \<le> seg_end (segs ! i)"
proof -
  have "j = i \<or> seg_end (segs ! j) \<le> seg_offset (segs ! i)"
    using assms by (cases "j = i") (auto simp: segs_ok_def sorted_wrt_iff_nth_less)
  then show "seg_offset (segs ! j) \<le> seg_offset (segs ! i)" "seg_end (segs ! j) \<le> seg_end (segs ! i)"
    by (auto simp: seg_end_def)
qed

lemma step_store:
  assumes ok: "segs_ok segs" and i: "i \<le> length segs" and u: "0 < u" "u \<le> length data"
    and before: "\<And>j. j < i \<Longrightarrow> seg_end (segs ! j) \<le> start"
    and after: "\<And>j. i \<le> j \<Longrightarrow> j < length segs \<Longrightarrow> start + u \<le> seg_offset (segs ! j)"
  defines "s \<equiv> \<lparr>seg_offset = start, seg_data = take u data\<rparr>"
  shows "segs_ok (vec_insert i s segs)"
    and "overlay (start + u) (drop u data) (lookup (vec_insert i s segs)) = overlay start data (lookup segs)"
    and "seg_end s = start + u"
proof -
  show e: "seg_end s = start + u" using u by (simp add: s_def seg_end_def)
  show ok': "segs_ok (vec_insert i s segs)"
  proof (rule segs_ok_insert [OF ok i])
    show "seg_data s \<noteq> []" using u by (auto simp: s_def)
    show "seg_end (segs ! j) \<le> seg_offset s" if "j < i" for j
      using before [OF that] by (simp add: s_def)
    show "seg_end s \<le> seg_offset (segs ! j)" if "i \<le> j" "j < length segs" for j
      using after [OF that] e by simp
  qed
  have "lookup (vec_insert i s segs) = overlay start (take u data) (lookup segs)"
    by (rule ext, subst lookup_insert [OF ok ok']) (simp add: s_def)
  then show "overlay (start + u) (drop u data) (lookup (vec_insert i s segs)) = overlay start data (lookup segs)"
    using overlay_store [OF u(2)] by simp
qed

text \<open>What a turn keeps: the target map, the segments already there and the end of the fragment.\<close>

definition turn_ok ::
  "nat \<Rightarrow> byte list \<Rightarrow> segment list \<Rightarrow> nat \<Rightarrow> nat \<Rightarrow> byte list \<Rightarrow> segment list \<Rightarrow> nat \<Rightarrow> bool" where
  "turn_ok start data segs largest start' data' segs' largest' \<longleftrightarrow>
     segs_ok segs' \<and> length data' < length data \<and>
     start \<le> start' \<and> start' + length data' = start + length data \<and>
     overlay start' data' (lookup segs') = overlay start data (lookup segs) \<and>
     set segs \<subseteq> set segs' \<and>
     (\<forall>s \<in> set segs' - set segs. start \<le> seg_offset s \<and> seg_end s \<le> largest') \<and>
     largest \<le> largest' \<and> largest' \<le> max largest (start + length data)"

lemma missing_geometry:
  assumes ok: "segs_ok segs" and m: "binary_search_by_key seg_offset start segs = Missing i"
  shows "i \<le> length segs"
    and "\<And>j. j < i \<Longrightarrow> seg_offset (segs ! j) < start"
    and "\<And>j. j < i \<Longrightarrow> seg_end (segs ! j) \<le> seg_end (segs ! (i - 1))"
    and "\<And>j. i \<le> j \<Longrightarrow> j < length segs \<Longrightarrow> seg_offset (segs ! i) \<le> seg_offset (segs ! j)"
    and "i < length segs \<Longrightarrow> start < seg_offset (segs ! i)"
  using binary_search_Missing [OF m] segs_nth_le [OF ok] by auto

lemma recv_step_Found:
  assumes ok: "segs_ok segs" and d: "data \<noteq> []"
    and f: "binary_search_by_key seg_offset start segs = Found i"
    and step: "recv_step start data segs largest = Some (start', data', segs', largest')"
  shows "turn_ok start data segs largest start' data' segs' largest'"
proof -
  let ?k = "min (length data) (length (seg_data (segs ! i)))"
  from binary_search_Found [OF f] have i: "i < length segs" and o: "seg_offset (segs ! i) = start"
    by auto
  with ok have "seg_data (segs ! i) \<noteq> []" by (auto simp: segs_ok_def)
  with d have k: "0 < ?k" by simp
  have "lookup segs p \<noteq> None" if "start \<le> p" "p < start + ?k" for p
    using that i o by (intro lookup_Some_in [of "segs ! i"]) (auto simp: seg_end_def)
  then have "overlay (start + ?k) (drop ?k data) (lookup segs) = overlay start data (lookup segs)"
    by (intro overlay_skip) auto
  moreover have "start' = start + ?k" "data' = drop ?k data" "segs' = segs" "largest' = largest"
    using step f by (auto simp: recv_step_def Let_def)
  ultimately show ?thesis using ok k by (auto simp: turn_ok_def)
qed

lemma recv_step_front:
  assumes ok: "segs_ok segs" and d: "data \<noteq> []"
    and m: "binary_search_by_key seg_offset start segs = Missing 0"
    and step: "recv_step start data segs largest = Some (start', data', segs', largest')"
  shows "turn_ok start data segs largest start' data' segs' largest'"
proof -
  let ?u = "(case segs of next # _ \<Rightarrow> min (seg_offset next - start) (length data) | [] \<Rightarrow> length data)"
  let ?s = "\<lparr>seg_offset = start, seg_data = take ?u data\<rparr>"
  note geo = missing_geometry [OF ok m]
  have u: "0 < ?u" "?u \<le> length data"
    using d geo(5) by (auto split: list.splits)
  have after: "start + ?u \<le> seg_offset (segs ! j)" if "j < length segs" for j
    using that geo(4) [of j] geo(5) by (auto split: list.splits)
  have uncovered:
    "(case segs of next # _ \<Rightarrow> if seg_offset next < start + length data
        then take (seg_offset next - start) data else data | [] \<Rightarrow> data) = take ?u data"
    using geo(5) by (auto split: list.splits simp: min_def)
  have eqs: "start' = start + ?u" "data' = drop ?u data" "segs' = vec_insert 0 ?s segs"
    "largest' = max largest (seg_end ?s)"
    using step m u by (auto simp: recv_step_def Let_def uncovered vec_insert_def)
  note st = step_store [OF ok _ u, of 0 start]
  show ?thesis
    unfolding turn_ok_def eqs
    using st [simplified] after u by (auto simp: seg_end_def)
qed

lemma recv_step_middle:
  assumes ok: "segs_ok segs" and d: "data \<noteq> []"
    and m: "binary_search_by_key seg_offset start segs = Missing i" and i: "0 < i"
    and step: "recv_step start data segs largest = Some (start', data', segs', largest')"
  shows "turn_ok start data segs largest start' data' segs' largest'"
proof -
  note geo = missing_geometry [OF ok m]
  define prev where "prev = segs ! (i - 1)"
  define k where "k = seg_end prev - start"
  have prev: "prev \<in> set segs" "seg_offset prev < start"
    using i geo(1,2) by (auto simp: prev_def)
  have long: "seg_end prev < start + length data"
    using step m i by (auto simp: recv_step_def Let_def prev_def split: if_splits)
  then have k: "k < length data"
    using d unfolding k_def length_greater_0_conv [symmetric] by linarith
  have cov: "(if start < seg_end prev then seg_end prev - start else 0) = k"
    by (simp add: k_def)
  have step_eq: "recv_step start data segs largest =
     (if i < length segs \<and> start + k = seg_offset (segs ! i)
      then Some (start + k, drop k data, segs, largest)
      else let u = (if i < length segs \<and> seg_offset (segs ! i) < start + k + length (drop k data)
                    then take (seg_offset (segs ! i) - (start + k)) (drop k data) else drop k data);
               s = \<lparr>seg_offset = start + k, seg_data = u\<rparr>
           in Some (start + k + length u, drop (length u) (drop k data), vec_insert i s segs,
                    max largest (seg_end s)))"
    unfolding recv_step_def m search.case prev_def [symmetric] Let_def cov using i long by simp
  have "lookup segs p \<noteq> None" if "start \<le> p" "p < start + k" for p
    using that prev by (intro lookup_Some_in [of prev]) (auto simp: k_def)
  then have skip: "overlay (start + k) (drop k data) (lookup segs) = overlay start data (lookup segs)"
    using k by (intro overlay_skip) auto
  show ?thesis
  proof (cases "i < length segs \<and> start + k = seg_offset (segs ! i)")
    case True
    then have eqs: "start' = start + k" "data' = drop k data" "segs' = segs" "largest' = largest"
      using step unfolding step_eq by auto
    from True geo(5) have "0 < k" by auto
    with skip k ok show ?thesis unfolding turn_ok_def eqs by auto
  next
    case False
    define u where "u = (if i < length segs then min (seg_offset (segs ! i) - (start + k)) (length data - k)
              else length data - k)"
    define s where "s = \<lparr>seg_offset = start + k, seg_data = take u (drop k data)\<rparr>"
    have gap: "i < length segs \<Longrightarrow> start + k < seg_offset (segs ! i)"
    proof -
      assume il: "i < length segs"
      have "seg_end prev \<le> seg_offset (segs ! i)"
        using ok i il by (auto simp: prev_def segs_ok_def sorted_wrt_iff_nth_less)
      with geo(5) [OF il] False il show ?thesis by (auto simp: k_def)
    qed
    have u: "0 < u" "u \<le> length (drop k data)" using k gap by (auto simp: u_def)
    have uncovered:
      "(if i < length segs \<and> seg_offset (segs ! i) < start + k + length (drop k data)
        then take (seg_offset (segs ! i) - (start + k)) (drop k data) else drop k data)
       = take u (drop k data)"
      using gap k by (auto simp: min_def u_def)
    have eqs: "start' = start + k + u" "data' = drop u (drop k data)"
      "segs' = vec_insert i s segs" "largest' = max largest (seg_end s)"
      using step False u(2) unfolding step_eq uncovered by (auto simp: Let_def s_def)
    have before: "seg_end (segs ! j) \<le> start + k" if "j < i" for j
      using geo(3) [OF that] by (auto simp: k_def prev_def)
    have after: "start + k + u \<le> seg_offset (segs ! j)" if "i \<le> j" "j < length segs" for j
      using geo(4) [OF that] gap that by (auto simp: u_def)
    note st = step_store [OF ok geo(1) u before after, folded s_def]
    have "t = s" if "t \<in> set segs' - set segs" for t
      using that geo(1) by (auto simp: eqs(3) set_vec_insert)
    moreover have "set segs \<subseteq> set segs'" using geo(1) by (auto simp: eqs(3) set_vec_insert)
    moreover have "seg_offset s = start + k" by (simp add: s_def)
    moreover have "overlay start' data' (lookup segs') = overlay start data (lookup segs)"
      unfolding eqs using st(2) skip by simp
    ultimately show ?thesis
      using st(1,3) u k unfolding turn_ok_def eqs(1,2,4) by (auto simp: eqs(3))
  qed
qed

lemma recv_step_Some:
  assumes "segs_ok segs" and "data \<noteq> []"
    and "recv_step start data segs largest = Some (start', data', segs', largest')"
  shows "turn_ok start data segs largest start' data' segs' largest'"
proof (cases "binary_search_by_key seg_offset start segs")
  case (Found i)
  with assms show ?thesis by (blast intro: recv_step_Found)
next
  case (Missing i)
  with assms show ?thesis by (cases "i = 0") (blast intro: recv_step_front recv_step_middle)+
qed

lemma recv_step_None:
  assumes ok: "segs_ok segs" and "recv_step start data segs largest = None"
    and "start \<le> p" "p < start + length data"
  shows "lookup segs p \<noteq> None"
proof -
  from assms(2) obtain i where m: "binary_search_by_key seg_offset start segs = Missing i"
    and i: "0 < i" and c: "start + length data \<le> seg_end (segs ! (i - 1))"
    by (auto simp: recv_step_def Let_def split: search.splits if_splits)
  note geo = missing_geometry [OF ok m]
  from i geo(1,2) have "segs ! (i - 1) \<in> set segs" "seg_offset (segs ! (i - 1)) < start" by auto
  with c assms(3,4) show ?thesis by (intro lookup_Some_in [of "segs ! (i - 1)"]) auto
qed

section \<open>The whole loop\<close>

text \<open>
  The loop returns, stores the bytes that were missing and nothing else, and moves the
  largest offset to the end of the fragment.
\<close>

lemma recv_loop_returns:
  assumes "segs_ok segs" and "\<forall>s \<in> set segs. seg_end s \<le> largest"
  shows "\<exists>segs' largest'.
     recv_loop start data segs largest = Some (segs', largest') \<and> segs_ok segs' \<and>
     lookup segs' = overlay start data (lookup segs) \<and>
     set segs \<subseteq> set segs' \<and>
     (\<forall>s \<in> set segs'. (s \<in> set segs \<or> start \<le> seg_offset s) \<and> seg_end s \<le> largest') \<and>
     largest' = (if data = [] then largest else max largest (start + length data))"
  using assms
proof (induction "length data" arbitrary: start data segs largest rule: less_induct)
  case less
  show ?case
  proof (cases "data = []")
    case True
    then have "overlay start data (lookup segs) = lookup segs"
      by (auto simp: overlay_def split: option.splits)
    with True less.prems show ?thesis by (subst recv_loop.simps) auto
  next
    case False
    show ?thesis
    proof (cases "recv_step start data segs largest")
      case None
      note cov = recv_step_None [OF less.prems(1) None]
      then have "overlay start data (lookup segs) = lookup segs"
        by (fastforce simp: overlay_def split: option.splits)
      moreover have "start + length data \<le> largest"
      proof -
        have "lookup segs (start + length data - 1) \<noteq> None"
          using False by (intro cov) (cases data; simp)+
        then obtain s where "s \<in> set segs" "start + length data - 1 < seg_end s"
          by (auto simp: lookup_None_iff not_less not_le)
        with less.prems(2) show ?thesis by fastforce
      qed
      ultimately show ?thesis
        using False None less.prems by (subst recv_loop.simps) auto
    next
      case (Some r)
      obtain start' data' segs' largest' where r: "r = (start', data', segs', largest')"
        by (cases r) auto
      with recv_step_Some [OF less.prems(1) False] Some
      have t: "turn_ok start data segs largest start' data' segs' largest'" by simp
      have ends: "\<forall>s \<in> set segs'. seg_end s \<le> largest'"
        using t less.prems(2) by (fastforce simp: turn_ok_def)
      from t have "length data' < length data" "segs_ok segs'" by (auto simp: turn_ok_def)
      from less.hyps [OF this ends] obtain segs'' largest'' where
        IH: "recv_loop start' data' segs' largest' = Some (segs'', largest'')" "segs_ok segs''"
          "lookup segs'' = overlay start' data' (lookup segs')" "set segs' \<subseteq> set segs''"
          "\<forall>s \<in> set segs''. (s \<in> set segs' \<or> start' \<le> seg_offset s) \<and> seg_end s \<le> largest''"
          "largest'' = (if data' = [] then largest' else max largest' (start' + length data'))"
        by blast
      have unroll: "recv_loop start data segs largest = recv_loop start' data' segs' largest'"
        using False Some r by (subst recv_loop.simps) simp
      have "start + length data \<le> largest''"
      proof (cases "data' = []")
        case True
        have "lookup segs'' (start + length data - 1) \<noteq> None"
          using t False IH(3) by (auto simp: turn_ok_def overlay_def split: option.splits)
        then obtain s where "s \<in> set segs''" "start + length data - 1 < seg_end s"
          by (auto simp: lookup_None_iff not_less not_le)
        with IH(5) show ?thesis by fastforce
      qed (use t IH(6) in \<open>auto simp: turn_ok_def\<close>)
      then have "largest'' = max largest (start + length data)"
        using t IH(6) by (auto simp: turn_ok_def max_def split: if_splits)
      with IH t unroll False show ?thesis
        by (intro exI [of _ segs''] exI [of _ largest'']) (force simp: turn_ok_def)
    qed
  qed
qed

section \<open>The operations on the buffer\<close>

lemma buf_ok_empty [simp]: "buf_ok empty_buf"
  by (simp add: buf_ok_def empty_buf_def)

lemma recv_refines:
  assumes "buf_ok b"
  shows "\<exists>fresh b'. recv offset data b = Some (fresh, b') \<and> buf_ok b' \<and> nread b' = nread b \<and>
     (\<forall>p. lookup (segments b') p =
            (if p < nread b then None else overlay offset data (lookup (segments b)) p)) \<and>
     largest_offset b' =
       (if data = [] then largest_offset b else max (largest_offset b) (offset + length data)) \<and>
     fresh = largest_offset b' - largest_offset b"
proof -
  define start where "start = max offset (nread b)"
  define k where "k = min (length data) (start - offset)"
  from assms have ok: "segs_ok (segments b)"
    and ends: "\<forall>s \<in> set (segments b). seg_end s \<le> largest_offset b"
    and pos: "\<forall>s \<in> set (segments b). nread b \<le> seg_offset s"
    and nl: "nread b \<le> largest_offset b"
    by (auto simp: buf_ok_def)
  from recv_loop_returns [OF ok ends, of start "drop k data"]
  obtain segs' largest' where L: "recv_loop start (drop k data) (segments b) (largest_offset b) = Some (segs', largest')"
    "segs_ok segs'" "lookup segs' = overlay start (drop k data) (lookup (segments b))"
    "\<forall>s \<in> set segs'. (s \<in> set (segments b) \<or> start \<le> seg_offset s) \<and> seg_end s \<le> largest'"
    "largest' = (if drop k data = [] then largest_offset b
                 else max (largest_offset b) (start + length (drop k data)))"
    by blast
  let ?b' = "b\<lparr>segments := segs', largest_offset := largest'\<rparr>"
  have r: "recv offset data b = Some (largest' - largest_offset b, ?b')"
    by (simp add: recv_def Let_def start_def [symmetric] k_def [symmetric] L(1))
  have lo: "largest' = (if data = [] then largest_offset b else max (largest_offset b) (offset + length data))"
    using nl unfolding L(5) k_def start_def by (cases data) (simp_all, linarith)
  have ok': "buf_ok ?b'"
    using L(2,4) pos nl by (auto simp: buf_ok_def L(5) start_def)
  have "lookup segs' p = (if p < nread b then None else overlay offset data (lookup (segments b)) p)" for p
  proof (cases "p < nread b")
    case True
    with pos have "lookup (segments b) p = None" by (fastforce simp: lookup_None_iff)
    with True show ?thesis by (simp add: L(3) overlay_def start_def)
  next
    case False
    then have "start \<le> p \<and> p < start + length (drop k data) \<longleftrightarrow> offset \<le> p \<and> p < offset + length data"
      unfolding k_def start_def length_drop by linarith
    moreover have "drop k data ! (p - start) = data ! (p - offset)"
      if "start \<le> p" "p < start + length (drop k data)"
    proof -
      from that have "k + (p - start) = p - offset" unfolding k_def start_def length_drop by linarith
      with that show ?thesis by (simp add: k_def)
    qed
    ultimately show ?thesis using False by (auto simp: L(3) overlay_def split: option.splits)
  qed
  then have "\<forall>p. lookup (segments ?b') p =
      (if p < nread b then None else overlay offset data (lookup (segments b)) p)" by simp
  with r ok' lo show ?thesis
    by (intro exI [of _ "largest' - largest_offset b"] exI [of _ ?b']) (simp only: conj_assoc, simp)
qed

text \<open>The contiguous run that a reader can take.\<close>

lemma continuous_end_ge: "pos \<le> continuous_end pos segs"
  by (induction pos segs rule: continuous_end.induct) auto

lemma continuous_end_covered:
  assumes "segs_ok segs" and "\<forall>s \<in> set segs. pos \<le> seg_offset s"
    and "pos \<le> p" and "p < continuous_end pos segs"
  shows "lookup segs p \<noteq> None"
  using assms
proof (induction pos segs rule: continuous_end.induct)
  case (2 pos s ss)
  then show ?case
    by (cases "p < seg_end s") (auto simp: segs_ok_Cons seg_end_def split: if_splits)
qed simp

lemma continuous_end_gap:
  assumes "segs_ok segs" and "\<forall>s \<in> set segs. pos \<le> seg_offset s"
  shows "lookup segs (continuous_end pos segs) = None"
  using assms
proof (induction pos segs rule: continuous_end.induct)
  case (2 pos s ss)
  show ?case
  proof (cases "seg_offset s = pos")
    case True
    with continuous_end_ge [of "pos + length (seg_data s)" ss] 2 show ?thesis
      by (auto simp: segs_ok_Cons seg_end_def)
  next
    case False
    with "2.prems" have "pos < seg_offset t" if "t \<in> set (s # ss)" for t
      using that by (fastforce simp: segs_ok_Cons seg_end_def)
    then have "lookup (s # ss) pos = None" unfolding lookup_None_iff by (meson leD)
    with False show ?thesis by simp
  qed
qed simp

text \<open>One turn of the read loop: \<open>n\<close> bytes leave the first segment.\<close>

lemma read_turn:
  fixes s :: segment and ss :: "segment list" and n :: nat
  defines "left \<equiv> (if drop n (seg_data s) \<noteq> []
     then s\<lparr>seg_data := drop n (seg_data s), seg_offset := seg_offset s + n\<rparr> # ss else ss)"
  assumes ok: "segs_ok (s # ss)" and n: "n \<le> length (seg_data s)"
  shows "segs_ok left"
    and "t \<in> set left \<Longrightarrow> seg_offset s + n \<le> seg_offset t"
    and "t \<in> set left \<Longrightarrow> \<exists>u \<in> set (s # ss). seg_end t = seg_end u"
    and "continuous_end (seg_offset s + n) left = continuous_end (seg_offset s) (s # ss)"
    and "seg_offset s + n \<le> p \<Longrightarrow> lookup left p = lookup (s # ss) p"
    and "i < n \<Longrightarrow> lookup (s # ss) (seg_offset s + i) = Some (seg_data s ! i)"
  using ok n by (auto simp: left_def segs_ok_Cons seg_end_def add.assoc split: if_splits)

lemma read_loop_spec:
  assumes "segs_ok segs" and "\<forall>s \<in> set segs. pos \<le> seg_offset s"
    and "read_loop pos segs room = (out, pos', segs')"
  shows "segs_ok segs' \<and> pos' = pos + length out \<and>
     length out = min room (continuous_end pos segs - pos) \<and>
     (\<forall>i < length out. lookup segs (pos + i) = Some (out ! i)) \<and>
     (\<forall>p \<ge> pos'. lookup segs' p = lookup segs p) \<and>
     (\<forall>s \<in> set segs'. pos' \<le> seg_offset s \<and> (\<exists>t \<in> set segs. seg_end s = seg_end t))"
  using assms
proof (induction pos segs room arbitrary: out pos' segs' rule: read_loop.induct)
  case (1 pos room)
  then show ?case by auto
next
  case (2 pos s ss room)
  show ?case
  proof (cases "seg_offset s \<noteq> pos \<or> room = 0")
    case True
    with "2.prems" show ?thesis by auto
  next
    case False
    then have pos: "pos = seg_offset s" by simp
    define n where "n = min room (length (seg_data s))"
    define segs where "segs = (if drop n (seg_data s) \<noteq> []
       then s\<lparr>seg_data := drop n (seg_data s), seg_offset := seg_offset s + n\<rparr> # ss else ss)"
    obtain out1 where rec: "read_loop (pos + n) segs (room - n) = (out1, pos', segs')"
      and out: "out = take n (seg_data s) @ out1"
      using "2.prems"(3) False unfolding read_loop.simps Let_def n_def [symmetric] segs_def [symmetric]
      by (auto split: prod.splits)
    have n: "n \<le> length (seg_data s)" "n \<le> room" by (simp_all add: n_def)
    note turn = read_turn [OF "2.prems"(1) n(1), folded segs_def]
    have IH: "segs_ok segs' \<and> pos' = pos + n + length out1 \<and>
     length out1 = min (room - n) (continuous_end (pos + n) segs - (pos + n)) \<and>
     (\<forall>i < length out1. lookup segs (pos + n + i) = Some (out1 ! i)) \<and>
     (\<forall>p \<ge> pos'. lookup segs' p = lookup segs p) \<and>
     (\<forall>s \<in> set segs'. pos' \<le> seg_offset s \<and> (\<exists>t \<in> set segs. seg_end s = seg_end t))"
      using turn(1,2) rec
      by (intro "2.IH" [OF False n_def refl segs_def]) (auto simp: pos)
    have len: "length out = n + length out1" using n by (simp add: out)
    have ge: "pos + n \<le> continuous_end (pos + n) segs" by (rule continuous_end_ge)
    have run: "lookup (s # ss) (pos + i) = Some (out ! i)" if "i < length out" for i
    proof (cases "i < n")
      case True
      with turn(6) n show ?thesis by (simp add: out nth_append pos)
    next
      case False
      with that len have "i - n < length out1" by linarith
      with IH have "lookup segs (pos + n + (i - n)) = Some (out1 ! (i - n))" by blast
      with turn(5) [of "pos + i"] False n show ?thesis by (simp add: out nth_append pos)
    qed
    have "length out = min room (continuous_end pos (s # ss) - pos)"
      using IH ge len n turn(4) unfolding pos by linarith
    moreover have "lookup segs' p = lookup (s # ss) p" if "pos' \<le> p" for p
      using that IH turn(5) [of p] by (simp add: pos)
    moreover have "\<exists>u \<in> set (s # ss). seg_end t = seg_end u" if "t \<in> set segs'" for t
      using that IH turn(3) by metis
    moreover have "pos' = pos + length out" using IH len by linarith
    ultimately show ?thesis using IH run by blast
  qed
qed

lemma try_read_spec:
  assumes "buf_ok b" and "try_read room b = (out, b')"
  shows "buf_ok b' \<and> nread b' = nread b + length out \<and> length out = min room (available b) \<and>
     largest_offset b' = largest_offset b \<and>
     (\<forall>i < length out. lookup (segments b) (nread b + i) = Some (out ! i)) \<and>
     (\<forall>p. lookup (segments b') p = (if p < nread b' then None else lookup (segments b) p))"
proof -
  obtain pos' segs' where loop: "read_loop (nread b) (segments b) room = (out, pos', segs')"
    and b': "b' = b\<lparr>nread := pos', segments := segs'\<rparr>"
    using assms(2) by (auto simp: try_read_def split: prod.splits)
  from assms(1) have ok: "segs_ok (segments b)" "\<forall>s \<in> set (segments b). nread b \<le> seg_offset s"
    "\<forall>s \<in> set (segments b). seg_end s \<le> largest_offset b" "nread b \<le> largest_offset b"
    by (auto simp: buf_ok_def)
  note r = read_loop_spec [OF ok(1,2) loop]
  have "pos' \<le> largest_offset b"
  proof (cases "length out")
    case 0
    with r ok(4) show ?thesis by simp
  next
    case (Suc m)
    with r have "lookup (segments b) (nread b + m) = Some (out ! m)" by (metis lessI)
    then have "lookup (segments b) (nread b + m) \<noteq> None" by simp
    then obtain s where "s \<in> set (segments b)" "nread b + m < seg_end s"
      by (auto simp: lookup_None_iff not_less not_le)
    with ok(3) r Suc show ?thesis by fastforce
  qed
  moreover have "lookup segs' p = None" if "p < pos'" for p
    using that r by (fastforce simp: lookup_None_iff)
  moreover have "seg_end s \<le> largest_offset b" if "s \<in> set segs'" for s
    using that r ok(3) by metis
  ultimately show ?thesis
    using r by (auto simp: b' buf_ok_def available_def)
qed

lemma available_run:
  assumes "buf_ok b"
  shows "i < available b \<Longrightarrow> lookup (segments b) (nread b + i) \<noteq> None"
    and "lookup (segments b) (nread b + available b) = None"
proof -
  from assms have ok: "segs_ok (segments b)" "\<forall>s \<in> set (segments b). nread b \<le> seg_offset s"
    by (auto simp: buf_ok_def)
  have ge: "nread b \<le> continuous_end (nread b) (segments b)" by (rule continuous_end_ge)
  show "lookup (segments b) (nread b + i) \<noteq> None" if "i < available b"
    using that ge by (intro continuous_end_covered [OF ok]) (auto simp: available_def)
  show "lookup (segments b) (nread b + available b) = None"
    using continuous_end_gap [OF ok] ge by (simp add: available_def)
qed

lemma available_iff_readable:
  assumes "buf_ok b"
  shows "is_readable b \<longleftrightarrow> 0 < available b"
proof (cases "segments b")
  case (Cons s ss)
  with assms continuous_end_ge [of "nread b + length (seg_data s)" ss] show ?thesis
    by (auto simp: is_readable_def available_def buf_ok_def segs_ok_Cons
        simp flip: length_greater_0_conv)
qed (simp add: is_readable_def available_def)

lemma try_next_spec:
  assumes "buf_ok b"
  shows "try_next b = (None, b) \<and> available b = 0 \<or>
    (\<exists>out b'. try_next b = (Some out, b') \<and> out \<noteq> [] \<and> try_read (length out) b = (out, b'))"
proof (cases "is_readable b")
  case True
  then obtain s ss where segs: "segments b = s # ss" "seg_offset s = nread b"
    by (cases "segments b") (auto simp: is_readable_def)
  have ne: "seg_data s \<noteq> []" using assms segs by (simp add: buf_ok_def segs_ok_Cons)
  have "read_loop (nread b + length (seg_data s)) ss 0 = ([], nread b + length (seg_data s), ss)"
    by (cases ss) auto
  with True segs ne show ?thesis
    by (auto simp: try_next_def try_read_def Let_def)
next
  case False
  with available_iff_readable [OF assms] show ?thesis by (simp add: try_next_def)
qed

section \<open>Reassembly\<close>

text \<open>
  What a stream needs of its receive buffer, as an interface: fragments are stored where they
  are missing, reads take what is contiguous at the read position. The client is any schedule
  of arrivals and reads.
\<close>

datatype event = Arrive nat "byte list" | Take nat

fun run_events ::
  "(nat \<Rightarrow> byte list \<Rightarrow> 'b \<Rightarrow> (nat \<times> 'b) option) \<Rightarrow> (nat \<Rightarrow> 'b \<Rightarrow> byte list \<times> 'b) \<Rightarrow>
   event list \<Rightarrow> 'b \<Rightarrow> (byte list \<times> 'b) option" where
  "run_events put get [] b = Some ([], b)"
| "run_events put get (Arrive offset data # es) b =
     (case put offset data b of None \<Rightarrow> None | Some (_, b') \<Rightarrow> run_events put get es b')"
| "run_events put get (Take room # es) b =
     (let (out, b') = get room b
      in map_option (\<lambda>(out', b''). (out @ out', b'')) (run_events put get es b'))"

text \<open>The schedules that carry only fragments of the stream \<open>W\<close>.\<close>

definition carries :: "byte list \<Rightarrow> event list \<Rightarrow> bool" where
  "carries W es \<longleftrightarrow> (\<forall>offset data. Arrive offset data \<in> set es \<longrightarrow> slice_of W offset data)"

definition arrived :: "event list \<Rightarrow> nat \<Rightarrow> bool" where
  "arrived es p \<longleftrightarrow> (\<exists>offset data. Arrive offset data \<in> set es \<and> offset \<le> p \<and> p < offset + length data)"

lemma carries_simps [simp]:
  "carries W []"
  "carries W (Arrive offset data # es) \<longleftrightarrow> slice_of W offset data \<and> carries W es"
  "carries W (Take room # es) \<longleftrightarrow> carries W es"
  by (auto simp: carries_def)

lemma arrived_simps [simp]:
  "\<not> arrived [] p"
  "arrived (Arrive offset data # es) p \<longleftrightarrow> offset \<le> p \<and> p < offset + length data \<or> arrived es p"
  "arrived (Take room # es) p \<longleftrightarrow> arrived es p"
  by (auto simp: arrived_def)

lemma prepend_out:
  "map_option (\<lambda>(out, b). (xs @ out, b)) (map_option (\<lambda>(out, b). (ys @ out, b)) r) =
     map_option (\<lambda>(out, b). (xs @ ys @ out, b)) r"
  by (cases r) auto

lemma run_events_append:
  "run_events put get (es @ es') b =
     (case run_events put get es b of
        None \<Rightarrow> None
      | Some (out, b1) \<Rightarrow> map_option (\<lambda>(out', b2). (out @ out', b2)) (run_events put get es' b1))"
proof (induction es arbitrary: b)
  case (Cons e es)
  then show ?case by (cases e) (auto simp: prepend_out split: option.splits prod.splits)
qed (simp split: prod.splits add: option.map_ident_strong)

locale reassembly =
  fixes put :: "nat \<Rightarrow> byte list \<Rightarrow> 'b \<Rightarrow> (nat \<times> 'b) option"
    and get :: "nat \<Rightarrow> 'b \<Rightarrow> byte list \<times> 'b"
    and start :: 'b
    and taken :: "'b \<Rightarrow> nat"
    and held :: "'b \<Rightarrow> nat \<Rightarrow> byte option"
    and invar :: "'b \<Rightarrow> bool"
  assumes start_ok: "invar start" "taken start = 0" "held start p = None"
    and put_ok: "invar b \<Longrightarrow> \<exists>fresh b'. put offset data b = Some (fresh, b') \<and> invar b' \<and>
      taken b' = taken b \<and>
      (\<forall>p. held b' p = (if p < taken b then None else overlay offset data (held b) p))"
    and get_ok: "invar b \<Longrightarrow> get room b = (out, b') \<Longrightarrow> invar b' \<and>
      taken b' = taken b + length out \<and> length out \<le> room \<and>
      (\<forall>i < length out. held b (taken b + i) = Some (out ! i)) \<and>
      (\<forall>p. held b' p = (if p < taken b' then None else held b p))"
    and get_all: "invar b \<Longrightarrow> get room b = (out, b') \<Longrightarrow>
      (\<forall>i < k. held b (taken b + i) \<noteq> None) \<Longrightarrow> min room k \<le> length out"
begin

definition agrees :: "byte list \<Rightarrow> 'b \<Rightarrow> bool" where
  "agrees W b \<longleftrightarrow> invar b \<and> taken b \<le> length W \<and>
     (\<forall>p x. held b p = Some x \<longrightarrow> p < length W \<and> x = W ! p)"

definition has :: "'b \<Rightarrow> nat \<Rightarrow> bool" where
  "has b p \<longleftrightarrow> p < taken b \<or> held b p \<noteq> None"

lemma put_agrees:
  assumes "agrees W b" and "slice_of W offset data" and "put offset data b = Some (fresh, b')"
  shows "agrees W b'" and "taken b' = taken b"
    and "has b' p \<longleftrightarrow> has b p \<or> offset \<le> p \<and> p < offset + length data"
proof -
  have b': "invar b'" "taken b' = taken b"
    "\<And>p. held b' p = (if p < taken b then None else overlay offset data (held b) p)"
    using put_ok [of b offset data] assms(1,3) by (auto simp: agrees_def)
  show "taken b' = taken b" by (rule b')
  show "has b' p \<longleftrightarrow> has b p \<or> offset \<le> p \<and> p < offset + length data"
    by (auto simp: has_def b' overlay_def split: option.splits)
  have "p < length W \<and> x = W ! p" if h: "held b' p = Some x" for p x
  proof (cases "held b p")
    case (Some y)
    with h assms(1) show ?thesis by (auto simp: b' overlay_def agrees_def split: if_splits)
  next
    case None
    with h have p: "offset \<le> p" "p < offset + length data" "x = data ! (p - offset)"
      by (auto simp: b' overlay_def split: if_splits)
    with slice_of_nth [OF assms(2), of "p - offset"] assms(2) show ?thesis
      by (auto simp: slice_of_def)
  qed
  with assms(1) show "agrees W b'" by (auto simp: agrees_def b')
qed

lemma get_agrees:
  assumes "agrees W b" and "get room b = (out, b')"
  shows "agrees W b'" and "slice_of W (taken b) out"
    and "taken b' = taken b + length out" and "has b p \<Longrightarrow> has b' p"
proof -
  have b': "invar b'" "taken b' = taken b + length out"
    "\<And>i. i < length out \<Longrightarrow> held b (taken b + i) = Some (out ! i)"
    "\<And>p. held b' p = (if p < taken b' then None else held b p)"
    using get_ok [OF _ assms(2)] assms(1) by (auto simp: agrees_def)
  show "taken b' = taken b + length out" by (rule b')
  show "has b p \<Longrightarrow> has b' p" by (auto simp: has_def b')
  have in_W: "taken b + i < length W \<and> out ! i = W ! (taken b + i)" if "i < length out" for i
    using b'(3) [OF that] assms(1) by (auto simp: agrees_def)
  have le: "taken b + length out \<le> length W"
    using in_W [of "length out - 1"] assms(1) by (cases "length out") (auto simp: agrees_def)
  have "out = take (length out) (drop (taken b) W)"
    using le in_W by (intro nth_equalityI) auto
  with le show "slice_of W (taken b) out" by (simp add: slice_of_def)
  show "agrees W b'"
    using assms(1) le by (auto simp: agrees_def b' split: if_splits)
qed

lemma run_agrees:
  assumes "agrees W b" and "carries W es"
  shows "\<exists>out b'. run_events put get es b = Some (out, b') \<and> agrees W b' \<and>
     taken b' = taken b + length out \<and> slice_of W (taken b) out \<and>
     (\<forall>p. has b p \<or> arrived es p \<longrightarrow> has b' p)"
  using assms
proof (induction es arbitrary: b)
  case Nil
  then show ?case by (auto simp: agrees_def)
next
  case (Cons e es)
  show ?case
  proof (cases e)
    case (Arrive offset data)
    have "invar b" using Cons.prems(1) by (simp add: agrees_def)
    from put_ok [OF this] obtain fresh b1 where put: "put offset data b = Some (fresh, b1)" by blast
    note b1 = put_agrees [OF Cons.prems(1) _ put]
    with Cons.prems Arrive Cons.IH [of b1] show ?thesis by (fastforce simp: put)
  next
    case (Take room)
    obtain out1 b1 where get: "get room b = (out1, b1)" by (cases "get room b")
    note b1 = get_agrees [OF Cons.prems(1) get]
    from Cons.IH [OF b1(1)] Cons.prems(2) Take obtain out2 b2 where
      r: "run_events put get es b1 = Some (out2, b2)" "agrees W b2"
      "taken b2 = taken b1 + length out2" "slice_of W (taken b1) out2"
      "\<forall>p. has b1 p \<or> arrived es p \<longrightarrow> has b2 p" by auto
    have "slice_of W (taken b) (out1 @ out2)"
      using b1(2,3) r(4) by (simp add: slice_of_append)
    with r b1 Take show ?thesis by (auto simp: get)
  qed
qed

lemma start_agrees: "agrees W start" "\<not> has start p"
  by (auto simp: agrees_def has_def start_ok)

lemma run_prefix:
  assumes "carries W es"
  shows "\<exists>out b. run_events put get es start = Some (out, b) \<and> prefix out W"
  using run_agrees [OF start_agrees(1) assms] by (auto simp: start_ok slice_of_prefix)

lemma run_complete:
  assumes es: "carries W es" and all: "\<forall>p < n. arrived es p" and room: "n \<le> room"
  shows "\<exists>out b. run_events put get (es @ [Take room]) start = Some (out, b) \<and>
     prefix out W \<and> n \<le> length out"
proof -
  from run_agrees [OF start_agrees(1) es] obtain out b where
    r: "run_events put get es start = Some (out, b)" "agrees W b" "taken b = length out"
      "slice_of W 0 out" "\<forall>p. arrived es p \<longrightarrow> has b p"
    by (auto simp: start_ok)
  obtain out1 b1 where get: "get room b = (out1, b1)" by (cases "get room b")
  note b1 = get_agrees [OF r(2) get]
  have "\<forall>i < n - taken b. held b (taken b + i) \<noteq> None"
    using r(5) all by (metis add.commute has_def less_diff_conv not_add_less1)
  with r(2) have "min room (n - taken b) \<le> length out1"
    by (intro get_all [OF _ get]) (auto simp: agrees_def)
  with room r(3) have "n \<le> length (out @ out1)" by simp
  moreover have "prefix (out @ out1) W"
    using slice_of_append [of W 0 out out1] r(3,4) b1(2) by (simp add: slice_of_prefix)
  ultimately show ?thesis by (simp add: run_events_append r(1) get)
qed

end

interpretation rb: reassembly recv try_read empty_buf nread "\<lambda>b. lookup (segments b)" buf_ok
proof
  fix b :: recv_buf and room k :: nat and out b'
  assume b: "buf_ok b" and r: "try_read room b = (out, b')"
  show "buf_ok b' \<and> nread b' = nread b + length out \<and> length out \<le> room \<and>
      (\<forall>i < length out. lookup (segments b) (nread b + i) = Some (out ! i)) \<and>
      (\<forall>p. lookup (segments b') p = (if p < nread b' then None else lookup (segments b) p))"
    using try_read_spec [OF b r] by simp
  assume k: "\<forall>i < k. lookup (segments b) (nread b + i) \<noteq> None"
  have "k \<le> available b"
    using k available_run(2) [OF b] by (meson not_le)
  with try_read_spec [OF b r] show "min room k \<le> length out" by simp
next
  fix b :: recv_buf and offset data
  assume "buf_ok b"
  from recv_refines [OF this, of offset data] show
    "\<exists>fresh b'. recv offset data b = Some (fresh, b') \<and> buf_ok b' \<and> nread b' = nread b \<and>
      (\<forall>p. lookup (segments b') p =
         (if p < nread b then None else overlay offset data (lookup (segments b)) p))" by blast
qed (simp_all add: empty_buf_def buf_ok_def)

section \<open>Properties\<close>

text \<open>
  C11. On every well-formed receive buffer, \<open>recv\<close> returns (its loop terminates) whatever the
  fragment: duplicates, overlaps and fragments already read included. The buffer stays well
  formed, the read position does not move, every byte already held is kept, every missing byte
  of the fragment at or after the read position is stored at its offset and nothing else
  changes; the returned number is the growth of the largest offset, the amount charged to flow
  control.
\<close>

theorem recv_stores_missing_bytes:
  assumes "buf_ok b"
  shows "\<exists>fresh b'. recv offset data b = Some (fresh, b') \<and> buf_ok b' \<and> nread b' = nread b \<and>
     (\<forall>p. lookup (segments b') p =
            (if p < nread b then None else overlay offset data (lookup (segments b)) p)) \<and>
     largest_offset b' =
       (if data = [] then largest_offset b else max (largest_offset b) (offset + length data)) \<and>
     fresh = largest_offset b' - largest_offset b"
  by (rule recv_refines [OF assms])

definition sample_buf :: recv_buf where
  "sample_buf = \<lparr>nread = 1, largest_offset = 9,
     segments = [\<lparr>seg_offset = 2, seg_data = [12, 13]\<rparr>, \<lparr>seg_offset = 7, seg_data = [17, 18]\<rparr>]\<rparr>"

theorem recv_stores_missing_bytes_witness:
  "buf_ok sample_buf \<and> (\<exists>fresh b'. recv 0 [10, 11, 12, 13, 14, 15] sample_buf = Some (fresh, b') \<and>
     buf_ok b' \<and> lookup (segments b') 0 = None \<and> lookup (segments b') 1 = Some 11 \<and>
     lookup (segments b') 5 = Some 15 \<and> lookup (segments b') 6 = None \<and> fresh = 0)"
proof -
  have ok: "buf_ok sample_buf" by (simp add: sample_buf_def buf_ok_def segs_ok_def seg_end_def)
  from recv_stores_missing_bytes [OF ok, of 0 "[10, 11, 12, 13, 14, 15]"] ok show ?thesis
    by (auto simp: sample_buf_def overlay_def seg_end_def)
qed

text \<open>
  C16. Whatever fragments of a byte stream arrive, in whatever order, repeated, overlapping and
  interleaved with reads of any size, the run completes and the concatenation of everything
  read is a prefix of the stream.
\<close>

theorem reassembly_reads_prefix:
  assumes "carries W es"
  shows "\<exists>out b. run_events recv try_read es empty_buf = Some (out, b) \<and> prefix out W"
  by (rule rb.run_prefix [OF assms])

theorem reassembly_reads_prefix_witness:
  "carries [1, 2, 3, 4] [Arrive 2 [3, 4], Take 5, Arrive 0 [1, 2, 3], Take 3] \<and>
   (\<exists>out b. run_events recv try_read [Arrive 2 [3, 4], Take 5, Arrive 0 [1, 2, 3], Take 3] empty_buf
      = Some (out, b) \<and> prefix out [1, 2, 3, 4])"
proof -
  have c: "carries [1, 2, 3, 4] [Arrive 2 [3, 4], Take 5, Arrive 0 [1, 2, 3], Take 3]"
    by (simp add: slice_of_def)
  with reassembly_reads_prefix [OF c] show ?thesis by blast
qed

text \<open>
  C17. Once the fragments that have arrived cover the first \<open>n\<close> bytes of the stream, in any order
  and after any earlier reads, one more read with room for \<open>n\<close> bytes brings the total read to at
  least \<open>n\<close> bytes of the stream: nothing is lost in the buffer.
\<close>

theorem reassembly_reads_everything:
  assumes "carries W es" and "\<forall>p < n. arrived es p" and "n \<le> room"
  shows "\<exists>out b. run_events recv try_read (es @ [Take room]) empty_buf = Some (out, b) \<and>
     prefix out W \<and> n \<le> length out"
  by (rule rb.run_complete [OF assms])

theorem reassembly_reads_everything_witness:
  "\<exists>out b. run_events recv try_read [Arrive 2 [3, 4], Take 5, Arrive 0 [1, 2, 3], Take 4] empty_buf
     = Some (out, b) \<and> out = [1, 2, 3, 4]"
proof -
  have "carries [1, 2, 3, 4] [Arrive 2 [3, 4], Take 5, Arrive 0 [1, 2, 3]]"
    by (simp add: slice_of_def)
  moreover have "\<forall>p < 4. arrived [Arrive 2 [3, 4], Take 5, Arrive 0 [1, 2, 3]] p" by auto
  ultimately obtain out b where
    "run_events recv try_read [Arrive 2 [3, 4], Take 5, Arrive 0 [1, 2, 3], Take 4] empty_buf = Some (out, b)"
    "prefix out [1, 2, 3, 4]" "4 \<le> length out"
    using reassembly_reads_everything [of "[1, 2, 3, 4]" "[Arrive 2 [3, 4], Take 5, Arrive 0 [1, 2, 3]]" 4 4]
    by auto
  moreover from this(2,3) have "out = [1, 2, 3, 4]"
    by (auto simp: prefix_def Suc_le_length_iff eval_nat_numeral)
  ultimately show ?thesis by blast
qed

text \<open>
  \<open>try_read\<close> on a well-formed buffer hands out exactly the bytes held at the read position, as
  many as the room and the contiguous data (\<open>available\<close>) allow, moves the read position by that
  many, and keeps every byte after it; \<open>available\<close> is maximal, the next byte is missing.
\<close>

theorem try_read_delivers_contiguous:
  assumes "buf_ok b" and "try_read room b = (out, b')"
  shows "buf_ok b' \<and> nread b' = nread b + length out \<and> length out = min room (available b) \<and>
     lookup (segments b) (nread b + available b) = None \<and>
     (\<forall>i < length out. lookup (segments b) (nread b + i) = Some (out ! i)) \<and>
     (\<forall>p. lookup (segments b') p = (if p < nread b' then None else lookup (segments b) p))"
  using try_read_spec [OF assms] available_run(2) [OF assms(1)] by blast

theorem try_read_delivers_contiguous_witness:
  "\<exists>out b'. try_read 3 \<lparr>nread = 0, largest_offset = 4, segments =
       [\<lparr>seg_offset = 0, seg_data = [1, 2]\<rparr>, \<lparr>seg_offset = 2, seg_data = [3, 4]\<rparr>]\<rparr> = (out, b') \<and>
     buf_ok b' \<and> out = [1, 2, 3] \<and> nread b' = 3"
proof -
  let ?b = "\<lparr>nread = 0, largest_offset = 4, segments =
       [\<lparr>seg_offset = 0, seg_data = [1, 2]\<rparr>, \<lparr>seg_offset = 2, seg_data = [3, 4]\<rparr>]\<rparr> :: recv_buf"
  have ok: "buf_ok ?b" by (simp add: buf_ok_def segs_ok_def seg_end_def)
  obtain out b' where r: "try_read 3 ?b = (out, b')" by (cases "try_read 3 ?b")
  then have "out = [1, 2, 3]" by (simp add: try_read_def Let_def eval_nat_numeral)
  with try_read_delivers_contiguous [OF ok r] r show ?thesis by simp
qed

end
