(* ===== verification/Send_Buf.thy ===== *)
theory Send_Buf
  imports Prelude
begin

text \<open>
  The send buffer of a stream, \<open>qrecovery/src/send/sndbuf.rs\<close>. \<open>BufMap\<close> colours every byte that
  was written as pending, in flight, lost or received, in a run-length encoding: a deque of
  64-bit words, two bits of colour and 62 bits of offset each. \<open>SendBuf\<close> holds the bytes that
  are not acknowledged yet and uses the map to choose what to send.

  The abstraction \<open>color_at\<close> reads the deque as a function from offsets to colours. The lemmas
  show that every operation, with its in-place splitting, merging and draining of entries,
  changes exactly the colours it should; for \<open>SendBuf\<close>, that the bytes handed to the packet
  writer are the bytes that were written at those offsets.

  A failing \<open>debug_assert!\<close> is the value \<open>None\<close>.
\<close>

section \<open>Packed states\<close>

datatype color = Pending | Flighting | Recved | Lost

type_synonym state = "64 word"

fun color_prefix :: "color \<Rightarrow> state" where
  "color_prefix Pending = 0"
| "color_prefix Flighting = push_bit 62 1"
| "color_prefix Lost = push_bit 62 2"
| "color_prefix Recved = push_bit 62 3"

definition state_SUFFIX :: state where
  "state_SUFFIX = drop_bit 2 (- 1)"

definition state_encode :: "nat \<Rightarrow> color \<Rightarrow> state" where
  "state_encode pos c = color_prefix c OR word_of_nat pos"

definition state_offset :: "state \<Rightarrow> nat" where
  "state_offset s = unat (s AND state_SUFFIX)"

definition state_color :: "state \<Rightarrow> color" where
  "state_color s =
     (let tag = drop_bit 62 s
      in if tag = 0 then Pending else if tag = 1 then Flighting else if tag = 2 then Lost else Recved)"

definition set_color :: "state \<Rightarrow> color \<Rightarrow> state" where
  "set_color s c = (s AND state_SUFFIX) OR color_prefix c"

definition state_decode :: "state \<Rightarrow> nat \<times> color" where
  "state_decode s = (state_offset s, state_color s)"

section \<open>The colour map\<close>

record buf_map =
  states :: "state list"
  bm_size :: nat

definition empty_map :: buf_map where
  "empty_map = \<lparr>states = [], bm_size = 0\<rparr>"

definition extend_to :: "nat \<Rightarrow> buf_map \<Rightarrow> (nat \<times> buf_map) option" where
  "extend_to pos m =
     (if \<not> pos < 2 ^ 62 \<or> pos < bm_size m then None
      else if bm_size m < pos then
        (let ss = (if states m \<noteq> [] \<and> state_color (last (states m)) = Pending then states m
                   else states m @ [state_encode (bm_size m) Pending])
         in Some (pos, m\<lparr>states := ss, bm_size := pos\<rparr>))
      else Some (bm_size m, m))"

definition bm_sent :: "buf_map \<Rightarrow> nat" where
  "bm_sent m =
     (if states m \<noteq> [] \<and> state_color (last (states m)) = Pending then state_offset (last (states m))
      else bm_size m)"

text \<open>
  \<open>same_before\<close> and \<open>same_after\<close> step with wrapping arithmetic; each step of \<open>same_after\<close> reaches
  another entry of the deque, so the number of entries bounds its turns.
\<close>

fun same_before :: "state list \<Rightarrow> nat \<Rightarrow> color \<Rightarrow> nat" where
  "same_before ss 0 c = 0"
| "same_before ss (Suc pre) c =
     (if pre < length ss \<and> state_color (ss ! pre) = c then same_before ss pre c else Suc pre)"

fun same_after_fuel :: "nat \<Rightarrow> state list \<Rightarrow> nat \<Rightarrow> color \<Rightarrow> nat" where
  "same_after_fuel 0 ss index c = index"
| "same_after_fuel (Suc fuel) ss index c =
     (let next = usize_succ index
      in if next < length ss \<and> state_color (ss ! next) = c then same_after_fuel fuel ss next c
         else index)"

definition same_after :: "state list \<Rightarrow> nat \<Rightarrow> color \<Rightarrow> nat" where
  "same_after ss = same_after_fuel (length ss) ss"

definition merge_after :: "state list \<Rightarrow> nat \<Rightarrow> color \<Rightarrow> state list" where
  "merge_after ss index c =
     (let same = same_after ss index c
      in if index < same then vec_drain (index + 1) (same + 1) ss else ss)"

subsection \<open>Choosing what to send\<close>

fun pick_find :: "nat \<Rightarrow> nat \<Rightarrow> nat \<Rightarrow> state list \<Rightarrow> unit poll \<Rightarrow> nat option \<times> unit poll" where
  "pick_find flow_limit window idx [] availability = (None, availability)"
| "pick_find flow_limit window idx (s # ss) availability =
     (if window \<le> state_offset s then pick_find flow_limit window (idx + 1) ss (Ready ())
      else case state_color s of
             Pending \<Rightarrow>
               if flow_limit \<noteq> 0 then (Some idx, availability)
               else pick_find flow_limit window (idx + 1) ss (Ready ())
           | Lost \<Rightarrow> (Some idx, availability)
           | _ \<Rightarrow> pick_find flow_limit window (idx + 1) ss availability)"

definition pick ::
  "(nat \<Rightarrow> nat option) \<Rightarrow> nat \<Rightarrow> nat \<Rightarrow> buf_map \<Rightarrow> (unit poll + ((nat \<times> nat) \<times> bool)) \<times> buf_map" where
  "pick predicate flow_limit window m =
     (case pick_find flow_limit window 0 (states m) poll.Pending of
        (None, availability) \<Rightarrow> (Inl availability, m)
      | (Some index, availability) \<Rightarrow>
          (let state = states m ! index
           in case predicate (state_offset state) of
                None \<Rightarrow> (Inl (Ready ()), m)
              | Some available \<Rightarrow>
                  (let allowance = (if state_color state = Lost then available else min available flow_limit);
                       ss = (states m)[index := set_color state Flighting];
                       (start, c) = state_decode state;
                       limit = min (case vec_get ss (index + 1) of Some s \<Rightarrow> state_offset s
                                    | None \<Rightarrow> bm_size m) window;
                       i = same_before ss index Flighting
                   in if start + allowance < limit then
                        (let limit = start + allowance;
                             ss = (if i < index then ss[i + 1 := state_encode limit c]
                                   else vec_insert (i + 1) (state_encode limit c) ss);
                             i = i + 1;
                             ss = (if i < index then vec_drain (i + 1) (index + 1) ss else ss)
                         in (Inr ((start, limit), c = Pending), m\<lparr>states := ss\<rparr>))
                      else
                        (let ss = merge_after ss index Flighting;
                             ss = (if i < index then vec_drain (i + 1) (index + 1) ss else ss)
                         in (Inr ((start, limit), c = Pending), m\<lparr>states := ss\<rparr>)))))"

subsection \<open>Acknowledged and lost ranges\<close>

text \<open>
  The end of both \<open>ack_rcvd\<close> and \<open>may_loss\<close>: the entries from \<open>drain_start\<close> up to \<open>drain_end\<close>
  give way to at most two new ones.
\<close>

definition put_entry :: "nat \<Rightarrow> nat \<Rightarrow> state \<Rightarrow> state list \<Rightarrow> state list" where
  "put_entry drain_start drain_end s ss =
     (if drain_start < drain_end then ss[drain_start := s] else vec_insert drain_start s ss)"

definition drain_tail ::
  "nat \<Rightarrow> nat \<Rightarrow> state option \<Rightarrow> state option \<Rightarrow> state list \<Rightarrow> state list" where
  "drain_tail drain_start drain_end at_start at_end ss =
     (let (ss, drain_start) = (case at_start of None \<Rightarrow> (ss, drain_start)
            | Some s \<Rightarrow> (put_entry drain_start drain_end s ss, drain_start + 1));
          (ss, drain_start) = (case at_end of None \<Rightarrow> (ss, drain_start)
            | Some s \<Rightarrow> (put_entry drain_start drain_end s ss, drain_start + 1))
      in if drain_start < drain_end then vec_drain drain_start drain_end ss else ss)"

text \<open>The loop of \<open>ack_rcvd\<close>: the drain end, whether an entry is needed at the end, its colour.\<close>

function ack_loop :: "nat \<Rightarrow> nat \<Rightarrow> state list \<Rightarrow> nat \<Rightarrow> color \<Rightarrow> (nat \<times> bool \<times> color) option" where
  "ack_loop sz range_end ss drain_end pre_color =
     (if drain_end < length ss then
        (let s = ss ! drain_end
         in if state_offset s < range_end then
              if state_color s = Pending then None
              else ack_loop sz range_end ss (drain_end + 1) (state_color s)
            else if state_offset s = range_end then
              Some (usize_succ (same_after ss (usize_pred drain_end) Recved), False, pre_color)
            else Some (drain_end, pre_color \<noteq> Recved, pre_color))
      else if sz < range_end then None
      else Some (drain_end, range_end < sz \<and> pre_color \<noteq> Recved, pre_color))"
  by pat_completeness auto
termination
  by (relation "measure (\<lambda>(sz, range_end, ss, drain_end, pre_color). length ss - drain_end)") auto

definition ack_rcvd :: "nat \<Rightarrow> nat \<Rightarrow> buf_map \<Rightarrow> buf_map option" where
  "ack_rcvd range_start range_end m =
     (let front =
            (case binary_search_by_key state_offset range_start (states m) of
               Found idx \<Rightarrow>
                 (let s = states m ! idx; pre_color = state_color s;
                      ss = (states m)[idx := set_color s Recved]
                  in if pre_color = Pending then None
                     else Some (ss, same_before ss idx Recved + 1, False, idx + 1, pre_color))
             | Missing idx \<Rightarrow>
                 if idx = 0 then Some (states m, 0, False, 0, Recved)
                 else
                   (let pre_color = state_color (states m ! (idx - 1))
                    in if pre_color = Pending then None
                       else Some (states m, idx, pre_color \<noteq> Recved, idx, pre_color)))
      in case front of
           None \<Rightarrow> None
         | Some (ss, drain_start, need_insert_at_start, drain_end, pre_color) \<Rightarrow>
             (case ack_loop (bm_size m) range_end ss drain_end pre_color of
                None \<Rightarrow> None
              | Some (drain_end, need_insert_at_end, pre_color) \<Rightarrow>
                  Some (m\<lparr>states := drain_tail drain_start drain_end
                    (if need_insert_at_start then Some (state_encode range_start Recved) else None)
                    (if need_insert_at_end then Some (state_encode range_end pre_color) else None) ss\<rparr>)))"

fun shift_states :: "state list \<Rightarrow> state list" where
  "shift_states [] = []"
| "shift_states (s # ss) = (if state_color s = Recved then shift_states ss else s # ss)"

definition shift :: "buf_map \<Rightarrow> nat \<times> buf_map" where
  "shift m =
     (case shift_states (states m) of
        [] \<Rightarrow> (bm_size m, m\<lparr>states := []\<rparr>)
      | s # ss \<Rightarrow> (state_offset s, m\<lparr>states := s # ss\<rparr>))"

text \<open>
  The helper of \<open>may_loss\<close> and its loop, which call each other: the loop colours entries as lost
  until the range ends, and hands what follows a received entry back to the helper.
\<close>

function (sequential) may_lost_from :: "nat \<Rightarrow> nat \<Rightarrow> nat \<Rightarrow> state list \<Rightarrow> state list option"
  and lost_loop ::
    "nat \<Rightarrow> nat \<Rightarrow> nat \<Rightarrow> color \<Rightarrow> state list \<Rightarrow> (state list \<times> nat \<times> bool \<times> color) option" where
  "may_lost_from sz limit idx_start ss =
     (case lost_loop sz limit idx_start Recved ss of
        None \<Rightarrow> None
      | Some (ss, idx, need_insert_at_end, pre_color) \<Rightarrow>
          (let (ss, idx_start) =
                 (if need_insert_at_end then
                    (if idx_start + 1 < idx then ss[idx_start + 1 := state_encode limit pre_color]
                     else vec_insert (idx_start + 1) (state_encode limit pre_color) ss,
                     idx_start + 1)
                  else (ss, idx_start))
           in Some (if idx_start + 1 < idx then vec_drain (idx_start + 1) idx ss else ss)))"
| "lost_loop sz limit idx pre_color ss =
     (if idx < length ss then
        (let s = ss ! idx
         in if state_offset s < limit then
              if state_color s = Pending then None
              else if state_color s = Recved then
                map_option (\<lambda>ss'. (ss', idx, False, Recved)) (may_lost_from sz limit (idx + 1) ss)
              else lost_loop sz limit (idx + 1) (state_color s) (ss[idx := set_color s Lost])
            else if state_offset s = limit then
              Some (ss, usize_succ (same_after ss (usize_pred idx) Lost), False, pre_color)
            else Some (ss, idx, pre_color = Flighting, pre_color))
      else if sz < limit then None
      else Some (ss, idx, limit < sz \<and> pre_color = Flighting, pre_color))"
  by pat_completeness auto
termination
  by (relation "measure (case_sum (\<lambda>(sz, limit, idx, ss). 2 * (length ss - idx) + 1)
        (\<lambda>(sz, limit, idx, pre_color, ss). 2 * (length ss - idx)))") auto

text \<open>The loop of \<open>may_loss\<close> itself: the states, the drain end, the need of an end entry, its colour.\<close>

function loss_loop ::
  "nat \<Rightarrow> nat \<Rightarrow> state list \<Rightarrow> nat \<Rightarrow> color \<Rightarrow> (state list \<times> nat \<times> bool \<times> color) option" where
  "loss_loop sz range_end ss drain_end pre_color =
     (if drain_end < length ss then
        (let s = ss ! drain_end
         in if state_offset s < range_end then
              if state_color s = Pending then None
              else if state_color s = Recved then
                map_option (\<lambda>ss'. (ss', drain_end, False, pre_color))
                  (may_lost_from sz range_end (drain_end + 1) ss)
              else loss_loop sz range_end ss (drain_end + 1) (state_color s)
            else if state_offset s = range_end then
              Some (ss, usize_succ (same_after ss (usize_pred drain_end) Lost), False, pre_color)
            else Some (ss, drain_end, pre_color = Flighting, pre_color))
      else if sz < range_end then None
      else Some (ss, drain_end, range_end < sz \<and> pre_color = Flighting, pre_color))"
  by pat_completeness auto
termination
  by (relation "measure (\<lambda>(sz, range_end, ss, drain_end, pre_color). length ss - drain_end)") auto

definition may_loss :: "nat \<Rightarrow> nat \<Rightarrow> buf_map \<Rightarrow> buf_map option" where
  "may_loss range_start range_end m =
     (let from_idx = (\<lambda>idx. map_option (\<lambda>ss. m\<lparr>states := ss\<rparr>)
            (may_lost_from (bm_size m) range_end idx (states m)));
          rest = (\<lambda>ss drain_start need_insert_at_start drain_end pre_color.
            case loss_loop (bm_size m) range_end ss drain_end pre_color of
              None \<Rightarrow> None
            | Some (ss, drain_end, need_insert_at_end, pre_color) \<Rightarrow>
                Some (m\<lparr>states := drain_tail drain_start drain_end
                  (if need_insert_at_start then Some (state_encode range_start Lost) else None)
                  (if need_insert_at_end then Some (state_encode range_end pre_color) else None) ss\<rparr>))
      in case binary_search_by_key state_offset range_start (states m) of
           Found idx \<Rightarrow>
             (let s = states m ! idx
              in case state_color s of
                   Pending \<Rightarrow> None
                 | Recved \<Rightarrow> from_idx (idx + 1)
                 | Flighting \<Rightarrow>
                     (let ss = (states m)[idx := set_color s Lost]
                      in rest ss (same_before ss idx Lost + 1) False (idx + 1) Flighting)
                 | Lost \<Rightarrow> rest (states m) (idx + 1) False (idx + 1) Lost)
         | Missing idx \<Rightarrow>
             if idx = 0 then from_idx 0
             else
               (let pre_color = state_color (states m ! (idx - 1))
                in if pre_color = Pending then None
                   else if pre_color = Recved then from_idx idx
                   else rest (states m) idx (pre_color = Flighting) idx pre_color))"

definition mark_flighting_lost :: "buf_map \<Rightarrow> buf_map" where
  "mark_flighting_lost m =
     m\<lparr>states := map (\<lambda>s. if state_color s = Flighting then set_color s Lost else s) (states m)\<rparr>"

section \<open>The send buffer\<close>

record send_buf =
  sb_offset :: nat
  sb_data :: "byte list list"
  sb_max_data :: nat
  sb_state :: buf_map

definition with_capacity :: "nat \<Rightarrow> send_buf" where
  "with_capacity capacity = \<lparr>sb_offset = 0, sb_data = [], sb_max_data = capacity, sb_state = empty_map\<rparr>"

definition written :: "send_buf \<Rightarrow> nat" where
  "written b = sb_offset b + sum_list (map length (sb_data b))"

definition sb_write :: "byte list \<Rightarrow> send_buf \<Rightarrow> send_buf option" where
  "sb_write data b =
     (if data = [] then Some b
      else map_option (\<lambda>(_, m). b\<lparr>sb_state := m, sb_data := sb_data b @ [data]\<rparr>)
             (extend_to (min (written b + length data) (sb_max_data b)) (sb_state b)))"

definition sb_extend :: "nat \<Rightarrow> send_buf \<Rightarrow> send_buf option" where
  "sb_extend max_data b =
     (if max_data < sb_max_data b then None
      else map_option (\<lambda>(_, m). b\<lparr>sb_max_data := max_data, sb_state := m\<rparr>)
             (extend_to (min (written b) max_data) (sb_state b)))"

definition sb_is_empty :: "send_buf \<Rightarrow> bool" where
  "sb_is_empty b \<longleftrightarrow> sb_data b = []"

definition sb_sent :: "send_buf \<Rightarrow> nat" where
  "sb_sent b = bm_sent (sb_state b)"

definition remaining_mut :: "send_buf \<Rightarrow> nat" where
  "remaining_mut b = sb_max_data b - written b"

definition has_remaining_mut :: "send_buf \<Rightarrow> bool" where
  "has_remaining_mut b \<longleftrightarrow> written b < sb_max_data b"

text \<open>The iterator of \<open>pick_up\<close>: the chunks that meet the range, each cut to it.\<close>

fun slices :: "nat \<Rightarrow> nat \<Rightarrow> nat \<Rightarrow> byte list list \<Rightarrow> byte list list" where
  "slices offset lo hi [] = []"
| "slices offset lo hi (d # ds) =
     (let slice_end = offset + length d
      in if lo < slice_end \<and> offset < hi then
           (if lo \<le> offset \<and> slice_end \<le> hi then d
            else drop (lo - offset) (take (min hi slice_end - offset) d)) # slices slice_end lo hi ds
         else slices slice_end lo hi ds)"

definition pick_up ::
  "(nat \<Rightarrow> nat option) \<Rightarrow> nat \<Rightarrow> send_buf \<Rightarrow>
   (unit poll + ((nat \<times> nat) \<times> bool \<times> byte list list)) \<times> send_buf" where
  "pick_up predicate flow_limit b =
     (case pick predicate flow_limit (sb_max_data b) (sb_state b) of
        (Inl availability, m) \<Rightarrow> (Inl availability, b\<lparr>sb_state := m\<rparr>)
      | (Inr ((lo, hi), is_fresh), m) \<Rightarrow>
          (Inr ((lo, hi), is_fresh, slices (sb_offset b) lo hi (sb_data b)), b\<lparr>sb_state := m\<rparr>))"

fun drain_data :: "nat \<Rightarrow> byte list list \<Rightarrow> byte list list" where
  "drain_data n [] = []"
| "drain_data n (d # ds) =
     (if n = 0 then d # ds
      else if length d \<le> n then drain_data (n - length d) ds
      else drop n d # ds)"

definition on_data_acked :: "nat \<Rightarrow> nat \<Rightarrow> send_buf \<Rightarrow> send_buf option" where
  "on_data_acked lo hi b =
     (case ack_rcvd lo hi (sb_state b) of
        None \<Rightarrow> None
      | Some m \<Rightarrow>
          (let (min_unrecved_pos, m) = shift m
           in Some (if sb_offset b < min_unrecved_pos
                    then b\<lparr>sb_offset := min_unrecved_pos,
                           sb_data := drain_data (min_unrecved_pos - sb_offset b) (sb_data b), sb_state := m\<rparr>
                    else b\<lparr>sb_state := m\<rparr>)))"

definition may_loss_data :: "nat \<Rightarrow> nat \<Rightarrow> send_buf \<Rightarrow> send_buf option" where
  "may_loss_data lo hi b = map_option (\<lambda>m. b\<lparr>sb_state := m\<rparr>) (may_loss lo hi (sb_state b))"

definition multipath_handshake :: "send_buf \<Rightarrow> send_buf" where
  "multipath_handshake b = b\<lparr>sb_state := mark_flighting_lost (sb_state b)\<rparr>"

definition is_all_rcvd :: "send_buf \<Rightarrow> bool" where
  "is_all_rcvd b \<longleftrightarrow> sb_data b = []"

text \<open>The loops are unfolded one turn at a time.\<close>

declare ack_loop.simps [simp del] loss_loop.simps [simp del]
  lost_loop.simps [simp del] may_lost_from.simps [simp del]

section \<open>Laws of the packed states\<close>

lemma state_SUFFIX_mask: "state_SUFFIX = mask 62"
  by (simp add: state_SUFFIX_def)

lemma bit_color_prefix: "bit (color_prefix c) n \<Longrightarrow> 62 \<le> n"
  by (cases c) (simp_all only: color_prefix.simps bit_push_bit_iff bit_0_eq bot_apply bot_bool_def simp_thms)

lemma drop_color_prefix:
  "drop_bit 62 (color_prefix c) = (case c of Pending \<Rightarrow> 0 | Flighting \<Rightarrow> 1 | Lost \<Rightarrow> 2 | Recved \<Rightarrow> 3)"
  by (cases c) simp_all

lemma bit_word_of_nat_62: "pos < 2 ^ 62 \<Longrightarrow> bit (word_of_nat pos :: state) n \<Longrightarrow> n < 62"
  by (metis bit_take_bit_iff bit_of_nat_iff take_bit_nat_eq_self)

lemma packed_color:
  assumes "\<And>n. bit s n \<Longrightarrow> n < 62"
  shows "state_color (color_prefix c OR s) = c"
proof -
  have "drop_bit 62 s = 0" using assms by (intro bit_eqI) (auto simp: bit_simps)
  then have "drop_bit 62 (color_prefix c OR s) = drop_bit 62 (color_prefix c)" by simp
  then show ?thesis by (cases c) (simp_all add: state_color_def drop_color_prefix)
qed

lemma packed_offset:
  assumes "\<And>n. bit s n \<Longrightarrow> n < 62"
  shows "state_offset (color_prefix c OR s) = unat s"
proof -
  have "(color_prefix c OR s) AND mask 62 = s"
    using assms bit_color_prefix by (intro bit_eqI) (auto simp: bit_simps dest: leD)
  then show ?thesis by (simp add: state_offset_def state_SUFFIX_mask)
qed

lemma state_encode_simps [simp]:
  "pos < 2 ^ 62 \<Longrightarrow> state_color (state_encode pos c) = c"
  "pos < 2 ^ 62 \<Longrightarrow> state_offset (state_encode pos c) = pos"
  using bit_word_of_nat_62
  by (auto simp: state_encode_def packed_color packed_offset unat_of_nat)

lemma set_color_simps [simp]:
  "state_color (set_color s c) = c" "state_offset (set_color s c) = state_offset s"
proof -
  have "bit (s AND state_SUFFIX) n \<Longrightarrow> n < 62" for n
    by (auto simp: state_SUFFIX_mask bit_simps)
  then show "state_color (set_color s c) = c" "state_offset (set_color s c) = state_offset s"
    unfolding set_color_def or.commute [of _ "color_prefix c"]
    by (simp_all add: packed_color packed_offset) (simp add: state_offset_def)
qed

lemma state_offset_less: "state_offset s < 2 ^ 62"
  using take_bit_nat_less_exp [of 62 "unat s"]
  by (simp add: state_offset_def state_SUFFIX_mask unsigned_take_bit_eq flip: take_bit_eq_mask)

section \<open>The map as a function from offsets to colours\<close>

fun seg_color :: "color \<Rightarrow> state list \<Rightarrow> nat \<Rightarrow> color" where
  "seg_color c [] p = c"
| "seg_color c (s # ss) p = (if p < state_offset s then c else seg_color (state_color s) ss p)"

definition color_at :: "buf_map \<Rightarrow> nat \<Rightarrow> color" where
  "color_at m = seg_color Recved (states m)"

definition end_color :: "color \<Rightarrow> state list \<Rightarrow> color" where
  "end_color c ss = (if ss = [] then c else state_color (last ss))"

definition states_sorted :: "state list \<Rightarrow> bool" where
  "states_sorted ss \<longleftrightarrow> sorted_wrt (\<lambda>s t. state_offset s < state_offset t) ss"

lemma seg_color_before:
  "\<forall>s \<in> set ss. p < state_offset s \<Longrightarrow> seg_color c ss p = c"
  by (cases ss) auto

lemma seg_color_append_before:
  "\<forall>s \<in> set ys. p < state_offset s \<Longrightarrow> seg_color c (xs @ ys) p = seg_color c xs p"
  by (induction xs arbitrary: c) (auto simp: seg_color_before)

lemma end_color_simps [simp]:
  "end_color c [] = c" "end_color c (xs @ [s]) = state_color s"
  "end_color c (s # xs) = end_color (state_color s) xs"
  "end_color c (xs @ ys) = end_color (end_color c xs) ys"
  by (auto simp: end_color_def)

lemma seg_color_append_after:
  "\<forall>s \<in> set xs. state_offset s \<le> p \<Longrightarrow> seg_color c (xs @ ys) p = seg_color (end_color c xs) ys p"
  by (induction xs arbitrary: c) auto

lemma seg_color_after: "\<forall>s \<in> set xs. state_offset s \<le> p \<Longrightarrow> seg_color c xs p = end_color c xs"
  using seg_color_append_after [of xs p c "[]"] by simp

lemma seg_color_start: "ss \<noteq> [] \<Longrightarrow> state_offset (hd ss) \<le> p \<Longrightarrow> seg_color c ss p = seg_color c' ss p"
  by (cases ss) auto

text \<open>Entries of the incoming colour can be dropped.\<close>

lemma seg_color_skip:
  "\<forall>s \<in> set xs. state_color s = c \<Longrightarrow> \<forall>s \<in> set xs. \<forall>t \<in> set ys. state_offset s < state_offset t \<Longrightarrow> seg_color c (xs @ ys) p = seg_color c ys p"
  by (induction xs) (auto simp: seg_color_before intro!: seg_color_before [symmetric])

text \<open>Replacing the part of the map between \<open>a\<close> and \<open>b\<close> by one colour.\<close>

lemma splice_color:
  assumes L: "\<forall>s \<in> set L. state_offset s \<le> a" "end_color Recved L = c"
      "\<And>p. p < a \<Longrightarrow> seg_color Recved L p = seg_color Recved ss p"
    and E: "\<forall>s \<in> set E. state_offset s = b" and R: "\<forall>s \<in> set R. b \<le> state_offset s"
      "\<And>p. b \<le> p \<Longrightarrow> p < n \<Longrightarrow> seg_color (end_color c E) R p = seg_color Recved ss p"
    and ab: "a \<le> b" and p: "p < n"
  shows "seg_color Recved (L @ E @ R) p = (if a \<le> p \<and> p < b then c else seg_color Recved ss p)"
proof -
  consider "p < a" | "a \<le> p" "p < b" | "b \<le> p" by linarith
  then show ?thesis
  proof cases
    case 1
    with E R(1) ab have "\<forall>s \<in> set (E @ R). p < state_offset s" by fastforce
    with 1 L(3) show ?thesis by (simp add: seg_color_append_before)
  next
    case 2
    with E R(1) have "\<forall>s \<in> set (E @ R). p < state_offset s" by fastforce
    moreover from 2 L(1) have "\<forall>s \<in> set L. state_offset s \<le> p" by fastforce
    ultimately show ?thesis using 2 L(2) by (simp add: seg_color_append_before seg_color_after)
  next
    case 3
    with L(1) E ab have "\<forall>s \<in> set (L @ E). state_offset s \<le> p" by fastforce
    then have "seg_color Recved ((L @ E) @ R) p = seg_color (end_color Recved (L @ E)) R p"
      by (rule seg_color_append_after)
    with 3 R(2) p L(2) show ?thesis by simp
  qed
qed

lemma put_entry_split:
  "(length A < de \<longleftrightarrow> M \<noteq> []) \<Longrightarrow> put_entry (length A) de s (A @ M @ B) = A @ s # tl M @ B"
  by (cases M) (auto simp: put_entry_def vec_insert_def list_update_append)

lemma drain_tail_split:
  assumes "de = length A + length M"
  shows "drain_tail (length A) de x y (A @ M @ B) =
     A @ (case x of None \<Rightarrow> [] | Some s \<Rightarrow> [s]) @ (case y of None \<Rightarrow> [] | Some s \<Rightarrow> [s]) @ B"
proof -
  have drain: "(if length C < de then vec_drain (length C) de (C @ N @ B) else C @ N @ B) = C @ B"
    if "N = [] \<and> de \<le> length C \<or> de = length C + length N" for C N
    using that by (auto simp: vec_drain_def)
  have put1: "put_entry (length A) de s (A @ M @ B) = A @ s # tl M @ B" for s
    using assms by (intro put_entry_split) auto
  have put2: "put_entry (Suc (length A)) de t (A @ s # tl M @ B) = A @ s # t # tl (tl M) @ B" for s t
    using put_entry_split [of "A @ [s]" de "tl M" t B] assms by (cases M) auto
  have e0: "(if length A < de then vec_drain (length A) de (A @ M @ B) else A @ M @ B) = A @ B"
    using drain [of M A] assms by blast
  have e1: "(if Suc (length A) < de then vec_drain (Suc (length A)) de (A @ s # tl M @ B)
      else A @ s # tl M @ B) = A @ s # B" for s
    using drain [of "tl M" "A @ [s]"] assms by (cases M) auto
  have e2: "(if Suc (Suc (length A)) < de then vec_drain (Suc (Suc (length A))) de (A @ s # t # tl (tl M) @ B)
      else A @ s # t # tl (tl M) @ B) = A @ s # t # B" for s t
    using drain [of "tl (tl M)" "A @ [s, t]"] assms by (cases M; cases "tl M") auto
  show ?thesis
    using e1 [of "the x"] e1 [of "the y"] e2 [of "the x" "the y"]
    by (cases x; cases y) (auto simp: drain_tail_def put1 put2 e0 split: if_splits)
qed

lemma drain_tail_eq:
  assumes "ds \<le> de" "de \<le> length ss"
  shows "drain_tail ds de x y ss =
     take ds ss @ (case x of None \<Rightarrow> [] | Some s \<Rightarrow> [s]) @ (case y of None \<Rightarrow> [] | Some s \<Rightarrow> [s]) @ drop de ss"
proof -
  have "ss = take ds ss @ take (de - ds) (drop ds ss) @ drop de ss"
    using assms by (metis append_take_drop_id drop_drop le_add_diff_inverse2)
  with drain_tail_split [of de "take ds ss" "take (de - ds) (drop ds ss)" x y "drop de ss"] assms
  show ?thesis by simp
qed

lemma seg_color_const: "\<forall>s \<in> set ss. state_color s = c \<Longrightarrow> seg_color c ss p = c"
  by (induction ss) auto

lemma seg_color_drop_run:
  assumes "states_sorted (L @ run)" and "\<forall>s \<in> set run. state_color s = end_color c L"
  shows "seg_color c (L @ run) p = seg_color c L p"
proof (cases "\<forall>s \<in> set L. state_offset s \<le> p")
  case True
  then show ?thesis
    using assms(2) by (simp add: seg_color_append_after seg_color_after seg_color_const)
next
  case False
  with assms(1) have "\<forall>s \<in> set run. p < state_offset s"
    by (fastforce simp: states_sorted_def sorted_wrt_append)
  then show ?thesis by (rule seg_color_append_before)
qed

lemma same_before_le: "same_before ss i c \<le> i"
  by (induction ss i c rule: same_before.induct) (auto intro: le_SucI)

lemma same_before_color:
  "same_before ss i c \<le> j \<Longrightarrow> j < i \<Longrightarrow> i \<le> length ss \<Longrightarrow> state_color (ss ! j) = c"
proof (induction ss i c rule: same_before.induct)
  case (2 ss pre c)
  then show ?case by (cases "j = pre") (auto split: if_splits)
qed simp

lemma same_after_fuel_range:
  assumes "i < length ss" and "length ss < 2 ^ 64"
  shows "i \<le> same_after_fuel n ss i c \<and> same_after_fuel n ss i c < length ss \<and>
     (\<forall>j. i < j \<longrightarrow> j \<le> same_after_fuel n ss i c \<longrightarrow> state_color (ss ! j) = c)"
  using assms
proof (induction n arbitrary: i)
  case (Suc n)
  have next_i: "usize_succ i = Suc i" using Suc.prems by (simp add: usize_succ_def)
  show ?case
  proof (cases "Suc i < length ss \<and> state_color (ss ! Suc i) = c")
    case True
    with Suc.IH [of "Suc i"] Suc.prems show ?thesis
      by (simp add: next_i) (metis Suc_leD Suc_lessI)
  next
    case False
    with Suc.prems show ?thesis by (auto simp: next_i)
  qed
qed simp

text \<open>The entries that \<open>same_after\<close> skips, counted from the one after \<open>index\<close>.\<close>

lemma same_after_run:
  assumes "k \<le> length ss" and "length ss < 2 ^ 64"
  obtains Y X where "drop k ss = Y @ X" "\<forall>s \<in> set Y. state_color s = c"
    "usize_succ (same_after ss (usize_pred k) c) = k + length Y"
proof -
  define e where "e = usize_succ (same_after ss (usize_pred k) c)"
  have "k \<le> e \<and> e \<le> length ss \<and> (\<forall>j. k \<le> j \<longrightarrow> j < e \<longrightarrow> state_color (ss ! j) = c)"
  proof (cases k)
    case 0
    show ?thesis
    proof (cases "0 < length ss \<and> state_color (ss ! 0) = c")
      case True
      then obtain n where n: "length ss = Suc n" by (cases "length ss") auto
      have "same_after ss (usize_pred k) c = same_after_fuel n ss 0 c"
        using True by (simp add: same_after_def n 0 usize_succ_pred)
      with same_after_fuel_range [of 0 ss n c] True assms show ?thesis
        by (simp add: e_def usize_succ_def 0) (metis le_zero_eq less_Suc_eq_le not_gr_zero)
    next
      case False
      then have "same_after ss (usize_pred k) c = usize_pred k"
        by (cases "length ss") (auto simp: same_after_def 0 usize_succ_pred)
      then show ?thesis by (simp add: e_def 0 usize_succ_pred)
    qed
  next
    case (Suc i)
    have "usize_pred k = i" using assms Suc by (simp add: usize_pred_Suc)
    with same_after_fuel_range [of i ss "length ss" c] assms Suc show ?thesis
      by (simp add: e_def same_after_def usize_succ_def)
  qed
  moreover from this have "drop k ss = take (e - k) (drop k ss) @ drop e ss"
    by (metis append_take_drop_id drop_drop le_add_diff_inverse2)
  ultimately show ?thesis
    by (intro that [of "take (e - k) (drop k ss)" "drop e ss"])
      (auto simp: e_def [symmetric] in_set_conv_nth)
qed

section \<open>Well-formed maps\<close>

definition pending_last :: "nat \<Rightarrow> state list \<Rightarrow> bool" where
  "pending_last n ss \<longleftrightarrow>
     (\<forall>s \<in> set (butlast ss). state_color s \<noteq> Pending) \<and>
     (ss \<noteq> [] \<longrightarrow> state_color (last ss) = Pending \<longrightarrow> state_offset (last ss) < n)"

definition states_ok :: "nat \<Rightarrow> state list \<Rightarrow> bool" where
  "states_ok n ss \<longleftrightarrow> states_sorted ss \<and> (\<forall>s \<in> set ss. state_offset s \<le> n) \<and> pending_last n ss"

text \<open>
  An entry at the very end of the map only comes from a frame with just the FIN bit; until then
  the map is open and more data can be appended.
\<close>

definition states_open :: "nat \<Rightarrow> state list \<Rightarrow> bool" where
  "states_open n ss \<longleftrightarrow> (\<forall>s \<in> set ss. state_offset s < n)"

definition map_ok :: "buf_map \<Rightarrow> bool" where
  "map_ok m \<longleftrightarrow> bm_size m < 2 ^ 62 \<and> states_ok (bm_size m) (states m)"

definition open_map :: "buf_map \<Rightarrow> bool" where
  "open_map m \<longleftrightarrow> states_open (bm_size m) (states m)"

text \<open>
  The ranges that packets carry: a part of what was sent, or the empty range at the end of a
  stream whose data was all sent (a frame with only the FIN bit).
\<close>

definition range_ok :: "buf_map \<Rightarrow> nat \<Rightarrow> nat \<Rightarrow> bool" where
  "range_ok m a b \<longleftrightarrow> a < b \<and> b \<le> bm_sent m \<or> a = b \<and> b = bm_size m \<and> bm_sent m = bm_size m"

lemma states_sorted_simps [simp]:
  "states_sorted []"
  "states_sorted (s # ss) \<longleftrightarrow> (\<forall>t \<in> set ss. state_offset s < state_offset t) \<and> states_sorted ss"
  "states_sorted (xs @ ys) \<longleftrightarrow> states_sorted xs \<and> states_sorted ys \<and>
     (\<forall>s \<in> set xs. \<forall>t \<in> set ys. state_offset s < state_offset t)"
  by (auto simp: states_sorted_def sorted_wrt_append)

lemma states_sorted_hd: "states_sorted ss \<Longrightarrow> s \<in> set ss \<Longrightarrow> state_offset (hd ss) \<le> state_offset s"
  by (cases ss) auto

lemma states_sorted_nth:
  "states_sorted ss \<Longrightarrow> i < j \<Longrightarrow> j < length ss \<Longrightarrow> state_offset (ss ! i) < state_offset (ss ! j)"
  by (simp add: states_sorted_def sorted_wrt_iff_nth_less)

lemma states_sorted_take_drop:
  "states_sorted ss \<Longrightarrow> states_sorted (take i ss)" "states_sorted ss \<Longrightarrow> states_sorted (drop i ss)"
  by (simp_all add: states_sorted_def sorted_wrt_take sorted_wrt_drop)

lemma pending_last_drop: "pending_last n ss \<Longrightarrow> pending_last n (drop k ss)"
  by (auto simp: pending_last_def butlast_drop last_drop dest: in_set_dropD)

lemma pending_last_append:
  "pending_last n ys \<Longrightarrow> \<forall>s \<in> set xs. state_color s \<noteq> Pending \<Longrightarrow> pending_last n (xs @ ys)"
  by (cases "ys = []") (auto simp: pending_last_def butlast_append dest: in_set_butlastD)

lemma pending_last_offset:
  assumes "states_sorted ss" "pending_last n ss" "s \<in> set ss" "state_color s = Pending"
  shows "s = last ss"
  using assms by (cases ss rule: rev_cases) (auto simp: pending_last_def)

lemma length_states:
  assumes "states_sorted ss" and "\<forall>s \<in> set ss. state_offset s \<le> n"
  shows "length ss \<le> Suc n"
proof -
  have "sorted_wrt (<) (map state_offset ss)" using assms(1) by (simp add: states_sorted_def sorted_wrt_map)
  then have "distinct (map state_offset ss)" by (simp add: strict_sorted_iff)
  moreover have "set (map state_offset ss) \<subseteq> {..n}" using assms(2) by auto
  ultimately have "length (map state_offset ss) \<le> card {..n}"
    by (metis card_mono distinct_card finite_atMost)
  then show ?thesis by simp
qed

section \<open>Recolouring a range\<close>

text \<open>
  The front of a recoloured list: the entries up to \<open>a\<close>, ending in the new colour, which agree
  with the old list before \<open>a\<close>.
\<close>

definition front_ok :: "color \<Rightarrow> nat \<Rightarrow> state list \<Rightarrow> state list \<Rightarrow> bool" where
  "front_ok c a ss L \<longleftrightarrow>
     states_sorted L \<and> (\<forall>s \<in> set L. state_offset s \<le> a \<and> state_color s \<noteq> Pending) \<and>
     end_color Recved L = c \<and> (\<forall>p < a. seg_color Recved L p = seg_color Recved ss p)"

lemma front_recolor:
  assumes ok: "states_sorted ss" and i: "idx < length ss" and a: "state_offset (ss ! idx) = a"
    and c: "c \<noteq> Pending" and np: "\<forall>s \<in> set (take idx ss). state_color s \<noteq> Pending"
  defines "ss' \<equiv> ss[idx := set_color (ss ! idx) c]"
  shows "front_ok c a ss (take (same_before ss' idx c + 1) ss')"
proof -
  define j where "j = same_before ss' idx c"
  have j: "j \<le> idx" by (simp add: j_def same_before_le)
  have run: "state_color (ss' ! k) = c" if "j \<le> k" "k < idx" for k
    using that i same_before_color [of ss' idx c k] by (simp add: j_def ss'_def)
  have split: "ss = take idx ss @ ss ! idx # drop (Suc idx) ss" by (rule split_at_nth [OF i])
  have old: "seg_color Recved ss p = seg_color Recved (take idx ss) p" if "p < a" for p
  proof -
    have "\<forall>s \<in> set (ss ! idx # drop (Suc idx) ss). p < state_offset s"
      using ok that a split by (metis (no_types, lifting) less_trans set_ConsD states_sorted_simps(2,3))
    then show ?thesis by (metis seg_color_append_before split)
  qed
  have before: "\<forall>s \<in> set (take idx ss). state_offset s < a"
    using ok a split by (metis list.set_intros(1) states_sorted_simps(3))
  show ?thesis
  proof (cases "j = idx")
    case True
    have L: "take (j + 1) ss' = take idx ss @ [set_color (ss ! idx) c]"
      using i by (simp add: ss'_def True take_Suc_conv_app_nth)
    have "seg_color Recved (take (j + 1) ss') p = seg_color Recved ss p" if "p < a" for p
      using that a unfolding L by (simp add: old seg_color_append_before)
    with before a np c ok show ?thesis
      unfolding j_def [symmetric] front_ok_def L
      by (auto simp: states_sorted_take_drop less_imp_le)
  next
    case False
    with j have jl: "j < idx" by simp
    have L: "take (j + 1) ss' = take (j + 1) ss" using jl by (simp add: ss'_def)
    have whole: "take idx ss = take (j + 1) ss @ drop (j + 1) (take idx ss)"
      using jl by (metis Suc_eq_plus1 Suc_leI append_take_drop_id min.absorb1 take_take)
    have sub: "set (take (j + 1) ss) \<subseteq> set (take idx ss)" using jl by (intro set_take_subset_set_take) simp
    have c_end: "end_color Recved (take (j + 1) ss) = c"
      using run [of j] jl i by (simp add: end_color_def take_Suc_conv_app_nth ss'_def)
    have "state_color s = c" if "s \<in> set (drop (j + 1) (take idx ss))" for s
      using that run i by (auto simp: in_set_conv_nth ss'_def)
    then have "seg_color Recved (take idx ss) p = seg_color Recved (take (j + 1) ss) p" for p
      using seg_color_drop_run [of "take (j + 1) ss" "drop (j + 1) (take idx ss)" Recved p] ok c_end whole
      by (metis states_sorted_take_drop(1))
    with old before np c_end sub ok show ?thesis
      unfolding j_def [symmetric] front_ok_def L
      by (auto simp: states_sorted_take_drop less_imp_le)
  qed
qed

lemma front_insert:
  assumes ok: "states_sorted ss" and "idx \<le> length ss" and a: "a < 2 ^ 62" and c: "c \<noteq> Pending"
    and np: "\<forall>s \<in> set (take idx ss). state_color s \<noteq> Pending"
    and before: "\<forall>s \<in> set (take idx ss). state_offset s < a"
    and after: "\<forall>s \<in> set (drop idx ss). a < state_offset s"
  shows "front_ok c a ss (take idx ss @ [state_encode a c])"
    and "end_color Recved (take idx ss) = c \<Longrightarrow> front_ok c a ss (take idx ss)"
proof -
  have "seg_color Recved ss p = seg_color Recved (take idx ss) p" if "p < a" for p
    using seg_color_append_before [of "drop idx ss" p Recved "take idx ss"] after that by fastforce
  with assms show "front_ok c a ss (take idx ss @ [state_encode a c])"
    "end_color Recved (take idx ss) = c \<Longrightarrow> front_ok c a ss (take idx ss)"
    by (auto simp: front_ok_def states_sorted_take_drop seg_color_append_before less_imp_le)
qed

lemma front_keep:
  assumes ok: "states_sorted ss" and i: "idx < length ss" and a: "state_offset (ss ! idx) = a"
    and np: "\<forall>s \<in> set (take (idx + 1) ss). state_color s \<noteq> Pending"
  shows "front_ok (state_color (ss ! idx)) a ss (take (idx + 1) ss)"
proof -
  have "seg_color Recved ss p = seg_color Recved (take (idx + 1) ss) p" if "p < a" for p
  proof -
    have "p < state_offset (ss ! k)" if "idx < k" "k < length ss" for k
      using states_sorted_nth [OF ok that] \<open>p < a\<close> a by simp
    then have "\<forall>s \<in> set (drop (idx + 1) ss). p < state_offset s"
      by (auto simp: in_set_conv_nth)
    then show ?thesis by (metis append_take_drop_id seg_color_append_before)
  qed
  moreover have "\<forall>s \<in> set (take (idx + 1) ss). state_offset s \<le> a"
    using ok a i by (auto simp: in_set_conv_nth less_Suc_eq_le) (metis le_neq_implies_less less_imp_le order_refl states_sorted_nth)
  moreover have "states_sorted (take (idx + 1) ss)" using ok by (rule states_sorted_take_drop)
  moreover have "end_color Recved (take (idx + 1) ss) = state_color (ss ! idx)"
    using i by (simp add: take_Suc_conv_app_nth)
  ultimately show ?thesis using np unfolding front_ok_def by auto
qed

text \<open>
  The back: what follows \<open>b\<close>. \<open>M\<close> are the entries inside the range, \<open>Y\<close> entries of the new colour
  that merge into it, \<open>X\<close> the entries that stay; \<open>extra\<close> tells whether the old colour needs an
  entry at \<open>b\<close>.
\<close>

definition back_ok :: "color \<Rightarrow> nat \<Rightarrow> nat \<Rightarrow> color \<Rightarrow> state list \<Rightarrow> state list \<Rightarrow> bool \<Rightarrow> bool" where
  "back_ok c b n pre Y X extra \<longleftrightarrow>
     (\<forall>s \<in> set Y. state_color s = c) \<and>
     (\<not> extra \<and> Y @ X \<noteq> [] \<and> state_offset (hd (Y @ X)) = b \<or>
      Y = [] \<and> extra = (b < n \<and> pre \<noteq> c) \<and> (X \<noteq> [] \<longrightarrow> b < state_offset (hd X)))"

lemma back_color:
  assumes ok: "states_sorted (A @ M @ Y @ X)" and low: "\<forall>s \<in> set (A @ M). state_offset s \<le> b"
    and bk: "back_ok c b n (end_color Recved (A @ M)) Y X extra" and b: "b < 2 ^ 62"
    and p: "b \<le> p" "p < n"
  shows "seg_color (end_color c (if extra then [state_encode b (end_color Recved (A @ M))] else [])) X p
     = seg_color Recved (A @ M @ Y @ X) p"
proof -
  have old: "seg_color Recved (A @ M @ Y @ X) p = seg_color (end_color Recved (A @ M)) (Y @ X) p"
    using seg_color_append_after [of "A @ M" p Recved "Y @ X"] low p by fastforce
  have Y: "seg_color c (Y @ X) p = seg_color c X p"
    using bk ok by (intro seg_color_skip) (auto simp: back_ok_def)
  show ?thesis
  proof (cases "Y @ X \<noteq> [] \<and> state_offset (hd (Y @ X)) = b")
    case True
    with bk have "\<not> extra" by (auto simp: back_ok_def)
    moreover from True p have "seg_color c (Y @ X) p = seg_color (end_color Recved (A @ M)) (Y @ X) p"
      by (intro seg_color_start) auto
    ultimately show ?thesis using old Y by simp
  next
    case False
    with bk p b old show ?thesis by (auto simp: back_ok_def)
  qed
qed


lemma splice_ok:
  assumes front: "front_ok c a ss L" and ss: "states_ok n ss" "ss = A @ M @ Y @ X"
    and low: "\<forall>s \<in> set (A @ M). state_offset s \<le> b"
    and bk: "back_ok c b n (end_color Recved (A @ M)) Y X extra"
    and np: "end_color Recved (A @ M) \<noteq> Pending \<or> X = []"
    and ab: "a < b \<or> a = b \<and> b = n \<and> Y @ X = []" "b \<le> n" "n < 2 ^ 62"
  defines "ss' \<equiv> L @ (if extra then [state_encode b (end_color Recved (A @ M))] else []) @ X"
  shows "states_ok n ss'"
    and "p < n \<Longrightarrow> seg_color Recved ss' p = (if a \<le> p \<and> p < b then c else seg_color Recved ss p)"
    and "a < b \<Longrightarrow> states_open n ss \<Longrightarrow> states_open n ss'"
proof -
  let ?pre = "end_color Recved (A @ M)"
  let ?E = "if extra then [state_encode b ?pre] else []"
  have sorted: "states_sorted (A @ M @ Y @ X)" using ss by (simp add: states_ok_def)
  have X: "\<forall>s \<in> set X. b \<le> state_offset s" "extra \<Longrightarrow> \<forall>s \<in> set X. b < state_offset s"
    using bk states_sorted_hd [of "Y @ X"] states_sorted_hd [of X] sorted by (fastforce simp: back_ok_def)+
  have b62: "b < 2 ^ 62" using ab by simp
  have E: "\<forall>s \<in> set ?E. state_offset s = b" using b62 by simp
  have noE: "extra \<Longrightarrow> a < b" using ab bk by (auto simp: back_ok_def)
  show "states_ok n ss'"
    unfolding states_ok_def
  proof (intro conjI)
    have L: "states_sorted L" "\<forall>s \<in> set L. state_offset s \<le> a \<and> state_color s \<noteq> Pending"
      using front by (auto simp: front_ok_def)
    have "\<forall>s \<in> set L. \<forall>t \<in> set X. state_offset s < state_offset t"
      using L X(1) ab(1) by fastforce
    then show "states_sorted ss'"
      using L X b62 sorted noE by (auto simp: ss'_def)
    show "\<forall>s \<in> set ss'. state_offset s \<le> n"
      using ss ab L b62 by (fastforce simp: ss'_def states_ok_def)
    have "pending_last n X"
      using pending_last_drop [of n ss "length (A @ M @ Y)"] ss by (simp add: states_ok_def)
    have "pending_last n (?E @ X)"
    proof (cases "?pre = Pending \<and> extra")
      case True
      with np have "X = []" by auto
      moreover from True bk have "b < n" by (auto simp: back_ok_def)
      ultimately show ?thesis using b62 by (simp add: pending_last_def)
    next
      case False
      with b62 \<open>pending_last n X\<close> show ?thesis by (intro pending_last_append) auto
    qed
    then show "pending_last n ss'"
      unfolding ss'_def by (rule pending_last_append) (use L in blast)
  qed
  show "seg_color Recved ss' p = (if a \<le> p \<and> p < b then c else seg_color Recved ss p)" if "p < n"
    unfolding ss'_def
  proof (rule splice_color [where n = n])
    show "\<forall>s \<in> set L. state_offset s \<le> a" "end_color Recved L = c"
      "\<And>p. p < a \<Longrightarrow> seg_color Recved L p = seg_color Recved ss p"
      using front by (auto simp: front_ok_def)
    show "seg_color (end_color c ?E) X p = seg_color Recved ss p" if "b \<le> p" "p < n" for p
      using back_color [OF sorted low bk b62 that] ss by simp
  qed (use E X ab that in auto)
  show "states_open n ss'" if "a < b" "states_open n ss"
  proof -
    have "extra \<Longrightarrow> b < n" using that(1) bk by (auto simp: back_ok_def)
    moreover have "\<forall>s \<in> set L. state_offset s < n" using front that(1) ab(2) by (fastforce simp: front_ok_def)
    ultimately show ?thesis using that(2) b62 ss(2) by (auto simp: states_open_def ss'_def)
  qed
qed

lemma ack_loop_spec:
  assumes len: "length ss < 2 ^ 64" and "k \<le> length ss" and bn: "b \<le> n"
    and "\<forall>s \<in> set (drop k ss). state_offset s \<le> n \<and> (state_offset s < b \<longrightarrow> state_color s \<noteq> Pending)"
  shows "\<exists>M Y X extra. drop k ss = M @ Y @ X \<and> (\<forall>s \<in> set M. state_offset s < b) \<and>
     ack_loop n b ss k pre = Some (k + length (M @ Y), extra, end_color pre M) \<and>
     back_ok Recved b n (end_color pre M) Y X extra"
  using assms(2,4)
proof (induction "length ss - k" arbitrary: k pre)
  case 0
  then have "k = length ss" by simp
  with bn show ?case by (subst ack_loop.simps) (auto simp: back_ok_def)
next
  case (Suc d)
  then have k: "k < length ss" by simp
  define s where "s = ss ! k"
  have dk: "drop k ss = s # drop (Suc k) ss" using k by (simp add: Cons_nth_drop_Suc s_def)
  with Suc.prems have s: "state_offset s \<le> n" "state_offset s < b \<longrightarrow> state_color s \<noteq> Pending" by auto
  consider "state_offset s < b" | "state_offset s = b" | "b < state_offset s" by linarith
  then show ?case
  proof cases
    case 1
    have "\<exists>M Y X extra. drop (Suc k) ss = M @ Y @ X \<and> (\<forall>s \<in> set M. state_offset s < b) \<and>
     ack_loop n b ss (Suc k) (state_color s) = Some (Suc k + length (M @ Y), extra, end_color (state_color s) M) \<and>
     back_ok Recved b n (end_color (state_color s) M) Y X extra"
      using Suc.hyps(2) Suc.prems k dk by (intro Suc.hyps(1)) auto
    then obtain M Y X extra where "drop (Suc k) ss = M @ Y @ X" "\<forall>s \<in> set M. state_offset s < b"
     "ack_loop n b ss (Suc k) (state_color s) = Some (Suc k + length (M @ Y), extra, end_color (state_color s) M)"
     "back_ok Recved b n (end_color (state_color s) M) Y X extra" by blast
    with 1 s k dk show ?thesis
      by (intro exI [of _ "s # M"] exI [of _ Y] exI [of _ X] exI [of _ extra], subst ack_loop.simps)
        (simp add: s_def [symmetric])
  next
    case 2
    obtain Y X where YX: "drop k ss = Y @ X" "\<forall>s \<in> set Y. state_color s = Recved"
      "usize_succ (same_after ss (usize_pred k) Recved) = k + length Y"
      using same_after_run [OF Suc.prems(1) len] by metis
    then have "Y @ X = s # drop (Suc k) ss" using dk by simp
    then have "Y @ X \<noteq> []" "state_offset (hd (Y @ X)) = b" using 2 by (simp_all del: append_is_Nil_conv)
    with YX 2 k show ?thesis
      by (intro exI [of _ "[]"] exI [of _ Y] exI [of _ X] exI [of _ False], subst ack_loop.simps)
        (simp add: s_def [symmetric] back_ok_def)
  next
    case 3
    with k s dk show ?thesis
      by (intro exI [of _ "[]"] exI [of _ "[]"] exI [of _ "drop k ss"] exI [of _ "pre \<noteq> Recved"],
          subst ack_loop.simps) (auto simp: s_def [symmetric] back_ok_def)
  qed
qed

lemma end_color_not_Pending:
  "\<forall>s \<in> set xs. state_color s \<noteq> Pending \<Longrightarrow> c \<noteq> Pending \<Longrightarrow> end_color c xs \<noteq> Pending"
  by (auto simp: end_color_def)

lemma range_not_Pending:
  assumes "map_ok m" and "range_ok m a b" and "s \<in> set (states m)"
    and "state_offset s \<le> a \<or> state_offset s < b"
  shows "state_color s \<noteq> Pending"
proof
  assume P: "state_color s = Pending"
  with assms(1,3) have "s = last (states m)"
    by (intro pending_last_offset) (auto simp: map_ok_def states_ok_def)
  with P assms(1,3) have "bm_sent m = state_offset s" "state_offset s < bm_size m"
    by (auto simp: bm_sent_def map_ok_def states_ok_def pending_last_def)
  with assms(2,4) show False by (auto simp: range_ok_def)
qed

lemma range_ok_bounds:
  assumes "map_ok m" and "range_ok m a b"
  shows "a \<le> b" "b \<le> bm_size m" "b < 2 ^ 62" "a < 2 ^ 62"
    "a < b \<or> a = b \<and> b = bm_size m"
proof -
  have "bm_sent m \<le> bm_size m"
    using assms(1) by (auto simp: bm_sent_def map_ok_def states_ok_def)
  with assms show "a \<le> b" "b \<le> bm_size m" "b < 2 ^ 62" "a < 2 ^ 62" "a < b \<or> a = b \<and> b = bm_size m"
    by (auto simp: range_ok_def map_ok_def)
qed

text \<open>Where the binary search of \<open>ack_rcvd\<close> and \<open>may_loss\<close> lands.\<close>

lemma search_Found:
  assumes "map_ok m" and "range_ok m a b" and "binary_search_by_key state_offset a (states m) = Found idx"
  shows "idx < length (states m)" "state_offset (states m ! idx) = a"
    "\<forall>s \<in> set (take (idx + 1) (states m)). state_offset s \<le> a \<and> state_color s \<noteq> Pending"
    "a < b \<or> a = b \<and> b = bm_size m \<and> drop (idx + 1) (states m) = []"
proof -
  let ?ss = "states m"
  show i: "idx < length ?ss" "state_offset (?ss ! idx) = a" using binary_search_Found [OF assms(3)] by auto
  have ok: "states_sorted ?ss" "\<forall>s \<in> set ?ss. state_offset s \<le> bm_size m"
    using assms(1) by (auto simp: map_ok_def states_ok_def)
  have le: "state_offset s \<le> a" if "s \<in> set (take (idx + 1) ?ss)" for s
    using that ok(1) i by (auto simp: in_set_conv_nth less_Suc_eq_le)
      (metis le_neq_implies_less less_imp_le order_refl states_sorted_nth)
  then show "\<forall>s \<in> set (take (idx + 1) ?ss). state_offset s \<le> a \<and> state_color s \<noteq> Pending"
    using range_not_Pending [OF assms(1,2)] by (meson in_set_takeD)
  have "drop (idx + 1) ?ss = []" if "a = bm_size m"
  proof (rule ccontr)
    assume "drop (idx + 1) ?ss \<noteq> []"
    then have "Suc idx < length ?ss" by simp
    with states_sorted_nth [OF ok(1), of idx "Suc idx"] ok(2) i that show False
      by (metis leD lessI nth_mem)
  qed
  with range_ok_bounds(5) [OF assms(1,2)]
  show "a < b \<or> a = b \<and> b = bm_size m \<and> drop (idx + 1) ?ss = []" by auto
qed

lemma search_Missing:
  assumes "map_ok m" and "range_ok m a b" and "binary_search_by_key state_offset a (states m) = Missing idx"
  shows "idx \<le> length (states m)"
    "\<forall>s \<in> set (take idx (states m)). state_offset s < a \<and> state_color s \<noteq> Pending"
    "\<forall>s \<in> set (drop idx (states m)). a < state_offset s"
    "a < b \<or> a = b \<and> b = bm_size m \<and> drop idx (states m) = []"
proof -
  let ?ss = "states m"
  note ms = binary_search_Missing [OF assms(3)]
  show "idx \<le> length ?ss" by (rule ms)
  have ok: "states_sorted ?ss" "\<forall>s \<in> set ?ss. state_offset s \<le> bm_size m"
    using assms(1) by (auto simp: map_ok_def states_ok_def)
  have less: "\<forall>s \<in> set (take idx ?ss). state_offset s < a"
    using ms(1,2) by (auto simp: in_set_conv_nth)
  then show "\<forall>s \<in> set (take idx ?ss). state_offset s < a \<and> state_color s \<noteq> Pending"
    using range_not_Pending [OF assms(1,2)] by (meson in_set_takeD less_imp_le)
  show after: "\<forall>s \<in> set (drop idx ?ss). a < state_offset s"
  proof
    fix s assume s: "s \<in> set (drop idx ?ss)"
    then have "idx < length ?ss" by (cases "idx < length ?ss") auto
    with ms(3) have "a < state_offset (hd (drop idx ?ss))" by (simp add: hd_drop_conv_nth)
    with states_sorted_hd [OF states_sorted_take_drop(2) [OF ok(1)] s] show "a < state_offset s" by simp
  qed
  have "drop idx ?ss = []" if "a = bm_size m"
  proof (rule ccontr)
    assume "drop idx ?ss \<noteq> []"
    then obtain s where "s \<in> set (drop idx ?ss)" by (cases "drop idx ?ss") auto
    with after ok(2) that show False by (meson in_set_dropD leD)
  qed
  with range_ok_bounds(5) [OF assms(1,2)]
  show "a < b \<or> a = b \<and> b = bm_size m \<and> drop idx ?ss = []" by auto
qed

lemma length_states_64: "map_ok m \<Longrightarrow> length (states m) < 2 ^ 64"
  using length_states [of "states m" "bm_size m"] by (auto simp: map_ok_def states_ok_def)

text \<open>The common part of both branches of \<open>ack_rcvd\<close>, from the loop on.\<close>

lemma ack_finish:
  assumes m: "map_ok m" and r: "range_ok m a b"
    and front: "front_ok Recved a (states m) (take ds ss @ S)"
    and k: "k \<le> length ss" "ds \<le> k" "length ss = length (states m)" "drop k ss = drop k (states m)"
    and low: "\<forall>s \<in> set (take k (states m)). state_offset s \<le> a \<and> state_color s \<noteq> Pending"
    and pre: "pre = end_color Recved (take k (states m))"
    and ab: "a < b \<or> a = b \<and> b = bm_size m \<and> drop k (states m) = []"
    and S: "S = (case x of None \<Rightarrow> [] | Some s \<Rightarrow> [s])"
  shows "\<exists>de extra pre' m'. ack_loop (bm_size m) b ss k pre = Some (de, extra, pre') \<and>
     m' = m\<lparr>states := drain_tail ds de x (if extra then Some (state_encode b pre') else None) ss\<rparr> \<and>
     map_ok m' \<and> bm_size m' = bm_size m \<and> (a < b \<and> open_map m \<longrightarrow> open_map m') \<and>
     (\<forall>p < bm_size m. color_at m' p = (if a \<le> p \<and> p < b then Recved else color_at m p))"
proof -
  note bounds = range_ok_bounds [OF m r]
  have ok: "states_ok (bm_size m) (states m)" using m by (simp add: map_ok_def)
  have "\<forall>s \<in> set (drop k ss). state_offset s \<le> bm_size m \<and> (state_offset s < b \<longrightarrow> state_color s \<noteq> Pending)"
    using ok range_not_Pending [OF m r] k(4) by (auto simp: states_ok_def dest: in_set_dropD)
  from ack_loop_spec [OF _ k(1) bounds(2) this, of pre] length_states_64 [OF m] k(3)
  obtain M Y X extra where MYX: "drop k ss = M @ Y @ X" "\<forall>s \<in> set M. state_offset s < b"
     and loop: "ack_loop (bm_size m) b ss k pre = Some (k + length (M @ Y), extra, end_color pre M)"
     and bk: "back_ok Recved b (bm_size m) (end_color pre M) Y X extra" by auto
  let ?A = "take k (states m)"
  have ss: "states m = ?A @ M @ Y @ X" using MYX(1) k(4) by (metis append_take_drop_id)
  have "\<forall>s \<in> set M. state_color s \<noteq> Pending"
    using MYX(2) ss range_not_Pending [OF m r] by (metis in_set_conv_decomp append.assoc append_Cons)
  with low have np: "end_color Recved (?A @ M) \<noteq> Pending" by (intro end_color_not_Pending) auto
  have e: "end_color pre M = end_color Recved (?A @ M)" by (simp add: pre)
  have lowb: "\<forall>s \<in> set (?A @ M). state_offset s \<le> b" using low MYX(2) bounds(1) by fastforce
  have ab': "a < b \<or> a = b \<and> b = bm_size m \<and> Y @ X = []"
    using ab MYX(1) k(4) by auto
  have X: "drop (k + length (M @ Y)) ss = X"
    using MYX(1) by (metis append.assoc append_eq_conv_conj drop_drop add.commute)
  have le: "k + length (M @ Y) \<le> length ss"
    using MYX(1) k(1) by (metis append.assoc drop_drop le_add_diff_inverse length_append length_drop nat_add_left_cancel_le le_add1)
  let ?y = "if extra then Some (state_encode b (end_color pre M)) else None"
  have drained: "drain_tail ds (k + length (M @ Y)) x ?y ss =
      (take ds ss @ S) @ (if extra then [state_encode b (end_color Recved (?A @ M))] else []) @ X"
    using drain_tail_eq [of ds "k + length (M @ Y)" ss x ?y] k(2) le X unfolding S e by simp
  note sp = splice_ok [OF front ok ss lowb bk [unfolded e] disjI1 [OF np] ab' bounds(2), folded drained]
  have n62: "bm_size m < 2 ^ 62" using m by (simp add: map_ok_def)
  show ?thesis
    using sp [OF n62] n62 by (simp add: loop map_ok_def color_at_def open_map_def)
qed


lemma ack_rcvd_spec:
  assumes m: "map_ok m" and r: "range_ok m a b"
  shows "\<exists>m'. ack_rcvd a b m = Some m' \<and> map_ok m' \<and> bm_size m' = bm_size m \<and>
     (a < b \<and> open_map m \<longrightarrow> open_map m') \<and>
     (\<forall>p < bm_size m. color_at m' p = (if a \<le> p \<and> p < b then Recved else color_at m p))"
proof -
  have sorted: "states_sorted (states m)" using m by (simp add: map_ok_def states_ok_def)
  show ?thesis
  proof (cases "binary_search_by_key state_offset a (states m)")
    case (Found idx)
    note f = search_Found [OF m r Found]
    let ?s = "states m ! idx" and ?ss = "(states m)[idx := set_color (states m ! idx) Recved]"
    have np: "state_color ?s \<noteq> Pending" "\<forall>s \<in> set (take idx (states m)). state_color s \<noteq> Pending"
      using f(1,3) by (auto simp: take_Suc_conv_app_nth)
    have front: "front_ok Recved a (states m) (take (same_before ?ss idx Recved + 1) ?ss @ [])"
      using front_recolor [OF sorted f(1,2) _ np(2)] by simp
    have "state_color ?s = end_color Recved (take (idx + 1) (states m))"
      using f(1) by (simp add: take_Suc_conv_app_nth)
    from ack_finish [OF m r front _ _ _ _ f(3) this f(4), of None] f(1) same_before_le [of ?ss idx Recved]
    show ?thesis
      by (fastforce simp: ack_rcvd_def Found np Let_def)
  next
    case (Missing idx)
    note f = search_Missing [OF m r Missing]
    let ?pre = "end_color Recved (take idx (states m))"
    have np: "\<forall>s \<in> set (take idx (states m)). state_color s \<noteq> Pending"
      and less: "\<forall>s \<in> set (take idx (states m)). state_offset s < a"
      and low: "\<forall>s \<in> set (take idx (states m)). state_offset s \<le> a \<and> state_color s \<noteq> Pending"
      using f(2) by (auto simp: less_imp_le)
    have a62: "a < 2 ^ 62" by (rule range_ok_bounds [OF m r])
    let ?x = "if ?pre \<noteq> Recved then Some (state_encode a Recved) else None"
    have front: "front_ok Recved a (states m) (take idx (states m) @ (case ?x of None \<Rightarrow> [] | Some s \<Rightarrow> [s]))"
      using front_insert [OF sorted f(1) a62 _ np less f(3)] by simp
    have eq: "ack_rcvd a b m =
       (case ack_loop (bm_size m) b (states m) idx ?pre of
          None \<Rightarrow> None
        | Some (de, extra, pre') \<Rightarrow>
            Some (m\<lparr>states := drain_tail idx de ?x (if extra then Some (state_encode b pre') else None) (states m)\<rparr>))"
    proof (cases "idx = 0")
      case True
      show ?thesis using Missing unfolding True by (simp add: ack_rcvd_def)
    next
      case False
      then have "?pre = state_color (states m ! (idx - 1))"
        using f(1) by (cases idx) (auto simp: take_Suc_conv_app_nth)
      moreover from this have "state_color (states m ! (idx - 1)) \<noteq> Pending"
        using end_color_not_Pending [OF np, of Recved] by simp
      ultimately show ?thesis using False by (simp add: ack_rcvd_def Missing Let_def)
    qed
    from ack_finish [OF m r front f(1) _ _ _ low refl f(4) refl]
    show ?thesis unfolding eq by fastforce
  qed
qed

section \<open>Losing a range\<close>

text \<open>What a lost range does to one colour, and to the entries after a received one.\<close>

definition lose :: "color \<Rightarrow> color" where
  "lose c = (if c = Flighting then Lost else c)"

definition loss_ok :: "nat \<Rightarrow> nat \<Rightarrow> state list \<Rightarrow> state list \<Rightarrow> bool" where
  "loss_ok b n ts ts' \<longleftrightarrow> states_ok n ts' \<and>
     (\<forall>x. (\<forall>t \<in> set ts. x < state_offset t) \<longrightarrow> (\<forall>t \<in> set ts'. x < state_offset t)) \<and>
     (states_open n ts \<longrightarrow> states_open n ts') \<and>
     (\<forall>p < n. seg_color Recved ts' p =
        (if p < b then lose (seg_color Recved ts p) else seg_color Recved ts p))"

lemma lose_simps [simp]: "lose Flighting = Lost" "lose Lost = Lost" "lose Recved = Recved" "lose Pending = Pending"
  by (simp_all add: lose_def)

text \<open>The entries that the helper may meet.\<close>

definition loss_pre :: "nat \<Rightarrow> nat \<Rightarrow> state list \<Rightarrow> bool" where
  "loss_pre b n ts \<longleftrightarrow> states_ok n ts \<and> (\<forall>s \<in> set ts. state_offset s < b \<longrightarrow> state_color s \<noteq> Pending)"

lemma states_ok_drop: "states_ok n ss \<Longrightarrow> states_ok n (drop k ss)"
  by (auto simp: states_ok_def states_sorted_take_drop pending_last_drop dest: in_set_dropD)

lemma loss_pre_drop: "loss_pre b n ts \<Longrightarrow> loss_pre b n (drop k ts)"
  by (auto simp: loss_pre_def states_ok_drop dest: in_set_dropD)

definition in_range :: "nat \<Rightarrow> state list \<Rightarrow> bool" where
  "in_range b M \<longleftrightarrow> (\<forall>s \<in> set M. state_offset s < b \<and> (state_color s = Flighting \<or> state_color s = Lost))"

text \<open>
  How the walk over the entries of the range ends: at a received entry, whose successors go to
  the helper, or at the end of the range. \<open>Z\<close> is the list from there on, after the walk.
\<close>

definition walk_ok :: "nat \<Rightarrow> nat \<Rightarrow> color \<Rightarrow> state list \<Rightarrow> state list \<Rightarrow> nat \<Rightarrow> bool \<Rightarrow> state list \<Rightarrow> bool" where
  "walk_ok b n pre ts M k extra Z \<longleftrightarrow> in_range b M \<and>
     ((\<exists>r rest rest'. ts = M @ r # rest \<and> state_offset r < b \<and> state_color r = Recved \<and>
         loss_ok b n rest rest' \<and> Z = r # rest' \<and> k = length M \<and> \<not> extra) \<or>
      (\<exists>Y X. ts = M @ Y @ X \<and> Z = Y @ X \<and> k = length M + length Y \<and>
         (\<forall>s \<in> set Y. state_color s = Lost) \<and>
         (\<not> extra \<and> Y @ X \<noteq> [] \<and> state_offset (hd (Y @ X)) = b \<or>
          Y = [] \<and> extra = (b < n \<and> end_color pre M = Flighting) \<and>
          (X \<noteq> [] \<longrightarrow> b < state_offset (hd X)))))"

lemma lost_loop_spec:
  assumes helper: "\<And>ss' j. length ss' = length ss \<Longrightarrow> k \<le> j \<Longrightarrow> j < length ss \<Longrightarrow>
      loss_pre b n (drop (Suc j) ss') \<Longrightarrow>
      \<exists>ts'. may_lost_from n b (Suc j) ss' = Some (take (Suc j) ss' @ ts') \<and>
         loss_ok b n (drop (Suc j) ss') ts'"
    and len: "length ss < 2 ^ 64" and "k \<le> length ss" and bn: "b \<le> n" and "loss_pre b n (drop k ss)"
  shows "\<exists>M d extra Z pre'. lost_loop n b k pre ss =
       Some (take k ss @ map (\<lambda>s. set_color s Lost) M @ Z, k + d, extra, pre') \<and>
     walk_ok b n pre (drop k ss) M d extra Z \<and> (extra \<longrightarrow> pre' = end_color pre M)"
  using helper len assms(3,5)
proof (induction "length ss - k" arbitrary: k pre ss)
  case 0
  then have "k = length ss" by simp
  with bn show ?case by (subst lost_loop.simps) (simp add: walk_ok_def in_range_def)
next
  case (Suc d)
  then have k: "k < length ss" by simp
  define s where "s = ss ! k"
  have dk: "drop k ss = s # drop (Suc k) ss" using k by (simp add: Cons_nth_drop_Suc s_def)
  have s: "state_offset s \<le> n" "state_offset s < b \<longrightarrow> state_color s \<noteq> Pending"
    using Suc.prems(4) by (auto simp: loss_pre_def states_ok_def dk)
  consider (recved) "state_offset s < b" "state_color s = Recved"
    | (lose) "state_offset s < b" "state_color s = Flighting \<or> state_color s = Lost"
    | (eq) "state_offset s = b" | (gt) "b < state_offset s"
    using s(2) by (cases "state_color s") (auto, linarith+)
  then show ?case
  proof cases
    case recved
    have "loss_pre b n (drop (Suc k) ss)" using loss_pre_drop [OF Suc.prems(4), of 1] by simp
    with Suc.prems(1) [of ss k] k obtain rest' where
      "may_lost_from n b (Suc k) ss = Some (take (Suc k) ss @ rest')"
      "loss_ok b n (drop (Suc k) ss) rest'" by auto
    with recved k dk show ?thesis
      by (intro exI [of _ "[]"] exI [of _ 0] exI [of _ False] exI [of _ "s # rest'"] exI [of _ Recved],
          subst lost_loop.simps)
        (simp add: s_def [symmetric] walk_ok_def in_range_def take_Suc_conv_app_nth)
  next
    case lose
    define ss' where "ss' = ss[k := set_color s Lost]"
    have tk: "take (Suc k) ss' = take k ss @ [set_color s Lost]" "drop (Suc k) ss' = drop (Suc k) ss"
      "length ss' = length ss"
      using k by (simp_all add: ss'_def take_Suc_conv_app_nth)
    have "\<exists>M d extra Z pre'. lost_loop n b (Suc k) (state_color s) ss' =
       Some (take (Suc k) ss' @ map (\<lambda>s. set_color s Lost) M @ Z, Suc k + d, extra, pre') \<and>
     walk_ok b n (state_color s) (drop (Suc k) ss') M d extra Z \<and> (extra \<longrightarrow> pre' = end_color (state_color s) M)"
      using Suc.hyps(2) Suc.prems k loss_pre_drop [OF Suc.prems(4), of 1]
      by (intro Suc.hyps(1)) (auto simp: tk)
    then obtain M d extra Z pre' where
      r: "lost_loop n b (Suc k) (state_color s) ss' =
         Some (take (Suc k) ss' @ map (\<lambda>s. set_color s Lost) M @ Z, Suc k + d, extra, pre')"
      "walk_ok b n (state_color s) (drop (Suc k) ss) M d extra Z" "extra \<longrightarrow> pre' = end_color (state_color s) M"
      by (auto simp: tk)
    have "walk_ok b n pre (drop k ss) (s # M) (Suc d) extra Z"
      using r(2) lose unfolding walk_ok_def dk by (auto simp: in_range_def)
    with r lose k show ?thesis
      by (intro exI [of _ "s # M"] exI [of _ "Suc d"] exI [of _ extra] exI [of _ Z] exI [of _ pre'],
          subst lost_loop.simps) (auto simp: s_def [symmetric] ss'_def [symmetric] tk)
  next
    case eq
    obtain Y X where YX: "drop k ss = Y @ X" "\<forall>s \<in> set Y. state_color s = Lost"
      "usize_succ (same_after ss (usize_pred k) Lost) = k + length Y"
      using same_after_run [OF Suc.prems(3,2)] by metis
    then have h: "Y @ X = s # drop (Suc k) ss" using dk by simp
    then have "Y @ X \<noteq> []" "state_offset (hd (Y @ X)) = b" using eq by (simp_all del: append_is_Nil_conv)
    then have "walk_ok b n pre (drop k ss) [] (length Y) False (drop k ss)"
      using YX unfolding walk_ok_def in_range_def by auto
    with YX(3) eq k show ?thesis
      by (intro exI [of _ "[]"] exI [of _ "length Y"] exI [of _ False] exI [of _ "drop k ss"] exI [of _ pre],
          subst lost_loop.simps) (simp add: s_def [symmetric])
  next
    case gt
    with s(1) bn have "b < n" by simp
    with gt dk have "walk_ok b n pre (drop k ss) [] 0 (pre = Flighting) (drop k ss)"
      unfolding walk_ok_def in_range_def
      by (intro conjI disjI2 exI [of _ "[]"] exI [of _ "drop k ss"]) auto
    with gt k show ?thesis
      by (intro exI [of _ "[]"] exI [of _ 0] exI [of _ "pre = Flighting"] exI [of _ "drop k ss"] exI [of _ pre],
          subst lost_loop.simps) (simp add: s_def [symmetric])
  qed
qed

lemma seg_color_in: "c \<in> S \<Longrightarrow> \<forall>s \<in> set ss. state_color s \<in> S \<Longrightarrow> seg_color c ss p \<in> S"
  by (induction ss arbitrary: c) auto

lemma in_range_color:
  assumes "in_range b M" and "M \<noteq> []" and "state_offset (hd M) \<le> p" and "\<forall>s \<in> set W. p < state_offset s"
  shows "lose (seg_color Recved (M @ W) p) = Lost"
proof -
  from assms(2) obtain m M' where M: "M = m # M'" by (cases M) auto
  have "seg_color (state_color m) M' p \<in> {Flighting, Lost}"
    using assms(1) by (intro seg_color_in) (auto simp: M in_range_def)
  with assms(3,4) have "seg_color Recved (M @ W) p \<in> {Flighting, Lost}"
    by (simp add: seg_color_append_before M)
  then show ?thesis by auto
qed

lemma loss_after_recved:
  assumes ts: "states_ok n (M @ r # rest)" and M: "in_range b M"
    and r: "state_offset r < b" "state_color r = Recved" and rest: "loss_ok b n rest rest'"
  shows "loss_ok b n (M @ r # rest) ((if M = [] then [] else [set_color (hd M) Lost]) @ r # rest')"
proof -
  let ?h = "if M = [] then [] else [set_color (hd M) Lost]"
  have sorted: "states_sorted (M @ r # rest)" using ts by (simp add: states_ok_def)
  have rest': "states_ok n rest'" "\<forall>t \<in> set rest'. state_offset r < state_offset t"
    using rest sorted by (auto simp: loss_ok_def)
  have hd_M: "M \<noteq> [] \<Longrightarrow> hd M \<in> set M" by simp
  have ok: "states_ok n (?h @ r # rest')"
    unfolding states_ok_def
  proof (intro conjI)
    show "states_sorted (?h @ r # rest')"
      using rest' sorted hd_M by (fastforce simp: states_ok_def)
    show "\<forall>s \<in> set (?h @ r # rest'). state_offset s \<le> n"
      using ts rest'(1) hd_M by (auto simp: states_ok_def)
    show "pending_last n (?h @ r # rest')"
      using pending_last_append [of n rest' "?h @ [r]"] rest'(1) r(2) by (auto simp: states_ok_def)
  qed
  have low: "x < state_offset t" if "\<forall>t \<in> set (M @ r # rest). x < state_offset t" "t \<in> set (?h @ r # rest')" for x t
    using that rest'(2) hd_M by (auto split: if_splits)
  have "seg_color Recved (?h @ r # rest') p =
     (if p < b then lose (seg_color Recved (M @ r # rest) p) else seg_color Recved (M @ r # rest) p)"
    if p: "p < n" for p
  proof (cases "p < state_offset r")
    case True
    then have after: "\<forall>s \<in> set (r # rest). p < state_offset s" "\<forall>s \<in> set (r # rest'). p < state_offset s"
      using sorted rest'(2) by fastforce+
    show ?thesis
    proof (cases "M \<noteq> [] \<and> state_offset (hd M) \<le> p")
      case inside: True
      with in_range_color [OF M _ _ after(1)] after(2) True r(1) show ?thesis
        by (simp add: seg_color_append_before)
    next
      case False
      then have "\<forall>s \<in> set (M @ r # rest). p < state_offset s"
        using sorted after(1) states_sorted_hd [of M] by fastforce
      with False after(2) show ?thesis by (auto simp: seg_color_before)
    qed
  next
    case False
    then have "\<forall>s \<in> set M. state_offset s \<le> p" using sorted by fastforce
    moreover have "\<forall>s \<in> set ?h. state_offset s \<le> p" using calculation hd_M by simp
    ultimately show ?thesis
      using False r(2) rest p by (simp add: seg_color_append_after loss_ok_def)
  qed
  moreover have "states_open n (M @ r # rest) \<longrightarrow> states_open n (?h @ r # rest')"
    using rest hd_M by (auto simp: loss_ok_def states_open_def)
  ultimately show ?thesis using ok low unfolding loss_ok_def by blast
qed

lemma in_range_end:
  "in_range b M \<Longrightarrow> M \<noteq> [] \<Longrightarrow> end_color c M = Flighting \<or> end_color c M = Lost"
  by (simp add: in_range_def end_color_def)

lemma loss_to_end:
  assumes ts: "states_ok n (M @ Y @ X)" and M: "in_range b M" "M \<noteq> []"
    and bk: "back_ok Lost b n (end_color Recved M) Y X extra" and b: "b \<le> n" "n < 2 ^ 62"
  shows "loss_ok b n (M @ Y @ X)
     (set_color (hd M) Lost # (if extra then [state_encode b (end_color Recved M)] else []) @ X)"
proof -
  let ?a = "state_offset (hd M)" and ?L = "[set_color (hd M) Lost]"
  let ?ts' = "?L @ (if extra then [state_encode b (end_color Recved M)] else []) @ X"
  have sorted: "states_sorted (M @ Y @ X)" using ts by (simp add: states_ok_def)
  have before: "seg_color Recved (M @ Y @ X) p = Recved" if "p < ?a" for p
  proof (intro seg_color_before ballI)
    fix s assume "s \<in> set (M @ Y @ X)"
    from states_sorted_hd [OF sorted this] M(2) that show "p < state_offset s" by simp
  qed
  have ab: "?a < b" using M by (auto simp: in_range_def)
  have front: "front_ok Lost ?a (M @ Y @ X) ?L" by (simp add: front_ok_def before)
  have low: "\<forall>s \<in> set ([] @ M). state_offset s \<le> b" using M(1) by (auto simp: in_range_def)
  have np: "end_color Recved ([] @ M) \<noteq> Pending" using in_range_end [OF M, of Recved] by auto
  have bk': "back_ok Lost b n (end_color Recved ([] @ M)) Y X extra" using bk by simp
  have ts_eq: "M @ Y @ X = [] @ M @ Y @ X" by simp
  note sp = splice_ok [OF front ts ts_eq low bk' disjI1 [OF np] disjI1 [OF ab] b, unfolded append_Nil]
  have after: "\<forall>s \<in> set (Y @ X). b \<le> state_offset s"
    using bk sorted states_sorted_hd [of "Y @ X"] by (fastforce simp: back_ok_def)
  have "seg_color Recved ?ts' p =
     (if p < b then lose (seg_color Recved (M @ Y @ X) p) else seg_color Recved (M @ Y @ X) p)" if "p < n" for p
  proof -
    have "\<forall>s \<in> set (Y @ X). p < state_offset s" if "p < b" using after that by fastforce
    with in_range_color [OF M, of p "Y @ X"] before [of p] show ?thesis
      unfolding sp(2) [OF \<open>p < n\<close>] by (auto simp: not_le)
  qed
  moreover have "\<forall>t \<in> set ?ts'. x < state_offset t" if x: "\<forall>t \<in> set (M @ Y @ X). x < state_offset t" for x
  proof -
    have "x < ?a" using x M(2) by simp
    with ab b x show ?thesis by auto
  qed
  ultimately have "loss_ok b n (M @ Y @ X) ?ts'" using sp(1) sp(3) [OF ab] unfolding loss_ok_def by blast
  then show ?thesis by simp
qed

lemma loss_unchanged:
  assumes "states_ok n (Y @ X)" and "\<forall>s \<in> set (Y @ X). b \<le> state_offset s"
    and "\<forall>s \<in> set Y. state_color s = Lost"
  shows "loss_ok b n (Y @ X) (take 1 Y @ X)"
proof -
  have split: "Y @ X = take 1 Y @ drop 1 Y @ X" by simp
  have sorted: "states_sorted (take 1 Y @ drop 1 Y @ X)" using assms(1) split by (simp only: states_ok_def)
  have sub: "set (take 1 Y @ X) \<subseteq> set (Y @ X)" by (auto dest: in_set_takeD)
  have "pending_last n X"
    using pending_last_drop [of n "Y @ X" "length Y"] assms(1) by (simp add: states_ok_def)
  moreover have "\<forall>s \<in> set (take 1 Y). state_color s \<noteq> Pending"
    using assms(3) by (metis color.distinct(5) in_set_takeD)
  ultimately have "pending_last n (take 1 Y @ X)" by (rule pending_last_append)
  then have "states_ok n (take 1 Y @ X)"
    using assms(1) sorted sub by (auto simp: states_ok_def)
  moreover have "seg_color Recved (take 1 Y @ X) p = seg_color Recved (Y @ X) p" for p
  proof (cases Y)
    case (Cons y ys)
    with assms(3) sorted have "seg_color Lost (ys @ X) p = seg_color Lost X p"
      by (intro seg_color_skip) auto
    with Cons assms(3) show ?thesis by simp
  qed simp
  moreover have "seg_color Recved (Y @ X) p = Recved" if "p < b" for p
    using assms(2) that by (intro seg_color_before) fastforce
  moreover have "states_open n (Y @ X) \<longrightarrow> states_open n (take 1 Y @ X)"
    using sub by (auto simp: states_open_def)
  ultimately show ?thesis using sub unfolding loss_ok_def by auto
qed

lemma may_lost_from_drain:
  "may_lost_from n b i ss =
     (case lost_loop n b i Recved ss of
        None \<Rightarrow> None
      | Some (ss, idx, extra, pre) \<Rightarrow>
          Some (drain_tail (i + 1) idx None (if extra then Some (state_encode b pre) else None) ss))"
  by (auto simp: may_lost_from.simps drain_tail_def put_entry_def split: option.splits)

lemma may_lost_from_spec:
  assumes "length ss < 2 ^ 64" and "i \<le> length ss" and "b \<le> n" and "n < 2 ^ 62"
    and "loss_pre b n (drop i ss)"
  shows "\<exists>ts'. may_lost_from n b i ss = Some (take i ss @ ts') \<and> loss_ok b n (drop i ss) ts'"
  using assms
proof (induction "length ss - i" arbitrary: i ss rule: less_induct)
  case less
  have "\<exists>M d extra Z pre'. lost_loop n b i Recved ss =
       Some (take i ss @ map (\<lambda>s. set_color s Lost) M @ Z, i + d, extra, pre') \<and>
     walk_ok b n Recved (drop i ss) M d extra Z \<and> (extra \<longrightarrow> pre' = end_color Recved M)"
    using less.prems by (intro lost_loop_spec less.hyps) auto
  then obtain M d extra Z pre' where
    loop: "lost_loop n b i Recved ss =
       Some (take i ss @ map (\<lambda>s. set_color s Lost) M @ Z, i + d, extra, pre')"
    and w: "walk_ok b n Recved (drop i ss) M d extra Z" and pre: "extra \<longrightarrow> pre' = end_color Recved M" by blast
  let ?P = "take i ss" and ?ss2 = "take i ss @ map (\<lambda>s. set_color s Lost) M @ Z"
  let ?y = "if extra then Some (state_encode b pre') else None"
  let ?E = "if extra then [state_encode b (end_color Recved M)] else []"
  have lenP: "length ?P = i" using less.prems(2) by simp
  have M: "in_range b M" using w by (simp add: walk_ok_def)
  have tsok: "states_ok n (drop i ss)" using less.prems(5) by (simp add: loss_pre_def)
  have E: "(case ?y of None \<Rightarrow> [] | Some s \<Rightarrow> [s]) = ?E" using pre by simp
  have res: "may_lost_from n b i ss = Some (drain_tail (i + 1) (i + d) None ?y ?ss2)"
    by (simp add: may_lost_from_drain loop)
  have cut: "drain_tail (i + 1) (i + d) None ?y ?ss2 = take (i + 1) ?ss2 @ ?E @ drop (i + d) ?ss2"
    if "0 < d" "i + d \<le> length ?ss2"
    using drain_tail_eq [of "i + 1" "i + d" ?ss2 None ?y] that E by simp
  have still: "drain_tail (i + 1) i None None zs = zs" for zs by (simp add: drain_tail_def)
  from w consider
    (recved) r rest rest' where "drop i ss = M @ r # rest" "state_offset r < b" "state_color r = Recved"
      "loss_ok b n rest rest'" "Z = r # rest'" "d = length M" "\<not> extra"
    | (stop) Y X where "drop i ss = M @ Y @ X" "Z = Y @ X" "d = length M + length Y"
      "\<forall>s \<in> set Y. state_color s = Lost"
      "\<not> extra \<and> Y @ X \<noteq> [] \<and> state_offset (hd (Y @ X)) = b \<or>
       Y = [] \<and> extra = (b < n \<and> end_color Recved M = Flighting) \<and> (X \<noteq> [] \<longrightarrow> b < state_offset (hd X))"
    unfolding walk_ok_def by blast
  then show ?case
  proof cases
    case recved
    have ts: "states_ok n (M @ r # rest)" using tsok recved(1) by simp
    have "drain_tail (i + 1) (i + d) None ?y ?ss2 =
        ?P @ (if M = [] then [] else [set_color (hd M) Lost]) @ r # rest'"
    proof (cases M)
      case Nil
      with recved still show ?thesis by simp
    next
      case (Cons m M')
      have "0 < d" "i + d \<le> length ?ss2" using recved(6) Cons lenP by simp_all
      from cut [OF this] show ?thesis using recved Cons lenP by simp
    qed
    with loss_after_recved [OF ts M recved(2-4)] show ?thesis unfolding res recved(1) by simp
  next
    case stop
    have ts: "states_ok n (M @ Y @ X)" using tsok stop(1) by simp
    have bk: "back_ok Lost b n (end_color Recved M) Y X extra" if "M \<noteq> []"
      using stop(4,5) in_range_end [OF M that, of Recved] by (auto simp: back_ok_def)
    show ?thesis
    proof (cases M)
      case Nil
      have noextra: "\<not> extra" using stop(5) Nil by auto
      have after: "\<forall>s \<in> set (Y @ X). b \<le> state_offset s"
        using stop(5) states_sorted_hd [of "Y @ X"] ts by (fastforce simp: states_ok_def)
      have "drain_tail (i + 1) (i + d) None ?y ?ss2 = ?P @ take 1 Y @ X"
      proof (cases Y)
        case Y: Nil
        with stop Nil still noextra show ?thesis by simp
      next
        case (Cons y Y')
        have "0 < d" "i + d \<le> length ?ss2" using stop(2,3) Cons lenP by simp_all
        from cut [OF this] show ?thesis using stop(2,3) Cons Nil lenP noextra by simp
      qed
      with loss_unchanged [OF _ after stop(4)] ts Nil show ?thesis unfolding res stop(1) by simp
    next
      case (Cons m M')
      have "0 < d" "i + d \<le> length ?ss2" using stop(2,3) Cons lenP by simp_all
      from cut [OF this] have "drain_tail (i + 1) (i + d) None ?y ?ss2 = ?P @ set_color (hd M) Lost # ?E @ X"
        using stop(2,3) Cons lenP by simp
      with loss_to_end [OF ts M _ bk less.prems(3,4)] Cons show ?thesis unfolding res stop(1) by simp
    qed
  qed
qed

lemma loss_loop_spec:
  assumes len: "length ss < 2 ^ 64" and "k \<le> length ss" and bn: "b \<le> n" "n < 2 ^ 62"
    and "loss_pre b n (drop k ss)"
  shows "\<exists>M d extra Z pre'. loss_loop n b ss k pre = Some (take k ss @ M @ Z, k + d, extra, pre') \<and>
     walk_ok b n pre (drop k ss) M d extra Z \<and> (extra \<longrightarrow> pre' = end_color pre M)"
  using assms(2,5)
proof (induction "length ss - k" arbitrary: k pre)
  case 0
  then have "k = length ss" by simp
  with bn show ?case by (subst loss_loop.simps) (simp add: walk_ok_def in_range_def)
next
  case (Suc d)
  then have k: "k < length ss" by simp
  define s where "s = ss ! k"
  have dk: "drop k ss = s # drop (Suc k) ss" using k by (simp add: Cons_nth_drop_Suc s_def)
  have tk: "take (Suc k) ss = take k ss @ [s]" using k by (simp add: take_Suc_conv_app_nth s_def)
  have s: "state_offset s \<le> n" "state_offset s < b \<longrightarrow> state_color s \<noteq> Pending"
    using Suc.prems(2) by (auto simp: loss_pre_def states_ok_def dk)
  have rest: "loss_pre b n (drop (Suc k) ss)" using loss_pre_drop [OF Suc.prems(2), of 1] by simp
  consider (recved) "state_offset s < b" "state_color s = Recved"
    | (lose) "state_offset s < b" "state_color s = Flighting \<or> state_color s = Lost"
    | (eq) "state_offset s = b" | (gt) "b < state_offset s"
    using s(2) by (cases "state_color s") (auto, linarith+)
  then show ?case
  proof cases
    case recved
    obtain rest' where
      r: "may_lost_from n b (Suc k) ss = Some (take (Suc k) ss @ rest')" "loss_ok b n (drop (Suc k) ss) rest'"
      using may_lost_from_spec [OF len _ bn rest] k by auto
    then have "walk_ok b n pre (drop k ss) [] 0 False (s # rest')"
      using recved dk by (simp add: walk_ok_def in_range_def)
    with recved k r show ?thesis
      by (intro exI [of _ "[]"] exI [of _ 0] exI [of _ False] exI [of _ "s # rest'"] exI [of _ pre],
          subst loss_loop.simps) (simp add: s_def [symmetric] tk)
  next
    case lose
    have "\<exists>M d extra Z pre'. loss_loop n b ss (Suc k) (state_color s) =
       Some (take (Suc k) ss @ M @ Z, Suc k + d, extra, pre') \<and>
     walk_ok b n (state_color s) (drop (Suc k) ss) M d extra Z \<and> (extra \<longrightarrow> pre' = end_color (state_color s) M)"
      using Suc.hyps(2) k rest by (intro Suc.hyps(1)) auto
    then obtain M d extra Z pre' where
      r: "loss_loop n b ss (Suc k) (state_color s) = Some (take (Suc k) ss @ M @ Z, Suc k + d, extra, pre')"
      "walk_ok b n (state_color s) (drop (Suc k) ss) M d extra Z" "extra \<longrightarrow> pre' = end_color (state_color s) M"
      by blast
    have "walk_ok b n pre (drop k ss) (s # M) (Suc d) extra Z"
      using r(2) lose unfolding walk_ok_def dk by (auto simp: in_range_def)
    with r lose k show ?thesis
      by (intro exI [of _ "s # M"] exI [of _ "Suc d"] exI [of _ extra] exI [of _ Z] exI [of _ pre'],
          subst loss_loop.simps) (auto simp: s_def [symmetric] tk)
  next
    case eq
    obtain Y X where YX: "drop k ss = Y @ X" "\<forall>s \<in> set Y. state_color s = Lost"
      "usize_succ (same_after ss (usize_pred k) Lost) = k + length Y"
      using same_after_run [OF Suc.prems(1) len] by metis
    then have h: "Y @ X = s # drop (Suc k) ss" using dk by simp
    then have "Y @ X \<noteq> []" "state_offset (hd (Y @ X)) = b" using eq by (simp_all del: append_is_Nil_conv)
    then have "walk_ok b n pre (drop k ss) [] (length Y) False (drop k ss)"
      using YX unfolding walk_ok_def in_range_def by auto
    with YX(3) eq k show ?thesis
      by (intro exI [of _ "[]"] exI [of _ "length Y"] exI [of _ False] exI [of _ "drop k ss"] exI [of _ pre],
          subst loss_loop.simps) (simp add: s_def [symmetric])
  next
    case gt
    with s(1) have "b < n" by simp
    with gt dk have "walk_ok b n pre (drop k ss) [] 0 (pre = Flighting) (drop k ss)"
      unfolding walk_ok_def in_range_def
      by (intro conjI disjI2 exI [of _ "[]"] exI [of _ "drop k ss"]) auto
    with gt k show ?thesis
      by (intro exI [of _ "[]"] exI [of _ 0] exI [of _ "pre = Flighting"] exI [of _ "drop k ss"] exI [of _ pre],
          subst loss_loop.simps) (simp add: s_def [symmetric])
  qed
qed

definition lost_in :: "nat \<Rightarrow> nat \<Rightarrow> nat \<Rightarrow> state list \<Rightarrow> state list \<Rightarrow> bool" where
  "lost_in a b n ss ss' \<longleftrightarrow> states_ok n ss' \<and> (a < b \<and> states_open n ss \<longrightarrow> states_open n ss') \<and>
     (\<forall>p < n. seg_color Recved ss' p =
        (if a \<le> p \<and> p < b then lose (seg_color Recved ss p) else seg_color Recved ss p))"

text \<open>The range starts in a received part: only what follows changes.\<close>

lemma lost_in_suffix:
  assumes ok: "states_ok n (A @ ts)" and A: "end_color Recved A = Recved"
    "\<forall>s \<in> set A. state_offset s \<le> a \<and> state_color s \<noteq> Pending"
    and ts: "\<forall>s \<in> set ts. a < state_offset s" and loss: "loss_ok b n ts ts'"
  shows "lost_in a b n (A @ ts) (A @ ts')"
proof -
  have ts': "states_ok n ts'" "\<forall>s \<in> set ts'. a < state_offset s"
    using loss ts by (auto simp: loss_ok_def)
  have "states_ok n (A @ ts')"
    using ok ts' A(2) pending_last_append [of n ts' A] by (fastforce simp: states_ok_def)
  moreover have "seg_color Recved (A @ ts') p =
        (if a \<le> p \<and> p < b then lose (seg_color Recved (A @ ts) p) else seg_color Recved (A @ ts) p)"
    if "p < n" for p
  proof (cases "a \<le> p")
    case True
    then have "\<forall>s \<in> set A. state_offset s \<le> p" using A(2) by fastforce
    with True A(1) loss that show ?thesis by (simp add: seg_color_append_after loss_ok_def)
  next
    case False
    then have "\<forall>s \<in> set ts. p < state_offset s" "\<forall>s \<in> set ts'. p < state_offset s" using ts ts'(2) by fastforce+
    with False show ?thesis by (simp add: seg_color_append_before)
  qed
  moreover have "states_open n (A @ ts) \<longrightarrow> states_open n (A @ ts')"
    using loss by (auto simp: loss_ok_def states_open_def)
  ultimately show ?thesis by (simp add: lost_in_def)
qed

text \<open>The range ends before any received part.\<close>

lemma lost_in_splice:
  assumes front: "front_ok Lost a ss L" and ss: "states_ok n ss" "ss = A @ M @ Y @ X"
    and A: "\<forall>s \<in> set A. state_offset s \<le> a" and M: "in_range b M"
    and pre: "end_color Recved A = Flighting \<or> end_color Recved A = Lost"
    and Y: "\<forall>s \<in> set Y. state_color s = Lost"
    and stop: "\<not> extra \<and> Y @ X \<noteq> [] \<and> state_offset (hd (Y @ X)) = b \<or>
       Y = [] \<and> extra = (b < n \<and> end_color Recved (A @ M) = Flighting) \<and> (X \<noteq> [] \<longrightarrow> b < state_offset (hd X))"
    and ab: "a < b \<or> a = b \<and> b = n \<and> Y @ X = []" "b \<le> n" "n < 2 ^ 62"
  shows "lost_in a b n ss (L @ (if extra then [state_encode b (end_color Recved (A @ M))] else []) @ X)"
proof -
  have col: "end_color Recved (A @ M) = Flighting \<or> end_color Recved (A @ M) = Lost"
    using pre M by (cases "M = []") (auto simp: in_range_end)
  then have bk: "back_ok Lost b n (end_color Recved (A @ M)) Y X extra"
    using Y stop by (auto simp: back_ok_def)
  have low: "\<forall>s \<in> set (A @ M). state_offset s \<le> b" using A M ab by (fastforce simp: in_range_def)
  have np: "end_color Recved (A @ M) \<noteq> Pending" using col by auto
  note sp = splice_ok [OF front ss low bk disjI1 [OF np] ab]
  have after: "\<forall>s \<in> set (Y @ X). b \<le> state_offset s"
    using stop states_sorted_hd [of "Y @ X"] ss by (fastforce simp: states_ok_def)
  have "lose (seg_color Recved ss p) = Lost" if "a \<le> p" "p < b" for p
  proof -
    have "\<forall>s \<in> set A. state_offset s \<le> p" "\<forall>s \<in> set (Y @ X). p < state_offset s"
      using A after that by fastforce+
    then have "seg_color Recved ss p = seg_color (end_color Recved A) M p"
      using seg_color_append_before [of "Y @ X" p "end_color Recved A" M] ss(2)
      by (simp add: seg_color_append_after)
    moreover have "seg_color (end_color Recved A) M p \<in> {Flighting, Lost}"
      using pre M by (intro seg_color_in) (auto simp: in_range_def)
    ultimately show ?thesis by auto
  qed
  with sp show ?thesis by (simp add: lost_in_def)
qed

text \<open>The range runs into a received part.\<close>

lemma lost_in_recved:
  assumes front: "front_ok Lost a ss L" and ss: "states_ok n ss" "ss = A @ M @ r # rest"
    and A: "\<forall>s \<in> set A. state_offset s \<le> a" and M: "in_range b M"
    and pre: "end_color Recved A = Flighting \<or> end_color Recved A = Lost"
    and r: "state_offset r < b" "state_color r = Recved" "a < state_offset r" and rest: "loss_ok b n rest rest'"
  shows "lost_in a b n ss (L @ r # rest')"
proof -
  have sorted: "states_sorted (A @ M @ r # rest)" using ss by (simp add: states_ok_def)
  have L: "states_sorted L" "\<forall>s \<in> set L. state_offset s \<le> a \<and> state_color s \<noteq> Pending"
    "end_color Recved L = Lost" "\<And>p. p < a \<Longrightarrow> seg_color Recved L p = seg_color Recved ss p"
    using front by (auto simp: front_ok_def)
  have rest': "states_ok n rest'" "\<forall>t \<in> set rest'. state_offset r < state_offset t"
    using rest sorted by (auto simp: loss_ok_def)
  have "states_ok n (L @ r # rest')"
    unfolding states_ok_def
  proof (intro conjI)
    show "states_sorted (L @ r # rest')" using L rest' r(3) by (fastforce simp: states_ok_def)
    show "\<forall>s \<in> set (L @ r # rest'). state_offset s \<le> n"
      using L(2) r(3) rest'(1) ss by (fastforce simp: states_ok_def)
    show "pending_last n (L @ r # rest')"
      using pending_last_append [of n rest' "L @ [r]"] rest'(1) L(2) r(2) by (auto simp: states_ok_def)
  qed
  moreover have "seg_color Recved (L @ r # rest') p =
        (if a \<le> p \<and> p < b then lose (seg_color Recved ss p) else seg_color Recved ss p)"
    if p: "p < n" for p
  proof -
    consider "p < a" | "a \<le> p" "p < state_offset r" | "state_offset r \<le> p" by linarith
    then show ?thesis
    proof cases
      case 1
      with rest'(2) r(3) have "\<forall>s \<in> set (r # rest'). p < state_offset s" by fastforce
      with 1 L(4) show ?thesis by (simp add: seg_color_append_before)
    next
      case 2
      then have "\<forall>s \<in> set (r # rest'). p < state_offset s" "\<forall>s \<in> set L. state_offset s \<le> p"
        "\<forall>s \<in> set A. state_offset s \<le> p" "\<forall>s \<in> set (r # rest). p < state_offset s"
        using rest'(2) L(2) A sorted by fastforce+
      moreover from this have "seg_color Recved ss p = seg_color (end_color Recved A) M p"
        using seg_color_append_before [of "r # rest" p "end_color Recved A" M] ss(2)
        by (simp add: seg_color_append_after)
      moreover have "seg_color (end_color Recved A) M p \<in> {Flighting, Lost}"
        using pre M by (intro seg_color_in) (auto simp: in_range_def)
      ultimately show ?thesis using 2 r(1) L(3) by (auto simp: seg_color_append_before seg_color_after)
    next
      case 3
      then have low: "\<forall>s \<in> set L. state_offset s \<le> p" "\<forall>s \<in> set (A @ M). state_offset s \<le> p"
        using L(2) A r(3) sorted by fastforce+
      have "seg_color Recved ((A @ M) @ r # rest) p = seg_color Recved rest p"
        using 3 r(2) low(2) by (simp add: seg_color_append_after del: append_assoc)
      then have "seg_color Recved ss p = seg_color Recved rest p" using ss(2) by simp
      with 3 r low rest p show ?thesis by (simp add: seg_color_append_after loss_ok_def)
    qed
  qed
  moreover have "states_open n ss \<longrightarrow> states_open n (L @ r # rest')"
    using L(2) r(3) rest ss(2) by (fastforce simp: states_open_def loss_ok_def)
  ultimately show ?thesis by (simp add: lost_in_def)
qed

lemma loss_finish:
  assumes m: "map_ok m" and r: "range_ok m a b"
    and front: "front_ok Lost a (states m) (take ds ss @ S)"
    and k: "k \<le> length ss" "ds \<le> k" "length ss = length (states m)" "drop k ss = drop k (states m)"
    and low: "\<forall>s \<in> set (take k (states m)). state_offset s \<le> a \<and> state_color s \<noteq> Pending"
    and high: "\<forall>s \<in> set (drop k (states m)). a < state_offset s"
    and pre: "pre = end_color Recved (take k (states m))" "pre = Flighting \<or> pre = Lost"
    and ab: "a < b \<or> a = b \<and> b = bm_size m \<and> drop k (states m) = []"
    and S: "S = (case x of None \<Rightarrow> [] | Some s \<Rightarrow> [s])"
  shows "\<exists>ss' de extra pre'. loss_loop (bm_size m) b ss k pre = Some (ss', de, extra, pre') \<and>
     lost_in a b (bm_size m) (states m)
       (drain_tail ds de x (if extra then Some (state_encode b pre') else None) ss')"
proof -
  note bounds = range_ok_bounds [OF m r]
  have ok: "states_ok (bm_size m) (states m)" and n62: "bm_size m < 2 ^ 62" using m by (simp_all add: map_ok_def)
  have "loss_pre b (bm_size m) (drop k ss)"
    using states_ok_drop [OF ok, of k] range_not_Pending [OF m r] k(4)
    by (auto simp: loss_pre_def dest: in_set_dropD)
  from loss_loop_spec [OF _ k(1) bounds(2) n62 this, of pre] length_states_64 [OF m] k(3)
  obtain M d extra Z pre' where
    loop: "loss_loop (bm_size m) b ss k pre = Some (take k ss @ M @ Z, k + d, extra, pre')"
    and w: "walk_ok b (bm_size m) pre (drop k ss) M d extra Z" and pre': "extra \<longrightarrow> pre' = end_color pre M"
    by auto
  let ?A = "take k (states m)" and ?ss2 = "take k ss @ M @ Z"
  let ?y = "if extra then Some (state_encode b pre') else None"
  let ?E = "if extra then [state_encode b (end_color Recved (?A @ M))] else []"
  have lenk: "length (take k ss) = k" using k(1) by simp
  have M: "in_range b M" using w by (simp add: walk_ok_def)
  have A: "\<forall>s \<in> set ?A. state_offset s \<le> a" using low by blast
  have preA: "end_color Recved ?A = Flighting \<or> end_color Recved ?A = Lost" using pre by simp
  have E: "(case ?y of None \<Rightarrow> [] | Some s \<Rightarrow> [s]) = ?E" using pre' pre(1) by simp
  have cut: "drain_tail ds (k + d) x ?y ?ss2 = (take ds ss @ S) @ ?E @ drop (k + d) ?ss2"
    if "k + d \<le> length ?ss2"
    using drain_tail_eq [of ds "k + d" ?ss2 x ?y] that k(2) lenk unfolding E S [symmetric]
    by (simp add: min_absorb1)
  have all: "states m = ?A @ drop k ss" using k(4) by simp
  from w consider
    (recved) r rest rest' where "drop k ss = M @ r # rest" "state_offset r < b" "state_color r = Recved"
      "loss_ok b (bm_size m) rest rest'" "Z = r # rest'" "d = length M" "\<not> extra"
    | (stop) Y X where "drop k ss = M @ Y @ X" "Z = Y @ X" "d = length M + length Y"
      "\<forall>s \<in> set Y. state_color s = Lost"
      "\<not> extra \<and> Y @ X \<noteq> [] \<and> state_offset (hd (Y @ X)) = b \<or>
       Y = [] \<and> extra = (b < bm_size m \<and> end_color pre M = Flighting) \<and> (X \<noteq> [] \<longrightarrow> b < state_offset (hd X))"
    unfolding walk_ok_def by blast
  then have "lost_in a b (bm_size m) (states m) (drain_tail ds (k + d) x ?y ?ss2)"
  proof cases
    case recved
    have "drain_tail ds (k + d) x ?y ?ss2 = (take ds ss @ S) @ r # rest'"
      using cut recved(5,6,7) lenk by simp
    moreover have "a < state_offset r" using high unfolding k(4) [symmetric] recved(1) by simp
    ultimately show ?thesis
      using lost_in_recved [OF front ok _ A M preA recved(2,3) _ recved(4)] all recved(1) by simp
  next
    case stop
    have "drain_tail ds (k + d) x ?y ?ss2 = (take ds ss @ S) @ ?E @ X"
      using cut stop(2,3) lenk by simp
    moreover have "a < b \<or> a = b \<and> b = bm_size m \<and> Y @ X = []" using ab k(4) stop(1) by auto
    ultimately show ?thesis
      using lost_in_splice [OF front ok _ A M preA stop(4) _ _ bounds(2) n62] stop(5) all stop(1) pre(1)
      by simp
  qed
  with loop show ?thesis by blast
qed

lemma may_loss_spec:
  assumes m: "map_ok m" and r: "range_ok m a b"
  shows "\<exists>m'. may_loss a b m = Some m' \<and> map_ok m' \<and> bm_size m' = bm_size m \<and>
     (a < b \<and> open_map m \<longrightarrow> open_map m') \<and>
     (\<forall>p < bm_size m. color_at m' p = (if a \<le> p \<and> p < b then lose (color_at m p) else color_at m p))"
proof -
  have sorted: "states_sorted (states m)" and ok: "states_ok (bm_size m) (states m)"
    and n62: "bm_size m < 2 ^ 62" using m by (simp_all add: map_ok_def states_ok_def)
  note bounds = range_ok_bounds [OF m r]
  have suffix: "\<exists>ss'. may_lost_from (bm_size m) b k (states m) = Some ss' \<and> lost_in a b (bm_size m) (states m) ss'"
    if "k \<le> length (states m)" "end_color Recved (take k (states m)) = Recved"
      "\<forall>s \<in> set (take k (states m)). state_offset s \<le> a \<and> state_color s \<noteq> Pending"
      "\<forall>s \<in> set (drop k (states m)). a < state_offset s" for k
  proof -
    have "loss_pre b (bm_size m) (drop k (states m))"
      using states_ok_drop [OF ok, of k] range_not_Pending [OF m r]
      by (auto simp: loss_pre_def dest: in_set_dropD)
    from may_lost_from_spec [OF length_states_64 [OF m] that(1) bounds(2) n62 this]
    obtain ts' where "may_lost_from (bm_size m) b k (states m) = Some (take k (states m) @ ts')"
      "loss_ok b (bm_size m) (drop k (states m)) ts'" by blast
    with lost_in_suffix [OF _ that(2-4)] ok show ?thesis by auto
  qed
  have "\<exists>ss'. may_loss a b m = Some (m\<lparr>states := ss'\<rparr>) \<and> lost_in a b (bm_size m) (states m) ss'"
  proof (cases "binary_search_by_key state_offset a (states m)")
    case (Found idx)
    note f = search_Found [OF m r Found]
    let ?s = "states m ! idx" and ?ss = "(states m)[idx := set_color (states m ! idx) Lost]"
    have np: "state_color ?s \<noteq> Pending" "\<forall>s \<in> set (take idx (states m)). state_color s \<noteq> Pending"
      using f(1,3) by (auto simp: take_Suc_conv_app_nth)
    have e: "state_color ?s = end_color Recved (take (idx + 1) (states m))"
      using f(1) by (simp add: take_Suc_conv_app_nth)
    have high: "\<forall>s \<in> set (drop (idx + 1) (states m)). a < state_offset s"
      using states_sorted_nth [OF sorted, of idx] f(1,2) by (auto simp: in_set_conv_nth)
    show ?thesis
    proof (cases "state_color ?s")
      case Pending
      with np show ?thesis by simp
    next
      case Recved
      with suffix [of "idx + 1"] f(1,3) high e show ?thesis
        by (fastforce simp: may_loss_def Found Let_def)
    next
      case Flighting
      have front: "front_ok Lost a (states m) (take (same_before ?ss idx Lost + 1) ?ss @ [])"
        using front_recolor [OF sorted f(1,2) _ np(2)] by simp
      from loss_finish [OF m r front _ _ _ _ f(3) high e _ f(4), of None] Flighting f(1) same_before_le [of ?ss idx Lost]
      show ?thesis by (fastforce simp: may_loss_def Found Let_def Flighting)
    next
      case Lost
      have front: "front_ok Lost a (states m) (take (idx + 1) (states m) @ [])"
        using front_keep [OF sorted f(1,2)] f(3) Lost by simp
      from loss_finish [OF m r front _ _ _ _ f(3) high e _ f(4), of None] Lost f(1)
      show ?thesis by (fastforce simp: may_loss_def Found Let_def Lost)
    qed
  next
    case (Missing idx)
    note f = search_Missing [OF m r Missing]
    let ?pre = "end_color Recved (take idx (states m))"
    have np: "\<forall>s \<in> set (take idx (states m)). state_color s \<noteq> Pending"
      and less: "\<forall>s \<in> set (take idx (states m)). state_offset s < a"
      and low: "\<forall>s \<in> set (take idx (states m)). state_offset s \<le> a \<and> state_color s \<noteq> Pending"
      using f(2) by (auto simp: less_imp_le)
    have pre: "idx \<noteq> 0 \<Longrightarrow> state_color (states m ! (idx - 1)) = ?pre"
      using f(1) by (cases idx) (auto simp: take_Suc_conv_app_nth)
    have npre: "?pre \<noteq> Pending" by (rule end_color_not_Pending [OF np]) simp
    show ?thesis
    proof (cases "?pre = Recved")
      case True
      with suffix [OF f(1) _ low f(3)] pre show ?thesis
        by (cases "idx = 0") (auto simp: may_loss_def Missing Let_def)
    next
      case False
      then have "idx \<noteq> 0" by (cases idx) auto
      let ?x = "if ?pre = Flighting then Some (state_encode a Lost) else None"
      have pf: "?pre = Flighting \<or> ?pre = Lost" using False npre by (cases ?pre) auto
      have front: "front_ok Lost a (states m) (take idx (states m) @ (case ?x of None \<Rightarrow> [] | Some s \<Rightarrow> [s]))"
        using front_insert [OF sorted f(1) bounds(4) _ np less f(3)] pf by auto
      from loss_finish [OF m r front f(1) _ _ _ low f(3) refl pf f(4) refl]
      obtain ss' de extra pre' where "loss_loop (bm_size m) b (states m) idx ?pre = Some (ss', de, extra, pre')"
        and l: "lost_in a b (bm_size m) (states m)
          (drain_tail idx de ?x (if extra then Some (state_encode b pre') else None) ss')" by auto
      then have "may_loss a b m = Some (m\<lparr>states :=
          drain_tail idx de ?x (if extra then Some (state_encode b pre') else None) ss'\<rparr>)"
        using \<open>idx \<noteq> 0\<close> False npre by (simp add: may_loss_def Missing Let_def pre [unfolded One_nat_def])
      with l show ?thesis by blast
    qed
  qed
  then show ?thesis using n62 by (auto simp: lost_in_def map_ok_def color_at_def open_map_def)
qed

section \<open>The other operations of the map\<close>

lemma bm_sent_color:
  assumes "map_ok m" and "p < bm_size m"
  shows "color_at m p = Pending \<longleftrightarrow> bm_sent m \<le> p"
proof (cases "states m" rule: rev_cases)
  case Nil
  with assms(2) show ?thesis by (simp add: color_at_def bm_sent_def)
next
  case (snoc xs s)
  have xs: "\<forall>t \<in> set xs. state_color t \<in> - {Pending}"
    and sorted: "\<forall>t \<in> set xs. state_offset t < state_offset s"
    using assms(1) by (auto simp: map_ok_def states_ok_def pending_last_def snoc)
  have "seg_color Recved xs p \<in> - {Pending}" using xs by (intro seg_color_in) auto
  moreover have "seg_color Recved (xs @ [s]) p = state_color s" if "state_offset s \<le> p"
  proof -
    have "\<forall>t \<in> set (xs @ [s]). state_offset t \<le> p" using sorted that by fastforce
    then show ?thesis by (simp add: seg_color_after)
  qed
  ultimately show ?thesis
    using assms(2) snoc by (cases "p < state_offset s") (auto simp: color_at_def bm_sent_def seg_color_append_before)
qed

lemma bm_sent_le: "map_ok m \<Longrightarrow> bm_sent m \<le> bm_size m"
  by (auto simp: bm_sent_def map_ok_def states_ok_def)

lemma bm_sent_geI:
  assumes "map_ok m" and "b \<le> bm_size m" and "\<And>p. p < b \<Longrightarrow> color_at m p \<noteq> Pending"
  shows "b \<le> bm_sent m"
  using bm_sent_color [OF assms(1), of "bm_sent m"] assms(2,3) by (meson le_refl less_le_trans not_le)

lemma extend_to_spec:
  assumes m: "map_ok m" and o: "open_map m" and pos: "bm_size m \<le> pos" "pos < 2 ^ 62"
  shows "\<exists>m'. extend_to pos m = Some (pos, m') \<and> map_ok m' \<and> open_map m' \<and> bm_size m' = pos \<and>
     (\<forall>p < pos. color_at m' p = (if p < bm_size m then color_at m p else Pending))"
proof (cases "bm_size m < pos")
  case False
  with pos m o show ?thesis by (auto simp: extend_to_def)
next
  case True
  have n62: "bm_size m < 2 ^ 62" using pos by simp
  show ?thesis
  proof (cases "states m \<noteq> [] \<and> state_color (last (states m)) = Pending")
    case pend: True
    let ?m' = "m\<lparr>bm_size := pos\<rparr>"
    have e: "extend_to pos m = Some (pos, ?m')" using True pend pos by (simp add: extend_to_def)
    have "color_at ?m' p = Pending" if "bm_size m \<le> p" for p
    proof -
      have "\<forall>s \<in> set (states m). state_offset s \<le> p" using o that by (fastforce simp: open_map_def states_open_def)
      with pend show ?thesis by (simp add: color_at_def seg_color_after end_color_def)
    qed
    moreover have "open_map ?m'" using o True by (fastforce simp: open_map_def states_open_def)
    moreover have "\<forall>s \<in> set (states m). state_offset s < pos" using o pos by (fastforce simp: open_map_def states_open_def)
    then have "map_ok ?m'"
      using m pos pend by (auto simp: map_ok_def states_ok_def pending_last_def less_imp_le)
    ultimately show ?thesis using e by (auto simp: color_at_def not_less)
  next
    case new: False
    let ?s = "state_encode (bm_size m) Pending" and ?m' = "m\<lparr>states := states m @ [state_encode (bm_size m) Pending], bm_size := pos\<rparr>"
    have e: "extend_to pos m = Some (pos, ?m')" using True new pos by (auto simp: extend_to_def)
    have "\<forall>s \<in> set (states m). state_color s \<noteq> Pending"
      using m new pending_last_offset [of "states m" "bm_size m"]
      by (auto simp: map_ok_def states_ok_def)
    then have "map_ok ?m'"
      using m o n62 pos True by (fastforce simp: map_ok_def states_ok_def pending_last_def open_map_def states_open_def)
    moreover have "open_map ?m'" using o n62 True by (fastforce simp: open_map_def states_open_def)
    moreover have "color_at ?m' p = (if p < bm_size m then color_at m p else Pending)" for p
    proof (cases "p < bm_size m")
      case True
      with n62 show ?thesis by (simp add: color_at_def seg_color_append_before)
    next
      case False
      with o n62 have "\<forall>s \<in> set (states m @ [?s]). state_offset s \<le> p" by (fastforce simp: open_map_def states_open_def)
      with False n62 show ?thesis by (simp add: color_at_def seg_color_after)
    qed
    ultimately show ?thesis using e by auto
  qed
qed

lemma shift_states_split:
  "\<exists>xs. ss = xs @ shift_states ss \<and> (\<forall>s \<in> set xs. state_color s = Recved) \<and>
     (shift_states ss \<noteq> [] \<longrightarrow> state_color (hd (shift_states ss)) \<noteq> Recved)"
proof (induction ss)
  case (Cons s ss)
  then obtain xs where "ss = xs @ shift_states ss" "\<forall>s \<in> set xs. state_color s = Recved"
    "shift_states ss \<noteq> [] \<longrightarrow> state_color (hd (shift_states ss)) \<noteq> Recved" by blast
  then show ?case
    by (intro exI [of _ "if state_color s = Recved then s # xs else []"]) auto
qed simp

lemma shift_spec:
  assumes m: "map_ok m" and s: "shift m = (q, m')"
  shows "map_ok m'" "bm_size m' = bm_size m" "color_at m' = color_at m" "q \<le> bm_size m"
    "p < q \<Longrightarrow> color_at m p = Recved" "q < bm_size m \<Longrightarrow> color_at m q \<noteq> Recved"
    "open_map m \<Longrightarrow> open_map m'"
proof -
  obtain xs where split: "states m = xs @ shift_states (states m)" and xs: "\<forall>s \<in> set xs. state_color s = Recved"
    and h: "shift_states (states m) \<noteq> [] \<longrightarrow> state_color (hd (shift_states (states m))) \<noteq> Recved"
    using shift_states_split by blast
  have sorted: "states_sorted (xs @ shift_states (states m))"
    using m split by (metis map_ok_def states_ok_def)
  have m': "m' = m\<lparr>states := shift_states (states m)\<rparr>"
    and q: "q = (if shift_states (states m) = [] then bm_size m else state_offset (hd (shift_states (states m))))"
    using s by (auto simp: shift_def split: list.splits)
  show "bm_size m' = bm_size m" by (simp add: m')
  have "set (shift_states (states m)) \<subseteq> set (states m)" by (subst (2) split) simp
  then show "open_map m \<Longrightarrow> open_map m'" by (auto simp: m' open_map_def states_open_def)
  show "map_ok m'"
    using m states_ok_drop [of "bm_size m" "states m" "length xs"] split
    by (simp add: map_ok_def m') (metis append_eq_conv_conj)
  have col: "color_at m p = seg_color Recved (shift_states (states m)) p" for p
  proof -
    have "seg_color Recved (xs @ shift_states (states m)) p = seg_color Recved (shift_states (states m)) p"
      using sorted by (intro seg_color_skip [OF xs]) auto
    then show ?thesis using split by (simp add: color_at_def)
  qed
  then show "color_at m' = color_at m" by (auto simp: color_at_def m')
  show "q \<le> bm_size m"
    using m split by (auto simp: q map_ok_def states_ok_def) (metis Un_iff hd_in_set set_append)
  show "color_at m p = Recved" if "p < q"
    unfolding col using that sorted states_sorted_hd [of "shift_states (states m)"]
    by (intro seg_color_before) (auto simp: q split: if_splits, fastforce)
  show "color_at m q \<noteq> Recved" if lt: "q < bm_size m"
  proof -
    from lt q obtain t ts where t: "shift_states (states m) = t # ts" by (cases "shift_states (states m)") auto
    have "seg_color (state_color t) ts q = state_color t"
      using sorted t by (intro seg_color_before) (auto simp: q)
    then show ?thesis using h t by (simp add: col q)
  qed
qed

lemma seg_color_map_lose:
  "seg_color (lose c) (map (\<lambda>s. if state_color s = Flighting then set_color s Lost else s) ss) p =
     lose (seg_color c ss p)"
proof (induction ss arbitrary: c)
  case (Cons s ss)
  have "state_color (if state_color s = Flighting then set_color s Lost else s) = lose (state_color s)"
    "state_offset (if state_color s = Flighting then set_color s Lost else s) = state_offset s"
    by (auto simp: lose_def)
  with Cons show ?case by (simp del: if_image_distrib)
qed simp

lemma mark_flighting_lost_spec:
  assumes "map_ok m"
  shows "map_ok (mark_flighting_lost m)" "bm_size (mark_flighting_lost m) = bm_size m"
    "color_at (mark_flighting_lost m) p = lose (color_at m p)"
proof -
  let ?f = "\<lambda>s. if state_color s = Flighting then set_color s Lost else s"
  have off: "map state_offset (map ?f ss) = map state_offset ss" for ss by (induction ss) auto
  have "states_sorted (map ?f (states m))"
    using assms by (simp add: map_ok_def states_ok_def states_sorted_def sorted_wrt_map if_distrib cong: if_cong)
  moreover have "pending_last (bm_size m) (map ?f (states m))"
    using assms by (auto simp: map_ok_def states_ok_def pending_last_def last_map map_butlast [symmetric])
  ultimately show "map_ok (mark_flighting_lost m)"
    using assms by (auto simp: map_ok_def states_ok_def mark_flighting_lost_def)
  show "bm_size (mark_flighting_lost m) = bm_size m" by (simp add: mark_flighting_lost_def)
  show "color_at (mark_flighting_lost m) p = lose (color_at m p)"
    using seg_color_map_lose [of Recved "states m" p] by (simp add: color_at_def mark_flighting_lost_def)
qed

section \<open>Choosing a range\<close>

definition sendable :: "nat \<Rightarrow> nat \<Rightarrow> state \<Rightarrow> bool" where
  "sendable flow_limit window s \<longleftrightarrow> state_offset s < window \<and>
     (state_color s = Lost \<or> state_color s = Pending \<and> flow_limit \<noteq> 0)"

lemma pick_find_Some:
  assumes "pick_find flow_limit window k ss av = (Some i, av')"
  shows "\<exists>xs s ys. ss = xs @ s # ys \<and> i = k + length xs \<and> sendable flow_limit window s \<and>
     (\<forall>x \<in> set xs. \<not> sendable flow_limit window x)"
  using assms
proof (induction flow_limit window k ss av rule: pick_find.induct)
  case (2 flow_limit window k s ss av)
  show ?case
  proof (cases "sendable flow_limit window s")
    case True
    with "2.prems" have "i = k" by (auto simp: sendable_def split: color.splits if_splits)
    with True show ?thesis by (intro exI [of _ "[]"]) simp
  next
    case False
    with 2 have "\<exists>xs s' ys. ss = xs @ s' # ys \<and> i = Suc k + length xs \<and> sendable flow_limit window s' \<and>
       (\<forall>x \<in> set xs. \<not> sendable flow_limit window x)"
      by (auto simp: sendable_def split: color.splits if_splits)
    then obtain xs s' ys where "ss = xs @ s' # ys" "i = Suc k + length xs" "sendable flow_limit window s'"
       "\<forall>x \<in> set xs. \<not> sendable flow_limit window x" by blast
    with False show ?thesis by (intro exI [of _ "s # xs"] exI [of _ s'] exI [of _ ys]) simp
  qed
qed simp

lemma pick_find_None:
  "pick_find flow_limit window k ss av = (None, av') \<Longrightarrow>
     (\<forall>s \<in> set ss. \<not> sendable flow_limit window s) \<and>
     (av' = poll.Pending \<longrightarrow> av = poll.Pending \<and>
        (\<forall>s \<in> set ss. state_color s = Flighting \<or> state_color s = Recved))"
  by (induction flow_limit window k ss av rule: pick_find.induct)
    (auto simp: sendable_def split: color.splits if_splits)

text \<open>The new list in both cases of \<open>pick\<close>.\<close>

lemma pick_split_list:
  fixes ss :: "state list"
  assumes "i \<le> index" and "index < length ss"
  shows "(let ss = (if i < index then ss[i + 1 := e] else vec_insert (i + 1) e ss)
          in if i + 1 < index then vec_drain (i + 1 + 1) (index + 1) ss else ss)
     = take (i + 1) ss @ [e] @ drop (index + 1) ss"
proof -
  have "(let ss = (if i < index then ss[i + 1 := e] else vec_insert (i + 1) e ss)
          in if i + 1 < index then vec_drain (i + 1 + 1) (index + 1) ss else ss)
     = drain_tail (i + 1) (index + 1) None (Some e) ss"
    by (simp add: drain_tail_def put_entry_def Let_def)
  then show ?thesis using drain_tail_eq [of "i + 1" "index + 1" ss None "Some e"] assms by simp
qed

lemma pick_merge_list:
  assumes "i \<le> index" and k: "index < length ss" and len: "length ss < 2 ^ 64"
  shows "\<exists>Y X. drop (index + 1) ss = Y @ X \<and> (\<forall>s \<in> set Y. state_color s = c) \<and>
     (let ss = merge_after ss index c in if i < index then vec_drain (i + 1) (index + 1) ss else ss)
       = take (i + 1) ss @ X"
proof -
  define e where "e = same_after ss index c"
  have e: "index \<le> e" "e < length ss" "\<forall>j. index < j \<longrightarrow> j \<le> e \<longrightarrow> state_color (ss ! j) = c"
    using same_after_fuel_range [OF k len] by (auto simp: e_def same_after_def)
  define Y X where "Y = take (e - index) (drop (index + 1) ss)" and "X = drop (e + 1) ss"
  have "X = drop (e - index) (drop (index + 1) ss)" using e(1) by (simp add: X_def)
  then have "drop (index + 1) ss = Y @ X" unfolding Y_def by (simp only: append_take_drop_id)
  moreover have "\<forall>s \<in> set Y. state_color s = c"
    using e by (auto simp: Y_def in_set_conv_nth)
  moreover have m: "merge_after ss index c = take (index + 1) ss @ X"
    using e by (auto simp: merge_after_def e_def [symmetric] vec_drain_def X_def)
  have "(let ss = merge_after ss index c in if i < index then vec_drain (i + 1) (index + 1) ss else ss)
       = take (i + 1) ss @ X"
    unfolding m using assms(1) k by (auto simp: Let_def vec_drain_def min_def)
  ultimately show ?thesis by blast
qed


lemma pick_Inr:
  assumes m: "map_ok m" and w: "bm_size m \<le> window"
    and pos: "\<forall>p k. predicate p = Some k \<longrightarrow> 0 < k"
    and pick: "pick predicate flow_limit window m = (Inr ((a, b), fresh), m')"
  shows "map_ok m'" "bm_size m' = bm_size m" "a < b \<or> a = b \<and> b = bm_size m" "b \<le> bm_size m"
    "\<exists>k. predicate a = Some k \<and> b \<le> a + k" "fresh \<Longrightarrow> b \<le> a + flow_limit"
    "p < bm_size m \<Longrightarrow> color_at m' p = (if a \<le> p \<and> p < b then Flighting else color_at m p)"
    "a \<le> p \<Longrightarrow> p < b \<Longrightarrow> color_at m p = (if fresh then Pending else Lost)"
    "p < a \<Longrightarrow> color_at m p = Flighting \<or> color_at m p = Recved"
    "open_map m \<Longrightarrow> a < b \<and> open_map m'"
proof -
  let ?n = "bm_size m"
  obtain index av where find: "pick_find flow_limit window 0 (states m) poll.Pending = (Some index, av)"
    using pick by (auto simp: pick_def split: prod.splits option.splits)
  from pick_find_Some [OF this] obtain xs s ys where split: "states m = xs @ s # ys" and idx: "index = length xs"
    and s: "sendable flow_limit window s" and xs: "\<forall>x \<in> set xs. \<not> sendable flow_limit window x" by auto
  define ss where "ss = (states m)[index := set_color s Flighting]"
  define i where "i = same_before ss index Flighting"
  define succ where "succ = (case ys of [] \<Rightarrow> ?n | t # _ \<Rightarrow> state_offset t)"
  have at: "states m ! index = s" "index < length ss" "length ss = length (states m)"
    "drop (index + 1) ss = ys" by (simp_all add: split idx ss_def)
  have i: "i \<le> index" by (simp add: i_def same_before_le)
  have ok: "states_ok ?n (states m)" and sorted: "states_sorted (xs @ s # ys)" and n62: "?n < 2 ^ 62"
    using m by (simp_all add: map_ok_def states_ok_def split)
  have offs: "\<forall>t \<in> set (xs @ s # ys). state_offset t \<le> ?n" using ok by (simp add: states_ok_def split)
  have succ: "state_offset s < succ \<or> state_offset s = succ \<and> succ = ?n \<and> ys = []" "succ \<le> ?n"
    using sorted offs by (cases ys; auto simp: succ_def)+
  have lim: "min (case vec_get ss (index + 1) of Some t \<Rightarrow> state_offset t | None \<Rightarrow> ?n) window = succ"
  proof -
    have "(case vec_get ss (index + 1) of Some t \<Rightarrow> state_offset t | None \<Rightarrow> ?n) = succ"
      by (cases ys) (auto simp: vec_get_def succ_def ss_def split idx nth_append)
    with succ(2) w show ?thesis by simp
  qed
  obtain k where k: "predicate (state_offset s) = Some k"
    using pick by (auto simp: pick_def find at Let_def split: option.splits)
  define allow where "allow = (if state_color s = Lost then k else min k flow_limit)"
  have allow: "0 < allow" "allow \<le> k" "state_color s = Pending \<Longrightarrow> allow \<le> flow_limit"
    using s pos k by (auto simp: allow_def sendable_def)
  let ?e = "state_encode (state_offset s + allow) (state_color s)"
  have res: "pick predicate flow_limit window m =
     (if state_offset s + allow < succ
      then (Inr ((state_offset s, state_offset s + allow), state_color s = Pending),
            m\<lparr>states := take (i + 1) ss @ [?e] @ ys\<rparr>)
      else (Inr ((state_offset s, succ), state_color s = Pending),
            m\<lparr>states := (let ss = merge_after ss index Flighting
               in if i < index then vec_drain (i + 1) (index + 1) ss else ss)\<rparr>))"
  proof -
    have "pick predicate flow_limit window m =
     (if state_offset s + allow < succ
      then (Inr ((state_offset s, state_offset s + allow), state_color s = Pending),
            m\<lparr>states := (let ss = (if i < index then ss[i + 1 := ?e] else vec_insert (i + 1) ?e ss)
          in if i + 1 < index then vec_drain (i + 1 + 1) (index + 1) ss else ss)\<rparr>)
      else (Inr ((state_offset s, succ), state_color s = Pending),
            m\<lparr>states := (let ss = merge_after ss index Flighting
               in if i < index then vec_drain (i + 1) (index + 1) ss else ss)\<rparr>))"
      unfolding pick_def find
      by (simp only: prod.case option.case at(1) k Let_def state_decode_def allow_def [symmetric]
          ss_def [symmetric] i_def [symmetric] lim)
    then show ?thesis unfolding pick_split_list [OF i at(2)] at(4) .
  qed
  have np: "\<forall>x \<in> set xs. state_color x \<noteq> Pending"
    using ok by (auto simp: states_ok_def split pending_last_def butlast_append)
  have front: "front_ok Flighting (state_offset s) (states m) (take (i + 1) ss)"
    using front_recolor [of "states m" index "state_offset s" Flighting] ok np at
    by (simp add: states_ok_def ss_def i_def split idx)
  have a: "a = state_offset s" and fresh: "fresh \<longleftrightarrow> state_color s = Pending"
    using pick by (auto simp: res split: if_splits)
  have b: "b = min (a + allow) succ" using pick by (auto simp: res a split: if_splits)
  have bs: "b \<le> succ" by (simp add: b)
  have all: "states m = (xs @ [s]) @ [] @ [] @ ys" by (simp add: split)
  have low: "\<forall>t \<in> set ((xs @ [s]) @ []). state_offset t \<le> b"
    using sorted succ(1) allow(1) by (auto simp: a b)
  have last: "state_color s = Pending \<longrightarrow> ys = []"
    using ok by (auto simp: states_ok_def split pending_last_def butlast_append split: if_splits)
  have main: "states_ok ?n (states m') \<and> m' = m\<lparr>states := states m'\<rparr> \<and>
     (a < b \<longrightarrow> states_open ?n (states m) \<longrightarrow> states_open ?n (states m')) \<and>
     (\<forall>p < ?n. seg_color Recved (states m') p = (if a \<le> p \<and> p < b then Flighting else seg_color Recved (states m) p))"
  proof (cases "state_offset s + allow < succ")
    case True
    then have b': "b = a + allow" "a < b" "b < ?n" using allow(1) succ(2) by (auto simp: a b)
    have m': "m' = m\<lparr>states := take (i + 1) ss @ [state_encode b (end_color Recved ((xs @ [s]) @ []))] @ ys\<rparr>"
      using pick True by (simp add: res a b')
    have bk: "back_ok Flighting b ?n (end_color Recved ((xs @ [s]) @ [])) [] ys True"
      using s b' True by (auto simp: back_ok_def sendable_def succ_def a split: list.splits)
    show ?thesis
      using splice_ok [OF front ok all low bk _ _ _ n62, folded a] b' last m' by simp
  next
    case False
    then have b': "b = succ" by (simp add: a b)
    obtain Y X where YX: "drop (index + 1) ss = Y @ X" "\<forall>t \<in> set Y. state_color t = Flighting"
     "(let ss = merge_after ss index Flighting in if i < index then vec_drain (i + 1) (index + 1) ss else ss)
       = take (i + 1) ss @ X"
      using pick_merge_list [OF i at(2), of Flighting] length_states_64 [OF m] at(3) by auto
    have ys: "ys = Y @ X" using YX(1) at(4) by simp
    have m': "m' = m\<lparr>states := take (i + 1) ss @ X\<rparr>"
      using pick False unfolding res YX(3) by simp
    have bk: "back_ok Flighting b ?n (end_color Recved ((xs @ [s]) @ [])) Y X False"
      using YX(2) unfolding back_ok_def ys [symmetric] b' succ_def
      by (cases ys) (use ys in auto)
    show ?thesis
      using splice_ok [OF front ok _ _ bk _ _ _ n62, folded a]
        low last m' succ b' ys all a by simp
  qed
  have size: "bm_size m' = ?n" using main by (metis buf_map.select_convs(2) buf_map.surjective buf_map.update_convs(1))
  show "bm_size m' = bm_size m" by (rule size)
  show "map_ok m'" using main size n62 by (simp add: map_ok_def)
  show "a < b \<and> open_map m'" if "open_map m"
  proof -
    have "state_offset s < ?n" using that by (simp add: open_map_def states_open_def split)
    then have "a < b" using succ allow(1) by (auto simp: a b)
    with that main size show ?thesis by (simp add: open_map_def)
  qed
  show "a < b \<or> a = b \<and> b = bm_size m" "b \<le> bm_size m"
    using succ allow(1) by (auto simp: a b)
  show "\<exists>k. predicate a = Some k \<and> b \<le> a + k" using k allow(2) by (auto simp: a b)
  show "fresh \<Longrightarrow> b \<le> a + flow_limit" using allow(3) fresh by (auto simp: b)
  show "p < bm_size m \<Longrightarrow> color_at m' p = (if a \<le> p \<and> p < b then Flighting else color_at m p)"
    using main by (simp add: color_at_def)
  show "color_at m p = (if fresh then Pending else Lost)" if "a \<le> p" "p < b"
  proof -
    have "\<forall>t \<in> set (xs @ [s]). state_offset t \<le> p" using sorted that(1) by (auto simp: a)
    moreover have "\<forall>t \<in> set ys. p < state_offset t"
      using that(2) bs sorted states_sorted_hd [of ys] by (cases ys) (auto simp: succ_def)
    ultimately have "color_at m p = state_color s"
      using seg_color_append_after [of "xs @ [s]" p Recved ys] by (simp add: color_at_def split seg_color_before)
    with s fresh show ?thesis by (auto simp: sendable_def)
  qed
  show "color_at m p = Flighting \<or> color_at m p = Recved" if "p < a"
  proof -
    have "\<forall>x \<in> set xs. state_color x \<in> {Flighting, Recved}"
    proof
      fix x assume x: "x \<in> set xs"
      with sorted s have "state_offset x < window" by (auto simp: sendable_def)
      with x xs np show "state_color x \<in> {Flighting, Recved}"
        by (cases "state_color x") (auto simp: sendable_def)
    qed
    then have "seg_color Recved xs p \<in> {Flighting, Recved}" by (intro seg_color_in) auto
    moreover have "\<forall>t \<in> set (s # ys). p < state_offset t" using sorted that by (auto simp: a)
    ultimately show ?thesis by (simp add: color_at_def split seg_color_append_before)
  qed
qed

lemma pick_Inl:
  assumes "pick predicate flow_limit window m = (Inl r, m')"
  shows "m' = m" and "r = poll.Pending \<Longrightarrow> color_at m p = Flighting \<or> color_at m p = Recved"
proof -
  show "m' = m"
    using assms by (auto simp: pick_def Let_def state_decode_def split: prod.splits option.splits if_splits)
  assume r: "r = poll.Pending"
  with assms have "pick_find flow_limit window 0 (states m) poll.Pending = (None, poll.Pending)"
    by (auto simp: pick_def Let_def state_decode_def split: prod.splits option.splits if_splits)
  from pick_find_None [OF this] have "\<forall>s \<in> set (states m). state_color s \<in> {Flighting, Recved}" by auto
  then have "seg_color Recved (states m) p \<in> {Flighting, Recved}" by (intro seg_color_in) auto
  then show "color_at m p = Flighting \<or> color_at m p = Recved" by (simp add: color_at_def)
qed

text \<open>Everything before \<open>bm_sent\<close> stays sent.\<close>

lemma bm_sent_mono:
  assumes "map_ok m" and "map_ok m'" and "bm_size m \<le> bm_size m'"
    and "\<And>p. p < bm_size m \<Longrightarrow> color_at m p \<noteq> Pending \<Longrightarrow> color_at m' p \<noteq> Pending"
  shows "bm_sent m \<le> bm_sent m'"
proof (rule bm_sent_geI [OF assms(2)])
  show "bm_sent m \<le> bm_size m'" using bm_sent_le [OF assms(1)] assms(3) by simp
  fix p assume "p < bm_sent m"
  with bm_sent_le [OF assms(1)] bm_sent_color [OF assms(1), of p] assms(4) [of p]
  show "color_at m' p \<noteq> Pending" by simp
qed

section \<open>The send buffer against the written stream\<close>

text \<open>
  \<open>sb_ok W b\<close>: the buffer \<open>b\<close> holds the stream \<open>W\<close>. What is left in the queue is the part of \<open>W\<close> from
  the buffer's offset on, the map covers what the limit allows, and the offset is the first
  byte that is not acknowledged.
\<close>

definition sb_ok :: "byte list \<Rightarrow> send_buf \<Rightarrow> bool" where
  "sb_ok W b \<longleftrightarrow> map_ok (sb_state b) \<and> length W < 2 ^ 62 \<and>
     bm_size (sb_state b) = min (length W) (sb_max_data b) \<and>
     sb_offset b \<le> bm_size (sb_state b) \<and> concat (sb_data b) = drop (sb_offset b) W \<and> [] \<notin> set (sb_data b) \<and>
     (\<forall>p < sb_offset b. color_at (sb_state b) p = Recved) \<and>
     (sb_offset b < bm_size (sb_state b) \<longrightarrow> color_at (sb_state b) (sb_offset b) \<noteq> Recved)"

lemma written_length: "sb_ok W b \<Longrightarrow> written b = length W"
  by (auto simp: sb_ok_def written_def simp flip: length_concat)

lemma with_capacity_ok: "sb_ok [] (with_capacity n)" "open_map (sb_state (with_capacity n))"
  by (simp_all add: sb_ok_def with_capacity_def empty_map_def map_ok_def states_ok_def pending_last_def
      open_map_def states_open_def)

text \<open>Appending to the map, for \<open>write\<close> and for \<open>extend\<close>.\<close>

lemma sb_grow:
  assumes ok: "sb_ok W b" and op: "open_map (sb_state b)"
    and W': "length (W @ d) < 2 ^ 62" "sb_max_data b \<le> limit" "[] \<notin> set ds" "concat ds = d"
  shows "\<exists>m'. extend_to (min (length (W @ d)) limit) (sb_state b) = Some (bm_size m', m') \<and>
     sb_ok (W @ d) (b\<lparr>sb_state := m', sb_data := sb_data b @ ds, sb_max_data := limit\<rparr>) \<and> open_map m' \<and>
     bm_sent (sb_state b) \<le> bm_sent m' \<and> bm_size m' = min (length (W @ d)) limit \<and>
     (\<forall>p < bm_size m'. color_at m' p =
        (if p < bm_size (sb_state b) then color_at (sb_state b) p else Pending))"
proof -
  let ?m = "sb_state b" and ?n = "min (length (W @ d)) limit"
  have m: "map_ok ?m" and size: "bm_size ?m = min (length W) (sb_max_data b)"
    and off: "sb_offset b \<le> bm_size ?m" using ok unfolding sb_ok_def by blast+
  have "bm_size ?m \<le> ?n" "?n < 2 ^ 62" using W' size by auto
  from extend_to_spec [OF m op this] obtain m' where
    m': "extend_to ?n ?m = Some (?n, m')" "map_ok m'" "open_map m'" "bm_size m' = ?n"
    "\<forall>p < ?n. color_at m' p = (if p < bm_size ?m then color_at ?m p else Pending)" by blast
  have "bm_sent ?m \<le> bm_sent m'"
    using m'(4,5) \<open>bm_size ?m \<le> ?n\<close> by (intro bm_sent_mono [OF m m'(2)]) auto
  moreover have "sb_ok (W @ d) (b\<lparr>sb_state := m', sb_data := sb_data b @ ds, sb_max_data := limit\<rparr>)"
    using ok m' W' off \<open>bm_size ?m \<le> ?n\<close> by (auto simp: sb_ok_def)
  ultimately show ?thesis using m' by auto
qed

lemma sb_write_spec:
  assumes ok: "sb_ok W b" and op: "open_map (sb_state b)" and len: "length W + length d < 2 ^ 62"
  shows "\<exists>b'. sb_write d b = Some b' \<and> sb_ok (W @ d) b' \<and> open_map (sb_state b') \<and>
     bm_sent (sb_state b) \<le> bm_sent (sb_state b') \<and> sb_max_data b' = sb_max_data b \<and>
     (\<forall>p < bm_size (sb_state b'). color_at (sb_state b') p =
        (if p < bm_size (sb_state b) then color_at (sb_state b) p else Pending))"
proof (cases "d = []")
  case True
  with ok op show ?thesis by (auto simp: sb_write_def sb_ok_def)
next
  case False
  with sb_grow [OF ok op, of d "sb_max_data b" "[d]"] len show ?thesis
    by (auto simp: sb_write_def written_length [OF ok])
qed

lemma sb_extend_spec:
  assumes ok: "sb_ok W b" and op: "open_map (sb_state b)" and limit: "sb_max_data b \<le> limit"
  shows "\<exists>b'. sb_extend limit b = Some b' \<and> sb_ok W b' \<and> open_map (sb_state b') \<and>
     bm_sent (sb_state b) \<le> bm_sent (sb_state b') \<and> sb_max_data b' = limit \<and>
     (\<forall>p < bm_size (sb_state b'). color_at (sb_state b') p =
        (if p < bm_size (sb_state b) then color_at (sb_state b) p else Pending))"
proof -
  have swap: "b\<lparr>sb_max_data := limit, sb_state := m\<rparr> = b\<lparr>sb_state := m, sb_max_data := limit\<rparr>" for m
    by simp
  have "length W < 2 ^ 62" using ok by (simp add: sb_ok_def)
  with sb_grow [OF ok op, of "[]" limit "[]"] limit show ?thesis
    unfolding sb_extend_def swap
    by (auto simp: written_length [OF ok])
qed

lemma concat_slices:
  assumes "lo \<le> hi"
  shows "concat (slices offset lo hi ds) = drop (lo - offset) (take (hi - offset) (concat ds))"
proof (induction ds arbitrary: offset)
  case (Cons d ds)
  let ?e = "offset + length d"
  have split: "drop (lo - offset) (take (hi - offset) (concat (d # ds))) =
      drop (lo - offset) (take (hi - offset) d) @
      drop (lo - offset - min (length d) (hi - offset)) (take (hi - ?e) (concat ds))"
    by simp
  consider "lo < ?e" "offset < hi" | "?e \<le> lo" | "hi \<le> offset" by linarith
  then show ?case
  proof cases
    case 1
    then have "lo - offset - min (length d) (hi - offset) = lo - ?e" using assms by auto
    moreover have "(if lo \<le> offset \<and> ?e \<le> hi then d else drop (lo - offset) (take (min hi ?e - offset) d))
        = drop (lo - offset) (take (hi - offset) d)"
      by (auto simp: min_def)
    ultimately show ?thesis using 1 Cons.IH unfolding split by simp
  next
    case 2
    then have "lo - offset - min (length d) (hi - offset) = lo - ?e" using assms by auto
    with 2 Cons.IH show ?thesis unfolding split by simp
  next
    case 3
    with Cons.IH show ?thesis unfolding split by simp
  qed
qed simp

lemma concat_drain_data: "concat (drain_data n ds) = drop n (concat ds)"
  by (induction n ds rule: drain_data.induct) auto

lemma drain_data_nonempty: "[] \<notin> set ds \<Longrightarrow> [] \<notin> set (drain_data n ds)"
  by (induction n ds rule: drain_data.induct) auto


lemma pick_up_spec:
  assumes ok: "sb_ok W b" and pos: "\<forall>p k. predicate p = Some k \<longrightarrow> 0 < k"
    and pick: "pick_up predicate flow_limit b = (Inr ((lo, hi), fresh, chunks), b')"
  shows "sb_ok W b'" "concat chunks = take (hi - lo) (drop lo W)" "hi \<le> length W"
    "range_ok (sb_state b') lo hi" "bm_sent (sb_state b) \<le> bm_sent (sb_state b')"
    "open_map (sb_state b) \<Longrightarrow> lo < hi \<and> open_map (sb_state b')"
    "\<exists>m'. pick predicate flow_limit (sb_max_data b) (sb_state b) = (Inr ((lo, hi), fresh), m') \<and>
       b' = b\<lparr>sb_state := m'\<rparr>"
proof -
  let ?m = "sb_state b"
  obtain m' where p: "pick predicate flow_limit (sb_max_data b) ?m = (Inr ((lo, hi), fresh), m')"
    and b': "b' = b\<lparr>sb_state := m'\<rparr>" and chunks: "chunks = slices (sb_offset b) lo hi (sb_data b)"
    using pick by (auto simp: pick_up_def split: prod.splits sum.splits)
  show "\<exists>m'. pick predicate flow_limit (sb_max_data b) ?m = (Inr ((lo, hi), fresh), m') \<and> b' = b\<lparr>sb_state := m'\<rparr>"
    using p b' by blast
  have m: "map_ok ?m" and size: "bm_size ?m = min (length W) (sb_max_data b)"
    and off: "sb_offset b \<le> bm_size ?m" and data: "concat (sb_data b) = drop (sb_offset b) W"
    and rcvd: "\<forall>p < sb_offset b. color_at ?m p = Recved"
    and first: "sb_offset b < bm_size ?m \<longrightarrow> color_at ?m (sb_offset b) \<noteq> Recved"
    using ok unfolding sb_ok_def by blast+
  have w: "bm_size ?m \<le> sb_max_data b" using size by simp
  note r = pick_Inr [OF m w pos p]
  have lo: "sb_offset b \<le> lo"
  proof (rule ccontr)
    assume "\<not> sb_offset b \<le> lo"
    with rcvd r(3) off have "color_at ?m lo = Recved" "lo < hi" by auto
    with r(8) [of lo] show False by (auto split: if_splits)
  qed
  have "lo \<le> hi" using r(3) by auto
  show "hi \<le> length W" using r(4) size by simp
  show "concat chunks = take (hi - lo) (drop lo W)"
    using lo \<open>lo \<le> hi\<close> by (simp add: chunks concat_slices data drop_take)
  show "sb_ok W b'"
    using ok r(1,2) r(7) [of "sb_offset b"] r(7) lo by (auto simp: sb_ok_def b')
  show sent: "bm_sent (sb_state b) \<le> bm_sent (sb_state b')"
    using r(2,7) by (intro bm_sent_mono [OF m]) (auto simp: b' r(1))
  have "hi \<le> bm_sent m'"
  proof (rule bm_sent_geI [OF r(1)])
    show "hi \<le> bm_size m'" using r(2,4) by simp
    show "color_at m' p \<noteq> Pending" if "p < hi" for p
      using r(7) [of p] r(9) [of p] r(4) that by (cases "p < lo") auto
  qed
  with r(2,3) bm_sent_le [OF r(1)] show "range_ok (sb_state b') lo hi" by (auto simp: range_ok_def b')
  show "open_map (sb_state b) \<Longrightarrow> lo < hi \<and> open_map (sb_state b')" using r(10) by (simp add: b')
qed

lemma on_data_acked_spec:
  assumes ok: "sb_ok W b" and r: "range_ok (sb_state b) lo hi"
  shows "\<exists>b'. on_data_acked lo hi b = Some b' \<and> sb_ok W b' \<and> sb_max_data b' = sb_max_data b \<and>
     bm_sent (sb_state b) \<le> bm_sent (sb_state b') \<and>
     (lo < hi \<and> open_map (sb_state b) \<longrightarrow> open_map (sb_state b')) \<and>
     (\<forall>p < bm_size (sb_state b). color_at (sb_state b') p =
        (if lo \<le> p \<and> p < hi then Recved else color_at (sb_state b) p))"
proof -
  let ?m = "sb_state b"
  have m: "map_ok ?m" and size: "bm_size ?m = min (length W) (sb_max_data b)"
    and off: "sb_offset b \<le> bm_size ?m" and data: "concat (sb_data b) = drop (sb_offset b) W"
    and rcvd: "\<forall>p < sb_offset b. color_at ?m p = Recved" and ne: "[] \<notin> set (sb_data b)"
    using ok unfolding sb_ok_def by blast+
  from ack_rcvd_spec [OF m r] obtain m1 where
    m1: "ack_rcvd lo hi ?m = Some m1" "map_ok m1" "bm_size m1 = bm_size ?m" "lo < hi \<and> open_map ?m \<longrightarrow> open_map m1"
    "\<forall>p < bm_size ?m. color_at m1 p = (if lo \<le> p \<and> p < hi then Recved else color_at ?m p)" by blast
  obtain q m2 where sh: "shift m1 = (q, m2)" by (cases "shift m1")
  note s = shift_spec [OF m1(2) sh]
  have q: "sb_offset b \<le> q"
  proof (rule ccontr)
    assume "\<not> sb_offset b \<le> q"
    with rcvd m1(5) off s(6) m1(3) show False by (auto split: if_splits)
  qed
  let ?b' = "b\<lparr>sb_offset := q, sb_data := drain_data (q - sb_offset b) (sb_data b), sb_state := m2\<rparr>"
  have acked: "on_data_acked lo hi b = Some ?b'"
  proof (cases "sb_offset b < q")
    case False
    with q have "q = sb_offset b" by simp
    moreover have "drain_data 0 ds = ds" for ds by (cases ds) auto
    ultimately show ?thesis by (simp add: on_data_acked_def m1(1) sh)
  qed (simp add: on_data_acked_def m1(1) sh)
  have "sb_ok W ?b'"
    using ok m1 s q size ne data
    by (auto simp: sb_ok_def concat_drain_data drain_data_nonempty)
  moreover have "bm_sent ?m \<le> bm_sent m2"
    using m1(3,5) s(1-3) by (intro bm_sent_mono [OF m]) auto
  ultimately show ?thesis using acked m1 s by auto
qed

lemma may_loss_data_spec:
  assumes ok: "sb_ok W b" and r: "range_ok (sb_state b) lo hi"
  shows "\<exists>b'. may_loss_data lo hi b = Some b' \<and> sb_ok W b' \<and> sb_max_data b' = sb_max_data b \<and>
     bm_sent (sb_state b) \<le> bm_sent (sb_state b') \<and>
     (lo < hi \<and> open_map (sb_state b) \<longrightarrow> open_map (sb_state b')) \<and>
     (\<forall>p < bm_size (sb_state b). color_at (sb_state b') p =
        (if lo \<le> p \<and> p < hi then lose (color_at (sb_state b) p) else color_at (sb_state b) p))"
proof -
  let ?m = "sb_state b"
  have m: "map_ok ?m" and off: "sb_offset b \<le> bm_size ?m" using ok unfolding sb_ok_def by blast+
  from may_loss_spec [OF m r] obtain m' where
    m': "may_loss lo hi ?m = Some m'" "map_ok m'" "bm_size m' = bm_size ?m" "lo < hi \<and> open_map ?m \<longrightarrow> open_map m'"
    "\<forall>p < bm_size ?m. color_at m' p = (if lo \<le> p \<and> p < hi then lose (color_at ?m p) else color_at ?m p)" by blast
  have "sb_ok W (b\<lparr>sb_state := m'\<rparr>)"
    using ok m' by (auto simp: sb_ok_def lose_def)
  moreover have "bm_sent ?m \<le> bm_sent m'"
    using m' by (intro bm_sent_mono [OF m]) (auto simp: lose_def)
  ultimately show ?thesis using m' by (auto simp: may_loss_data_def)
qed

lemma multipath_handshake_spec:
  assumes ok: "sb_ok W b"
  shows "sb_ok W (multipath_handshake b)"
    "color_at (sb_state (multipath_handshake b)) p = lose (color_at (sb_state b) p)"
proof -
  have m: "map_ok (sb_state b)" using ok by (simp add: sb_ok_def)
  show "sb_ok W (multipath_handshake b)"
    using ok mark_flighting_lost_spec [OF m] by (auto simp: sb_ok_def multipath_handshake_def lose_def)
  show "color_at (sb_state (multipath_handshake b)) p = lose (color_at (sb_state b) p)"
    by (simp add: multipath_handshake_def mark_flighting_lost_spec [OF m])
qed

lemma is_all_rcvd_iff:
  assumes ok: "sb_ok W b" and "length W \<le> sb_max_data b"
  shows "is_all_rcvd b \<longleftrightarrow> (\<forall>p < length W. color_at (sb_state b) p = Recved)"
proof -
  have "sb_data b = [] \<longleftrightarrow> concat (sb_data b) = []"
    using ok by (cases "sb_data b") (auto simp: sb_ok_def)
  moreover have "concat (sb_data b) = drop (sb_offset b) W" using ok unfolding sb_ok_def by blast
  ultimately have "is_all_rcvd b \<longleftrightarrow> length W \<le> sb_offset b" by (simp only: is_all_rcvd_def drop_eq_Nil)
  moreover have "bm_size (sb_state b) = length W" "sb_offset b \<le> length W" using ok assms(2) by (auto simp: sb_ok_def)
  ultimately show ?thesis using ok by (auto simp: sb_ok_def)
qed

section \<open>Properties\<close>

text \<open>
  C19. When \<open>pick\<close> chooses a range on a well-formed map inside the send window, the chosen bytes
  all had one colour: never sent (a fresh range) or lost. They become in flight, no other byte
  changes, the map stays well formed. The range respects the caller's limit, and the flow
  control limit when it is fresh; every byte before it is in flight or received, so the
  earliest byte that needs sending is sent first.
\<close>

theorem pick_chooses_earliest_range:
  assumes "map_ok m" and "bm_size m \<le> window" and "\<forall>p k. predicate p = Some k \<longrightarrow> 0 < k"
    and "pick predicate flow_limit window m = (Inr ((a, b), fresh), m')"
  shows "map_ok m' \<and> bm_size m' = bm_size m \<and> b \<le> bm_size m \<and> (a < b \<or> a = b \<and> b = bm_size m) \<and>
     (\<exists>k. predicate a = Some k \<and> b \<le> a + k) \<and> (fresh \<longrightarrow> b \<le> a + flow_limit) \<and>
     (\<forall>p. a \<le> p \<and> p < b \<longrightarrow> color_at m p = (if fresh then Pending else Lost)) \<and>
     (\<forall>p < bm_size m. color_at m' p = (if a \<le> p \<and> p < b then Flighting else color_at m p)) \<and>
     (\<forall>p < a. color_at m p = Flighting \<or> color_at m p = Recved)"
  using pick_Inr [OF assms] by blast

definition sample_map :: buf_map where
  "sample_map = \<lparr>states = [state_encode 0 Recved, state_encode 2 Flighting, state_encode 5 Lost,
     state_encode 9 Flighting, state_encode 12 Pending], bm_size = 20\<rparr>"

lemma sample_map_ok: "map_ok sample_map" "open_map sample_map" "bm_sent sample_map = 12"
  by (simp_all add: sample_map_def map_ok_def states_ok_def pending_last_def open_map_def states_open_def
      bm_sent_def)

theorem pick_chooses_earliest_range_witness:
  "\<exists>m'. pick (\<lambda>_. Some 3) 100 50 sample_map = (Inr ((5, 8), False), m') \<and> map_ok m' \<and>
     color_at m' 4 = Flighting \<and> color_at m' 7 = Flighting \<and> color_at m' 8 = Lost"
proof -
  let ?r = "pick (\<lambda>_. Some 3) 100 50 sample_map"
  have r: "fst ?r = Inr ((5, 8), False)"
    by code_simp
  obtain m' where m': "?r = (Inr ((5, 8), False), m')" using r by (cases ?r) auto
  have "map_ok m' \<and> (\<forall>p < 20. color_at m' p = (if 5 \<le> p \<and> p < 8 then Flighting else color_at sample_map p))"
    using pick_chooses_earliest_range [OF sample_map_ok(1) _ _ m'] by (simp add: sample_map_def)
  with m' show ?thesis by (simp add: sample_map_def color_at_def)
qed

text \<open>
  An acknowledged range of sent bytes is coloured received, whatever mixture of in-flight,
  lost and received entries it covers and wherever it starts and ends inside them; every other
  byte keeps its colour, the map stays well formed and no assertion of \<open>ack_rcvd\<close> fails.
\<close>

theorem ack_rcvd_recolors:
  assumes "map_ok m" and "range_ok m a b"
  shows "\<exists>m'. ack_rcvd a b m = Some m' \<and> map_ok m' \<and> bm_size m' = bm_size m \<and>
     (\<forall>p < bm_size m. color_at m' p = (if a \<le> p \<and> p < b then Recved else color_at m p))"
  using ack_rcvd_spec [OF assms] by blast

theorem ack_rcvd_recolors_witness:
  "range_ok sample_map 3 10 \<and>
   (\<exists>m'. ack_rcvd 3 10 sample_map = Some m' \<and> map_ok m' \<and> color_at m' 2 = Flighting \<and>
      color_at m' 6 = Recved \<and> color_at m' 10 = Flighting)"
proof -
  have r: "range_ok sample_map 3 10" by (simp add: range_ok_def sample_map_ok)
  with ack_rcvd_recolors [OF sample_map_ok(1) r] show ?thesis
    by (auto simp: sample_map_def color_at_def)
qed

text \<open>
  A range reported lost turns exactly its in-flight bytes into lost ones: bytes of the
  range that were received meanwhile stay received, bytes outside keep their colour, the map
  stays well formed and no assertion of \<open>may_loss\<close> and its helper fails.
\<close>

theorem may_loss_recolors:
  assumes "map_ok m" and "range_ok m a b"
  shows "\<exists>m'. may_loss a b m = Some m' \<and> map_ok m' \<and> bm_size m' = bm_size m \<and>
     (\<forall>p < bm_size m. color_at m' p =
        (if a \<le> p \<and> p < b \<and> color_at m p = Flighting then Lost else color_at m p))"
  using may_loss_spec [OF assms] by (auto simp: lose_def)

theorem may_loss_recolors_witness:
  "range_ok sample_map 0 11 \<and>
   (\<exists>m'. may_loss 0 11 sample_map = Some m' \<and> map_ok m' \<and> color_at m' 1 = Recved \<and>
      color_at m' 3 = Lost \<and> color_at m' 10 = Lost \<and> color_at m' 11 = Flighting)"
proof -
  have r: "range_ok sample_map 0 11" by (simp add: range_ok_def sample_map_ok)
  with may_loss_recolors [OF sample_map_ok(1) r] show ?thesis
    by (auto simp: sample_map_def color_at_def)
qed

text \<open>
  C12. The chunks that \<open>pick_up\<close> hands to the packet writer are, put together, exactly the bytes
  written to the stream at the offsets of the range, also for a retransmission after part of
  the queue was dropped; the range may later be acknowledged or reported lost.
\<close>

theorem pick_up_sends_written_bytes:
  assumes "sb_ok W b" and "\<forall>p k. predicate p = Some k \<longrightarrow> 0 < k"
    and "pick_up predicate flow_limit b = (Inr ((lo, hi), fresh, chunks), b')"
  shows "sb_ok W b' \<and> hi \<le> length W \<and> concat chunks = take (hi - lo) (drop lo W) \<and>
     range_ok (sb_state b') lo hi"
  using pick_up_spec [OF assms] by blast

theorem pick_up_sends_written_bytes_witness:
  "\<exists>b b'. sb_write [1, 2, 3, 4, 5] (with_capacity 10) = Some b \<and>
     pick_up (\<lambda>_. Some 3) 100 b = (Inr ((0, 3), True, [[1, 2, 3]]), b') \<and> sb_ok [1, 2, 3, 4, 5] b'"
proof -
  define b where "b = \<lparr>sb_offset = 0, sb_data = [[1, 2, 3, 4, 5]], sb_max_data = 10,
      sb_state = \<lparr>states = [state_encode 0 Pending], bm_size = length [1, 2, 3, 4, 5 :: byte]\<rparr>\<rparr>"
  have w: "sb_write [1, 2, 3, 4, 5] (with_capacity 10) = Some b"
    unfolding b_def by (simp add: sb_write_def with_capacity_def empty_map_def extend_to_def written_def)
  have ok: "sb_ok [1, 2, 3, 4, 5] b"
    using sb_write_spec [OF with_capacity_ok, of "[1, 2, 3, 4, 5]" 10] w by auto
  let ?r = "pick_up (\<lambda>_. Some 3) 100 b"
  have r: "fst ?r = Inr ((0, 3), True, [[1, 2, 3]])"
    unfolding b_def by code_simp
  obtain b' where b': "?r = (Inr ((0, 3), True, [[1, 2, 3]]), b')" using r by (cases ?r) auto
  with pick_up_sends_written_bytes [OF ok _ b'] w show ?thesis by auto
qed

text \<open>
  The send buffer reports that everything was received exactly when every byte written to
  the stream is acknowledged, in any state its operations reach and as long as the limit covers
  what was written.
\<close>

theorem is_all_rcvd_exact:
  assumes "sb_ok W b" and "length W \<le> sb_max_data b"
  shows "is_all_rcvd b \<longleftrightarrow> (\<forall>p < length W. color_at (sb_state b) p = Recved)"
  by (rule is_all_rcvd_iff [OF assms])

theorem is_all_rcvd_exact_witness:
  "is_all_rcvd \<lparr>sb_offset = 2, sb_data = [], sb_max_data = 9,
      sb_state = \<lparr>states = [], bm_size = 2\<rparr>\<rparr> \<longleftrightarrow> (\<forall>p < (2::nat). color_at \<lparr>states = [], bm_size = 2\<rparr> p = Recved)"
proof -
  let ?b = "\<lparr>sb_offset = 2, sb_data = [], sb_max_data = 9, sb_state = \<lparr>states = [], bm_size = 2\<rparr>\<rparr> :: send_buf"
  have "sb_ok [7, 8] ?b"
    by (simp add: sb_ok_def map_ok_def states_ok_def pending_last_def color_at_def)
  from is_all_rcvd_exact [OF this] show ?thesis by (simp add: numeral_2_eq_2)
qed

end
