(* ===== verification/Stream_Transfer.thy ===== *)
theory Stream_Transfer
  imports Recv_Buf Send_Buf
begin

text \<open>
  One stream from the sending application to the receiving one: the send buffer of
  \<open>qrecovery/src/send/sndbuf.rs\<close>, a network that may lose, repeat and reorder frames, and the
  receive buffer of \<open>qrecovery/src/recv/rcvbuf.rs\<close>. The system is a step relation whose steps are
  the operations of the two buffers; the network keeps every frame that was ever sent and
  delivers any of them any number of times, and acknowledgements and loss reports arrive in any
  order for any frame.

  The locale \<open>retransmitter\<close> states what the system needs of a send buffer, as \<open>reassembly\<close> of
  \<open>Recv_Buf\<close> does for the receive buffer; the invariant of the system rests on both.
\<close>

section \<open>The contract of the send buffer\<close>

locale retransmitter =
  fixes wr :: "byte list \<Rightarrow> 's \<Rightarrow> 's option"
    and grant :: "nat \<Rightarrow> 's \<Rightarrow> 's option"
    and pk :: "(nat \<Rightarrow> nat option) \<Rightarrow> nat \<Rightarrow> 's \<Rightarrow>
      (unit poll + ((nat \<times> nat) \<times> bool \<times> byte list list)) \<times> 's"
    and acked :: "nat \<Rightarrow> nat \<Rightarrow> 's \<Rightarrow> 's option"
    and lost :: "nat \<Rightarrow> nat \<Rightarrow> 's \<Rightarrow> 's option"
    and holds :: "byte list \<Rightarrow> 's \<Rightarrow> bool"
    and limit :: "'s \<Rightarrow> nat"
    and sent :: "'s \<Rightarrow> nat"
    and got :: "'s \<Rightarrow> nat \<Rightarrow> bool"
  assumes wr_ok: "holds W s \<Longrightarrow> length W + length d < 2 ^ 62 \<Longrightarrow>
      \<exists>s'. wr d s = Some s' \<and> holds (W @ d) s' \<and> sent s \<le> sent s' \<and> (\<forall>p. got s' p \<longrightarrow> got s p)"
    and grant_ok: "holds W s \<Longrightarrow> limit s \<le> n \<Longrightarrow>
      \<exists>s'. grant n s = Some s' \<and> holds W s' \<and> sent s \<le> sent s' \<and> (\<forall>p. got s' p \<longrightarrow> got s p)"
    and pk_ok: "holds W s \<Longrightarrow> \<forall>p k. pred p = Some k \<longrightarrow> 0 < k \<Longrightarrow>
      pk pred flow s = (Inr ((lo, hi), fresh, chunks), s') \<Longrightarrow>
      holds W s' \<and> lo < hi \<and> hi \<le> length W \<and> concat chunks = take (hi - lo) (drop lo W) \<and>
      hi \<le> sent s' \<and> sent s \<le> sent s' \<and> (\<forall>p. got s' p \<longrightarrow> got s p)"
    and acked_ok: "holds W s \<Longrightarrow> lo < hi \<Longrightarrow> hi \<le> sent s \<Longrightarrow>
      \<exists>s'. acked lo hi s = Some s' \<and> holds W s' \<and> sent s \<le> sent s' \<and>
        (\<forall>p. got s' p \<longrightarrow> got s p \<or> lo \<le> p \<and> p < hi)"
    and lost_ok: "holds W s \<Longrightarrow> lo < hi \<Longrightarrow> hi \<le> sent s \<Longrightarrow>
      \<exists>s'. lost lo hi s = Some s' \<and> holds W s' \<and> sent s \<le> sent s' \<and> (\<forall>p. got s' p \<longrightarrow> got s p)"
begin

definition frame_ok :: "byte list \<Rightarrow> 's \<Rightarrow> nat \<times> byte list \<Rightarrow> bool" where
  "frame_ok W s f \<longleftrightarrow> (case f of (lo, d) \<Rightarrow> d \<noteq> [] \<and> slice_of W lo d \<and> lo + length d \<le> sent s)"

lemma frame_ok_mono: "frame_ok W s f \<Longrightarrow> sent s \<le> sent s' \<Longrightarrow> frame_ok (W @ W') s' f"
  by (auto simp: frame_ok_def slice_of_extend)

lemma frame_ok_same: "frame_ok W s f \<Longrightarrow> sent s \<le> sent s' \<Longrightarrow> frame_ok W s' f"
  using frame_ok_mono [of W s f s' "[]"] by simp

lemma pk_frame:
  assumes "holds W s" and "\<forall>p k. pred p = Some k \<longrightarrow> 0 < k"
    and "pk pred flow s = (Inr ((lo, hi), fresh, chunks), s')"
  shows "frame_ok W s' (lo, concat chunks)"
proof -
  note r = pk_ok [OF assms]
  then have len: "length (concat chunks) = hi - lo" by (elim conjE) simp
  with r show ?thesis unfolding frame_ok_def slice_of_def by (auto simp del: length_concat)
qed

lemma frame_acked:
  assumes "holds W s" and "frame_ok W s (lo, d)"
  obtains s' where "acked lo (lo + length d) s = Some s'" "holds W s'" "sent s \<le> sent s'"
    "\<And>p. got s' p \<Longrightarrow> got s p \<or> lo \<le> p \<and> p < lo + length d"
  using acked_ok [OF assms(1), of lo "lo + length d"] assms(2) by (auto simp: frame_ok_def)

lemma frame_lost:
  assumes "holds W s" and "frame_ok W s (lo, d)"
  obtains s' where "lost lo (lo + length d) s = Some s'" "holds W s'" "sent s \<le> sent s'"
    "\<And>p. got s' p \<Longrightarrow> got s p"
  using lost_ok [OF assms(1), of lo "lo + length d"] assms(2) by (auto simp: frame_ok_def)

end

text \<open>The send buffer of the code keeps the contract, for a stream whose end was not sent yet.\<close>

definition sends :: "byte list \<Rightarrow> send_buf \<Rightarrow> bool" where
  "sends W b \<longleftrightarrow> sb_ok W b \<and> open_map (sb_state b)"

definition confirmed :: "send_buf \<Rightarrow> nat \<Rightarrow> bool" where
  "confirmed b p \<longleftrightarrow> p < bm_size (sb_state b) \<and> color_at (sb_state b) p = Recved"

lemma sb_ok_size: "sb_ok W b \<Longrightarrow> bm_size (sb_state b) = min (length W) (sb_max_data b)"
  by (simp add: sb_ok_def)

interpretation sb: retransmitter sb_write sb_extend pick_up on_data_acked may_loss_data sends
  sb_max_data "\<lambda>b. bm_sent (sb_state b)" confirmed
proof
  fix W d :: "byte list" and s :: send_buf
  assume "sends W s" and len: "length W + length d < 2 ^ 62"
  then have "sb_ok W s" "open_map (sb_state s)" by (simp_all add: sends_def)
  from sb_write_spec [OF this len] show
    "\<exists>s'. sb_write d s = Some s' \<and> sends (W @ d) s' \<and> bm_sent (sb_state s) \<le> bm_sent (sb_state s') \<and>
      (\<forall>p. confirmed s' p \<longrightarrow> confirmed s p)"
    by (fastforce simp: sends_def confirmed_def split: if_splits)
next
  fix W :: "byte list" and n and s :: send_buf
  assume "sends W s" and n: "sb_max_data s \<le> n"
  then have "sb_ok W s" "open_map (sb_state s)" by (simp_all add: sends_def)
  from sb_extend_spec [OF this n] show
    "\<exists>s'. sb_extend n s = Some s' \<and> sends W s' \<and> bm_sent (sb_state s) \<le> bm_sent (sb_state s') \<and>
      (\<forall>p. confirmed s' p \<longrightarrow> confirmed s p)"
    by (fastforce simp: sends_def confirmed_def split: if_splits)
next
  fix W :: "byte list" and pred flow lo hi fresh chunks and s s' :: send_buf
  assume s: "sends W s" and pos: "\<forall>p k. pred p = Some k \<longrightarrow> 0 < k"
    and r: "pick_up pred flow s = (Inr ((lo, hi), fresh, chunks), s')"
  have ok: "sb_ok W s" "open_map (sb_state s)" using s by (simp_all add: sends_def)
  note u = pick_up_spec [OF ok(1) pos r]
  obtain m' where m': "pick pred flow (sb_max_data s) (sb_state s) = (Inr ((lo, hi), fresh), m')"
    "s' = s\<lparr>sb_state := m'\<rparr>" using u(7) by blast
  have m: "map_ok (sb_state s)" "bm_size (sb_state s) \<le> sb_max_data s" using ok(1) by (auto simp: sb_ok_def)
  note q = pick_Inr [OF m pos m'(1)]
  have "confirmed s p" if "confirmed s' p" for p
    using that q(2) q(7) [of p] by (auto simp: confirmed_def m'(2) split: if_splits)
  moreover have "lo < hi" "open_map (sb_state s')" using u(6) [OF ok(2)] by auto
  moreover from this u(4) have "hi \<le> bm_sent (sb_state s')" by (auto simp: range_ok_def)
  ultimately show "sends W s' \<and> lo < hi \<and> hi \<le> length W \<and> concat chunks = take (hi - lo) (drop lo W) \<and>
      hi \<le> bm_sent (sb_state s') \<and> bm_sent (sb_state s) \<le> bm_sent (sb_state s') \<and>
      (\<forall>p. confirmed s' p \<longrightarrow> confirmed s p)"
    using u(1,2,3,5) by (simp add: sends_def)
next
  fix W :: "byte list" and lo hi and s :: send_buf
  assume s: "sends W s" and "lo < hi" "hi \<le> bm_sent (sb_state s)"
  then have r: "range_ok (sb_state s) lo hi" by (simp add: range_ok_def)
  have ok: "sb_ok W s" "open_map (sb_state s)" using s by (simp_all add: sends_def)
  from on_data_acked_spec [OF ok(1) r] obtain s' where s': "on_data_acked lo hi s = Some s'" "sb_ok W s'"
    "sb_max_data s' = sb_max_data s" "bm_sent (sb_state s) \<le> bm_sent (sb_state s')" "open_map (sb_state s')"
    "\<forall>p < bm_size (sb_state s). color_at (sb_state s') p =
        (if lo \<le> p \<and> p < hi then Recved else color_at (sb_state s) p)"
    using \<open>lo < hi\<close> ok(2) by auto
  have "bm_size (sb_state s') = bm_size (sb_state s)" using sb_ok_size s'(2,3) ok(1) by simp
  with s' show "\<exists>s'. on_data_acked lo hi s = Some s' \<and> sends W s' \<and>
      bm_sent (sb_state s) \<le> bm_sent (sb_state s') \<and> (\<forall>p. confirmed s' p \<longrightarrow> confirmed s p \<or> lo \<le> p \<and> p < hi)"
    by (auto simp: sends_def confirmed_def split: if_splits)
  from may_loss_data_spec [OF ok(1) r] obtain s' where s': "may_loss_data lo hi s = Some s'" "sb_ok W s'"
    "sb_max_data s' = sb_max_data s" "bm_sent (sb_state s) \<le> bm_sent (sb_state s')" "open_map (sb_state s')"
    "\<forall>p < bm_size (sb_state s). color_at (sb_state s') p =
        (if lo \<le> p \<and> p < hi then lose (color_at (sb_state s) p) else color_at (sb_state s) p)"
    using \<open>lo < hi\<close> ok(2) by auto
  have "bm_size (sb_state s') = bm_size (sb_state s)" using sb_ok_size s'(2,3) ok(1) by simp
  with s' show "\<exists>s'. may_loss_data lo hi s = Some s' \<and> sends W s' \<and>
      bm_sent (sb_state s) \<le> bm_sent (sb_state s') \<and> (\<forall>p. confirmed s' p \<longrightarrow> confirmed s p)"
    by (auto simp: sends_def confirmed_def lose_def split: if_splits)
qed

section \<open>The system\<close>

record transfer =
  tx :: send_buf
  rx :: recv_buf
  wire :: "(nat \<times> byte list) set"
  arrivals :: "(nat \<times> byte list) set"
  app_sent :: "byte list"
  app_read :: "byte list"

definition transfer_init :: "nat \<Rightarrow> transfer" where
  "transfer_init capacity = \<lparr>tx = with_capacity capacity, rx = empty_buf, wire = {}, arrivals = {},
     app_sent = [], app_read = []\<rparr>"

inductive transfer_step :: "transfer \<Rightarrow> transfer \<Rightarrow> bool" where
  Write: "sb_write d (tx t) = Some b \<Longrightarrow> length (app_sent t) + length d < 2 ^ 62 \<Longrightarrow>
    transfer_step t (t\<lparr>tx := b, app_sent := app_sent t @ d\<rparr>)"
| Grant: "sb_max_data (tx t) \<le> n \<Longrightarrow> sb_extend n (tx t) = Some b \<Longrightarrow> transfer_step t (t\<lparr>tx := b\<rparr>)"
| Send: "\<forall>p k. pred p = Some k \<longrightarrow> 0 < k \<Longrightarrow>
    pick_up pred flow (tx t) = (Inr ((lo, hi), fresh, chunks), b) \<Longrightarrow>
    transfer_step t (t\<lparr>tx := b, wire := insert (lo, concat chunks) (wire t)\<rparr>)"
| Deliver: "(lo, d) \<in> wire t \<Longrightarrow> recv lo d (rx t) = Some (fresh, r) \<Longrightarrow>
    transfer_step t (t\<lparr>rx := r, arrivals := insert (lo, d) (arrivals t)\<rparr>)"
| Ack: "(lo, d) \<in> arrivals t \<Longrightarrow> on_data_acked lo (lo + length d) (tx t) = Some b \<Longrightarrow>
    transfer_step t (t\<lparr>tx := b\<rparr>)"
| Lose: "(lo, d) \<in> wire t \<Longrightarrow> may_loss_data lo (lo + length d) (tx t) = Some b \<Longrightarrow>
    transfer_step t (t\<lparr>tx := b\<rparr>)"
| Read: "try_read room (rx t) = (out, r) \<Longrightarrow>
    transfer_step t (t\<lparr>rx := r, app_read := app_read t @ out\<rparr>)"

inductive transfer_reach :: "nat \<Rightarrow> transfer \<Rightarrow> bool" for capacity where
  Init: "transfer_reach capacity (transfer_init capacity)"
| Step: "transfer_reach capacity t \<Longrightarrow> transfer_step t t' \<Longrightarrow> transfer_reach capacity t'"

definition transfer_ok :: "transfer \<Rightarrow> bool" where
  "transfer_ok t \<longleftrightarrow> sends (app_sent t) (tx t) \<and> rb.agrees (app_sent t) (rx t) \<and>
     (\<forall>f \<in> wire t. sb.frame_ok (app_sent t) (tx t) f) \<and> arrivals t \<subseteq> wire t \<and>
     (\<forall>(lo, d) \<in> arrivals t. \<forall>p. lo \<le> p \<and> p < lo + length d \<longrightarrow> rb.has (rx t) p) \<and>
     (\<forall>p. confirmed (tx t) p \<longrightarrow> rb.has (rx t) p) \<and>
     slice_of (app_sent t) 0 (app_read t) \<and> nread (rx t) = length (app_read t)"

lemma agrees_extend: "rb.agrees W b \<Longrightarrow> rb.agrees (W @ W') b"
  by (fastforce simp: rb.agrees_def nth_append)

lemma transfer_init_ok: "transfer_ok (transfer_init capacity)"
  using with_capacity_ok rb.start_agrees
  by (auto simp: transfer_ok_def transfer_init_def sends_def confirmed_def with_capacity_def empty_map_def
      empty_buf_def)

lemma transfer_step_ok:
  assumes "transfer_step t t'" and "transfer_ok t"
  shows "transfer_ok t'"
  using assms
proof (induction rule: transfer_step.induct)
  case (Write d t b)
  have s: "sends (app_sent t) (tx t)" using Write.prems by (simp add: transfer_ok_def)
  from sb.wr_ok [OF s Write.hyps(2)] Write.hyps(1)
  have b: "sends (app_sent t @ d) b" "bm_sent (sb_state (tx t)) \<le> bm_sent (sb_state b)"
    "\<forall>p. confirmed b p \<longrightarrow> confirmed (tx t) p" by auto
  with Write.prems show ?case
    by (auto simp: transfer_ok_def agrees_extend slice_of_extend intro: sb.frame_ok_mono)
next
  case (Grant t n b)
  have s: "sends (app_sent t) (tx t)" using Grant.prems by (simp add: transfer_ok_def)
  from sb.grant_ok [OF s Grant.hyps(1)] Grant.hyps(2) Grant.prems show ?case
    by (auto simp: transfer_ok_def intro: sb.frame_ok_same)
next
  case (Send pred flow t lo hi fresh chunks b)
  have s: "sends (app_sent t) (tx t)" using Send.prems by (simp add: transfer_ok_def)
  from sb.pk_ok [OF s Send.hyps] sb.pk_frame [OF s Send.hyps] Send.prems show ?case
    by (auto simp: transfer_ok_def intro: sb.frame_ok_same)
next
  case (Deliver lo d t fresh r)
  have ag: "rb.agrees (app_sent t) (rx t)" and "slice_of (app_sent t) lo d"
    using Deliver by (auto simp: transfer_ok_def sb.frame_ok_def)
  note g = rb.put_agrees [OF this Deliver.hyps(2)]
  from g Deliver show ?case by (auto simp: transfer_ok_def)
next
  case (Ack lo d t b)
  have s: "sends (app_sent t) (tx t)" and f: "sb.frame_ok (app_sent t) (tx t) (lo, d)"
    using Ack by (auto simp: transfer_ok_def)
  from sb.frame_acked [OF s f] Ack.hyps(2) have
    "sends (app_sent t) b" "bm_sent (sb_state (tx t)) \<le> bm_sent (sb_state b)"
    "\<And>p. confirmed b p \<Longrightarrow> confirmed (tx t) p \<or> lo \<le> p \<and> p < lo + length d" by (metis option.inject)+
  moreover from this(2) Ack.prems have "\<forall>f \<in> wire t. sb.frame_ok (app_sent t) b f"
    by (auto simp: transfer_ok_def intro: sb.frame_ok_same)
  moreover have "\<forall>p. lo \<le> p \<and> p < lo + length d \<longrightarrow> rb.has (rx t) p"
    using Ack by (auto simp: transfer_ok_def)
  moreover have "\<forall>p. confirmed (tx t) p \<longrightarrow> rb.has (rx t) p"
    using Ack.prems by (simp add: transfer_ok_def)
  ultimately have "\<forall>p. confirmed b p \<longrightarrow> rb.has (rx t) p" by metis
  with \<open>sends (app_sent t) b\<close> \<open>\<forall>f \<in> wire t. sb.frame_ok (app_sent t) b f\<close> show ?case using Ack unfolding transfer_ok_def by auto
next
  case (Lose lo d t b)
  have s: "sends (app_sent t) (tx t)" and f: "sb.frame_ok (app_sent t) (tx t) (lo, d)"
    using Lose by (auto simp: transfer_ok_def)
  from sb.frame_lost [OF s f] Lose.hyps(2) have
    "sends (app_sent t) b" "bm_sent (sb_state (tx t)) \<le> bm_sent (sb_state b)"
    "\<And>p. confirmed b p \<Longrightarrow> confirmed (tx t) p" by (metis option.inject)+
  moreover from this(2) Lose.prems have "\<forall>f \<in> wire t. sb.frame_ok (app_sent t) b f"
    by (auto simp: transfer_ok_def intro: sb.frame_ok_same)
  ultimately show ?case using Lose unfolding transfer_ok_def by auto
next
  case (Read room t out r)
  have "rb.agrees (app_sent t) (rx t)" using Read by (simp add: transfer_ok_def)
  note g = rb.get_agrees [OF this Read.hyps]
  from g Read show ?case by (auto simp: transfer_ok_def intro!: slice_of_append)
qed

lemma transfer_reach_ok: "transfer_reach capacity t \<Longrightarrow> transfer_ok t"
  by (induction rule: transfer_reach.induct) (auto intro: transfer_init_ok transfer_step_ok)

section \<open>Properties\<close>

text \<open>A run of the system, for the witnesses.\<close>

definition sample_sent :: send_buf where
  "sample_sent = \<lparr>sb_offset = 0, sb_data = [[1, 2, 3]], sb_max_data = 10,
     sb_state = \<lparr>states = [set_color (state_encode 0 Pending) Flighting], bm_size = 3\<rparr>\<rparr>"

definition sample_rcvd :: recv_buf where
  "sample_rcvd = \<lparr>nread = 0, largest_offset = 3, segments = [\<lparr>seg_offset = 0, seg_data = [1, 2, 3]\<rparr>]\<rparr>"

definition sample_done :: send_buf where
  "sample_done = \<lparr>sb_offset = 3, sb_data = [], sb_max_data = 10, sb_state = \<lparr>states = [], bm_size = 3\<rparr>\<rparr>"

definition sample_transfer :: transfer where
  "sample_transfer = \<lparr>tx = sample_done, rx = sample_rcvd, wire = {(0, [1, 2, 3])},
     arrivals = {(0, [1, 2, 3])}, app_sent = [1, 2, 3], app_read = []\<rparr>"

lemma sample_reach: "transfer_reach 10 sample_transfer"
proof -
  let ?b0 = "\<lparr>sb_offset = 0, sb_data = [[1, 2, 3]], sb_max_data = 10,
     sb_state = \<lparr>states = [state_encode 0 Pending], bm_size = length [1, 2, 3 :: byte]\<rparr>\<rparr> :: send_buf"
  let ?t0 = "transfer_init 10"
  let ?t1 = "?t0\<lparr>tx := ?b0, app_sent := app_sent ?t0 @ [1, 2, 3]\<rparr>"
  let ?t2 = "?t1\<lparr>tx := sample_sent, wire := insert (0, concat [[1, 2, 3]]) (wire ?t1)\<rparr>"
  let ?t3 = "?t2\<lparr>rx := sample_rcvd, arrivals := insert (0, [1, 2, 3]) (arrivals ?t2)\<rparr>"
  have "sb_write [1, 2, 3] (tx ?t0) = Some ?b0"
    by (simp add: transfer_init_def sb_write_def with_capacity_def empty_map_def extend_to_def written_def)
  then have 1: "transfer_step ?t0 ?t1" by (rule Write) (simp add: transfer_init_def)
  have "pick_up (\<lambda>_. Some 5) 9 ?b0 = (Inr ((0, 3), True, [[1, 2, 3]]), sample_sent)"
    by (simp add: pick_up_def pick_def state_decode_def vec_get_def merge_after_def same_after_def
        usize_succ_def sample_sent_def)
  then have 2: "transfer_step ?t1 ?t2" by (intro Send) auto
  have "recv 0 [1, 2, 3] empty_buf = Some (3, sample_rcvd)"
    by (simp add: recv_def empty_buf_def recv_loop.simps recv_step_def binary_search_by_key_def partition_point_def vec_insert_def
        seg_end_def sample_rcvd_def)
  then have 3: "transfer_step ?t2 ?t3" by (intro Deliver) (auto simp: transfer_init_def)
  have "on_data_acked 0 (0 + length [1, 2, 3 :: byte]) sample_sent = Some sample_done" by code_simp
  then have "transfer_step ?t3 (?t3\<lparr>tx := sample_done\<rparr>)" by (intro Ack [where d = "[1, 2, 3]"]) auto
  moreover have "?t3\<lparr>tx := sample_done\<rparr> = sample_transfer"
    by (simp add: transfer_init_def sample_transfer_def)
  ultimately have 4: "transfer_step ?t3 sample_transfer" by simp
  show ?thesis by (rule Step [OF Step [OF Step [OF Step [OF Init 1] 2] 3] 4])
qed

text \<open>
  C1. In every reachable state of the system, whatever the network lost, repeated or reordered,
  whatever was retransmitted, acknowledged or wrongly reported lost, the bytes the receiving
  application has read are a prefix of the bytes the sending application has written.
\<close>

theorem transfer_reads_prefix:
  assumes "transfer_reach capacity t"
  shows "prefix (app_read t) (app_sent t)"
  using transfer_reach_ok [OF assms] by (simp add: transfer_ok_def slice_of_prefix)

theorem transfer_reads_prefix_witness: "prefix (app_read sample_transfer) (app_sent sample_transfer)"
  by (rule transfer_reads_prefix [OF sample_reach])

text \<open>
  C20. In every reachable state, for every frame that was ever sent: the receiver can take it
  once more, and the sender can process an acknowledgement or a loss report of it; none of the
  loops diverges and none of the debug assertions of the two buffers fails.
\<close>

theorem transfer_never_stuck:
  assumes "transfer_reach capacity t" and "(lo, d) \<in> wire t"
  shows "(\<exists>r. recv lo d (rx t) = Some r) \<and> (\<exists>b. on_data_acked lo (lo + length d) (tx t) = Some b) \<and>
     (\<exists>b. may_loss_data lo (lo + length d) (tx t) = Some b)"
proof -
  have s: "sends (app_sent t) (tx t)" "sb.frame_ok (app_sent t) (tx t) (lo, d)" "buf_ok (rx t)"
    using transfer_reach_ok [OF assms(1)] assms(2) by (auto simp: transfer_ok_def rb.agrees_def)
  then show ?thesis
    using sb.frame_acked [OF s(1,2)] sb.frame_lost [OF s(1,2)] rb.put_ok [OF s(3), of lo d] by metis
qed

theorem transfer_never_stuck_witness:
  "\<exists>b. may_loss_data 0 (0 + length [1, 2, 3 :: byte]) (tx sample_transfer) = Some b"
  using transfer_never_stuck [OF sample_reach, of 0 "[1, 2, 3]"] by (simp add: sample_transfer_def)

text \<open>
  The sender never forgets a byte the receiver does not have: in every reachable state a
  byte below the offset of the send buffer, the part of the queue that was dropped, has been
  read by the receiving application or lies in its receive buffer.
\<close>

theorem transfer_drops_only_received:
  assumes "transfer_reach capacity t" and "p < sb_offset (tx t)"
  shows "\<exists>v. p < nread (rx t) \<or> lookup (segments (rx t)) p = Some v"
proof -
  have ok: "transfer_ok t" by (rule transfer_reach_ok [OF assms(1)])
  then have "confirmed (tx t) p"
    using assms(2) by (auto simp: transfer_ok_def sends_def sb_ok_def confirmed_def)
  with ok show ?thesis by (auto simp: transfer_ok_def rb.has_def)
qed

theorem transfer_drops_only_received_witness:
  "\<exists>v. 2 < nread (rx sample_transfer) \<or> lookup (segments (rx sample_transfer)) 2 = Some v"
  using transfer_drops_only_received [OF sample_reach, of 2]
  by (simp add: sample_transfer_def sample_done_def)

text \<open>
  C21. When the send buffer reports that everything was received and the limit covered all that
  was written, one read with enough room completes the transfer: the receiving application has
  read exactly what the sending application wrote.
\<close>

theorem transfer_completes:
  assumes "transfer_reach capacity t" and "is_all_rcvd (tx t)"
    and "length (app_sent t) \<le> sb_max_data (tx t)" and "length (app_sent t) \<le> room"
    and "try_read room (rx t) = (out, r)"
  shows "app_read t @ out = app_sent t"
proof -
  have ok: "transfer_ok t" by (rule transfer_reach_ok [OF assms(1)])
  then have s: "sb_ok (app_sent t) (tx t)" and ag: "rb.agrees (app_sent t) (rx t)"
    and rd: "slice_of (app_sent t) 0 (app_read t)" "nread (rx t) = length (app_read t)"
    by (auto simp: transfer_ok_def sends_def)
  have "confirmed (tx t) p" if "p < length (app_sent t)" for p
    using is_all_rcvd_iff [OF s assms(3)] assms(2,3) that sb_ok_size [OF s] by (simp add: confirmed_def)
  then have has: "rb.has (rx t) p" if "p < length (app_sent t)" for p
    using ok that by (auto simp: transfer_ok_def)
  note g = rb.get_agrees [OF ag assms(5)]
  let ?k = "length (app_sent t) - length (app_read t)"
  have "\<forall>i < ?k. lookup (segments (rx t)) (nread (rx t) + i) \<noteq> None"
    using has rd(2) by (metis add.commute less_diff_conv not_add_less1 rb.has_def)
  then have "min room ?k \<le> length out"
    using ag by (intro rb.get_all [OF _ assms(5)]) (auto simp: rb.agrees_def)
  then have "length (app_sent t) \<le> length (app_read t @ out)" using assms(4) by simp
  moreover have "prefix (app_read t @ out) (app_sent t)"
    using slice_of_append [of "app_sent t" 0 "app_read t" out] rd g(2) by (simp add: slice_of_prefix)
  ultimately show ?thesis by (meson prefix_length_le prefix_length_prefix prefix_order.antisym prefix_order.refl)
qed

theorem transfer_completes_witness: "app_read sample_transfer @ [1, 2, 3] = app_sent sample_transfer"
proof -
  have a: "is_all_rcvd (tx sample_transfer)" "length (app_sent sample_transfer) \<le> sb_max_data (tx sample_transfer)"
    "length (app_sent sample_transfer) \<le> 3"
    by (simp_all add: sample_transfer_def sample_done_def is_all_rcvd_def)
  have "fst (try_read 3 sample_rcvd) = [1, 2, 3]" by code_simp
  then obtain r where "try_read 3 (rx sample_transfer) = ([1, 2, 3], r)"
    by (cases "try_read 3 sample_rcvd") (simp add: sample_transfer_def)
  then show ?thesis by (rule transfer_completes [OF sample_reach a])
qed

end
