(* ===== verification/Wire.thy ===== *)
theory Wire
  imports Prelude
begin

unbundle bit_operations_syntax

text \<open>
  Reading and writing bytes. The parsers of the sources are built from the crate \<open>nom\<close>, which is
  not part of them: its primitives are the fields of a record that the parsers take as a
  parameter, and \<open>nom_ok\<close> states their documented behaviour. The writers append to a
  \<open>bytes::BufMut\<close> of bounded capacity and panic when it is full; a writer is a function from
  buffers to buffers that is \<open>None\<close> on a panic.

  On top of both come the variable-length integers of \<open>qbase/src/varint.rs\<close>, with their round trip.
\<close>

section \<open>Parsers\<close>

datatype nom_kind = TooLarge | Verify | Alt | Eof

text \<open>\<open>Panicked\<close> is the value of a parser that reaches an \<open>unreachable!\<close>.\<close>

datatype nom_err = Incomplete | Err nom_kind | Panicked

type_synonym 'a presult = "nom_err + (byte list \<times> 'a)"

record nom =
  take_bits :: "nat \<Rightarrow> byte list \<times> nat \<Rightarrow> nom_err + ((byte list \<times> nat) \<times> nat)"
  be_uint_complete :: "nat \<Rightarrow> byte list \<Rightarrow> nat presult"
  be_uint_streaming :: "nat \<Rightarrow> byte list \<Rightarrow> nat presult"
  take_complete :: "nat \<Rightarrow> byte list \<Rightarrow> byte list presult"
  take_streaming :: "nat \<Rightarrow> byte list \<Rightarrow> byte list presult"

text \<open>
  The number made of \<open>count\<close> bits of a byte string, from bit \<open>off\<close> on, most significant first.
\<close>

definition bits_of :: "byte list \<Rightarrow> nat \<Rightarrow> nat \<Rightarrow> nat" where
  "bits_of xs off count = be_nat xs div 2 ^ (8 * length xs - off - count) mod 2 ^ count"

definition nom_ok :: "nom \<Rightarrow> bool" where
  "nom_ok n \<longleftrightarrow>
     (\<forall>count xs off. off < 8 \<longrightarrow> take_bits n count (xs, off) =
        (if 8 * length xs < count + off then Inl Incomplete
         else Inr ((drop ((off + count) div 8) xs, (off + count) mod 8), bits_of xs off count))) \<and>
     (\<forall>k xs. be_uint_complete n k xs =
        (if length xs < k then Inl (Err Eof) else Inr (drop k xs, be_nat (take k xs)))) \<and>
     (\<forall>k xs. be_uint_streaming n k xs =
        (if length xs < k then Inl Incomplete else Inr (drop k xs, be_nat (take k xs)))) \<and>
     (\<forall>k xs. take_complete n k xs =
        (if length xs < k then Inl (Err Eof) else Inr (drop k xs, take k xs))) \<and>
     (\<forall>k xs. take_streaming n k xs =
        (if length xs < k then Inl Incomplete else Inr (drop k xs, take k xs)))"

text \<open>The operator \<open>?\<close> and \<open>Result::map\<close>.\<close>

fun and_then :: "'e + 'a \<Rightarrow> ('a \<Rightarrow> 'e + 'b) \<Rightarrow> 'e + 'b" where
  "and_then (Inl e) f = Inl e"
| "and_then (Inr a) f = f a"

definition map_ok :: "('a \<Rightarrow> 'b) \<Rightarrow> 'e + 'a \<Rightarrow> 'e + 'b" where
  "map_ok f r = and_then r (\<lambda>a. Inr (f a))"

definition map_err :: "('d \<Rightarrow> 'e) \<Rightarrow> 'd + 'a \<Rightarrow> 'e + 'a" where
  "map_err f r = (case r of Inl e \<Rightarrow> Inl (f e) | Inr a \<Rightarrow> Inr a)"

section \<open>Writers\<close>

text \<open>What a buffer holds and how many more bytes it takes.\<close>

type_synonym buffer = "byte list \<times> nat"

type_synonym writer = "buffer \<Rightarrow> buffer option"

fun put_slice :: "byte list \<Rightarrow> writer" where
  "put_slice s (b, r) = (if length s \<le> r then Some (b @ s, r - length s) else None)"

definition put_uint :: "nat \<Rightarrow> nat \<Rightarrow> writer" where
  "put_uint k v = put_slice (be_bytes k v)"

fun puts :: "writer list \<Rightarrow> writer" where
  "puts [] b = Some b"
| "puts (w # ws) b = Option.bind (w b) (puts ws)"

text \<open>A writer that appends a fixed string, or panics when there is no room for it.\<close>

definition emits :: "writer \<Rightarrow> byte list \<Rightarrow> bool" where
  "emits w s \<longleftrightarrow> (\<forall>b r. w (b, r) = (if length s \<le> r then Some (b @ s, r - length s) else None))"

section \<open>Variable-length integers\<close>

definition VARINT_MAX :: nat where
  "VARINT_MAX = 0x3fffffffffffffff"

definition from_u64 :: "nat \<Rightarrow> nat option" where
  "from_u64 x = (if x < 2 ^ 62 then Some x else None)"

definition varint_size :: "nat \<Rightarrow> nat option" where
  "varint_size x =
     (if x < 2 ^ 6 then Some 1
      else if x < 2 ^ 14 then Some 2
      else if x < 2 ^ 30 then Some 4
      else if x < 2 ^ 62 then Some 8
      else None)"

definition put_varint :: "nat \<Rightarrow> writer" where
  "put_varint x b =
     (if x < 2 ^ 6 then put_uint 1 (unat (word_of_nat x :: 8 word)) b
      else if x < 2 ^ 14 then put_uint 2 (unat (push_bit 14 1 OR word_of_nat x :: 16 word)) b
      else if x < 2 ^ 30 then put_uint 4 (unat (push_bit 30 2 OR word_of_nat x :: 32 word)) b
      else if x < 2 ^ 62 then put_uint 8 (unat (push_bit 62 3 OR word_of_nat x :: 64 word)) b
      else None)"

datatype encode_bytes = One | Two | Four | Eight

fun encode_varint :: "nat \<Rightarrow> encode_bytes \<Rightarrow> writer" where
  "encode_varint x One b =
     (if x < 2 ^ 6 then put_uint 1 (unat (word_of_nat x :: 8 word)) b else None)"
| "encode_varint x Two b =
     (if x < 2 ^ 14 then put_uint 2 (unat (push_bit 14 1 OR word_of_nat x :: 16 word)) b else None)"
| "encode_varint x Four b =
     (if x < 2 ^ 30 then put_uint 4 (unat (push_bit 30 2 OR word_of_nat x :: 32 word)) b else None)"
| "encode_varint x Eight b =
     (if x < 2 ^ 62 then put_uint 8 (unat (push_bit 62 3 OR word_of_nat x :: 64 word)) b else None)"

definition be_varint :: "nom \<Rightarrow> byte list \<Rightarrow> nat presult" where
  "be_varint n input =
     map_ok (\<lambda>((buf, _), value). (buf, value))
       (map_err (\<lambda>e. case e of Incomplete \<Rightarrow> Incomplete | _ \<Rightarrow> Panicked)
          (and_then (take_bits n 2 (input, 0)) (\<lambda>(rest, prefix). take_bits n (8 * 2 ^ prefix - 2) rest)))"

section \<open>Facts on writers\<close>

named_theorems wire \<open>what the writers append and how the parsers take it back\<close>

lemma map_ok_simps [simp]: "map_ok f (Inr a) = Inr (f a)" "map_ok f (Inl e) = Inl e"
  by (auto simp: map_ok_def)

lemma map_err_simps [simp]: "map_err f (Inr a) = Inr a" "map_err f (Inl e) = Inl (f e)"
  by (auto simp: map_err_def)

lemma emits_put_slice [wire]: "emits (put_slice s) s"
  by (simp add: emits_def)

lemma emits_puts: "list_all2 emits ws ss \<Longrightarrow> emits (puts ws) (concat ss)"
  by (induction rule: list_all2_induct) (auto simp: emits_def)

lemma emits_put_uint [wire]: "emits (put_uint k v) (be_bytes k v)"
  by (simp add: put_uint_def emits_put_slice)

section \<open>Facts on variable-length integers\<close>

text \<open>The encoding in \<open>2 ^ p\<close> bytes: the two bits of the prefix, then the value.\<close>

definition varint_bytes :: "nat \<Rightarrow> nat \<Rightarrow> byte list" where
  "varint_bytes p x = be_bytes (2 ^ p) (p * 2 ^ (8 * 2 ^ p - 2) + x)"

definition varint_prefix :: "nat \<Rightarrow> nat" where
  "varint_prefix x = (if x < 2 ^ 6 then 0 else if x < 2 ^ 14 then 1 else if x < 2 ^ 30 then 2 else 3)"

definition varint_image :: "nat \<Rightarrow> byte list" where
  "varint_image x = varint_bytes (varint_prefix x) x"

lemma length_varint_bytes [simp]: "length (varint_bytes p x) = 2 ^ p"
  by (simp add: varint_bytes_def)

lemma varint_prefix_bounds: "x < 2 ^ 62 \<Longrightarrow> varint_prefix x < 4 \<and> x < 2 ^ (8 * 2 ^ varint_prefix x - 2)"
  by (simp add: varint_prefix_def)

lemma unat_or_push:
  assumes "x < 2 ^ k" and "k \<le> LENGTH('a)" and "p < 2 ^ (LENGTH('a) - k)"
  shows "unat (push_bit k (word_of_nat p) OR word_of_nat x :: 'a::len word) = p * 2 ^ k + x"
proof -
  have w: "(2::nat) ^ LENGTH('a) = 2 ^ (LENGTH('a) - k) * 2 ^ k"
    using assms(2) by (simp flip: power_add)
  have "p * 2 ^ k + x < 2 ^ LENGTH('a)"
  proof -
    have "p * 2 ^ k + 2 ^ k \<le> 2 ^ (LENGTH('a) - k) * 2 ^ k"
      using assms(3) by (metis Suc_leI add.commute mult_Suc mult_le_mono1)
    with assms(1) w show ?thesis by linarith
  qed
  then have small: "p * 2 ^ k < 2 ^ LENGTH('a)" "x < 2 ^ LENGTH('a)" by auto
  have "push_bit k (word_of_nat p :: 'a word) = word_of_nat (p * 2 ^ k)"
    by (simp add: push_bit_eq_mult)
  then have "unat (push_bit k (word_of_nat p) :: 'a word) = p * 2 ^ k"
    using small by (simp only: unat_of_nat mod_less)
  moreover have "unat (word_of_nat x :: 'a word) = x" using small by (simp add: unat_of_nat)
  ultimately show ?thesis
    using nat_or_disjoint [OF assms(1), of p] by (simp add: unsigned_or_eq push_bit_eq_mult)
qed

lemma put_varint_emits [wire]:
  assumes "x < 2 ^ 62"
  shows "emits (put_varint x) (varint_image x)"
proof -
  have "unat (word_of_nat x :: 8 word) = x" if "x < 2 ^ 6"
    using that by (simp add: unat_of_nat)
  moreover have "unat (push_bit 14 1 OR word_of_nat x :: 16 word) = 2 ^ 14 + x" if "x < 2 ^ 14"
    using unat_or_push [of x 14 1, where 'a = 16] that by simp
  moreover have "unat (push_bit 30 2 OR word_of_nat x :: 32 word) = 2 * 2 ^ 30 + x" if "x < 2 ^ 30"
    using unat_or_push [of x 30 2, where 'a = 32] that by simp
  moreover have "unat (push_bit 62 3 OR word_of_nat x :: 64 word) = 3 * 2 ^ 62 + x"
    using unat_or_push [of x 62 3, where 'a = 64] assms by simp
  ultimately show ?thesis
    using assms
    by (auto simp: emits_def put_varint_def put_uint_def varint_image_def varint_bytes_def varint_prefix_def)
qed

lemma encode_varint_emits:
  assumes "x < 2 ^ (8 * 2 ^ p - 2)" and "p < 4"
  shows "emits (encode_varint x ([One, Two, Four, Eight] ! p)) (varint_bytes p x)"
proof -
  consider "p = 0" | "p = 1" | "p = 2" | "p = 3" using assms(2) by linarith
  then show ?thesis
  proof cases
    case 1
    then show ?thesis using assms by (simp add: emits_def put_uint_def varint_bytes_def unat_of_nat)
  next
    case 2
    then show ?thesis
      using assms unat_or_push [of x 14 1, where 'a = 16] by (simp add: emits_def put_uint_def varint_bytes_def)
  next
    case 3
    then show ?thesis
      using assms unat_or_push [of x 30 2, where 'a = 32] by (simp add: emits_def put_uint_def varint_bytes_def)
  next
    case 4
    then show ?thesis
      using assms unat_or_push [of x 62 3, where 'a = 64] by (simp add: emits_def put_uint_def varint_bytes_def)
  qed
qed

lemma varint_size_image [wire]: "x < 2 ^ 62 \<Longrightarrow> varint_size x = Some (length (varint_image x))"
  by (simp add: varint_size_def varint_image_def varint_prefix_def)

text \<open>What the parser does on any input.\<close>

lemma bits_of_prefix:
  assumes "k \<le> length xs" and "off + count = 8 * k"
  shows "bits_of xs off count = be_nat (take k xs) mod 2 ^ count"
proof -
  have e: "8 * length xs - off - count = 8 * length (drop k xs)" using assms by simp
  have "be_nat xs = be_nat (take k xs) * 2 ^ (8 * length (drop k xs)) + be_nat (drop k xs)"
    using be_nat_append [of "take k xs" "drop k xs"] by (simp add: power_mult)
  moreover have "be_nat (drop k xs) < 2 ^ (8 * length (drop k xs))"
    using be_nat_less [of "drop k xs"] by (simp add: power_mult)
  ultimately have "be_nat xs div 2 ^ (8 * length (drop k xs)) = be_nat (take k xs)"
    by (simp del: length_drop)
  then show ?thesis unfolding bits_of_def e by simp
qed

lemma be_varint_spec:
  assumes "nom_ok n"
  shows "be_varint n input =
    (if input = [] then Inl Incomplete
     else let p = unat (hd input) div 64
          in if length input < 2 ^ p then Inl Incomplete
             else Inr (drop (2 ^ p) input, be_nat (take (2 ^ p) input) mod 2 ^ (8 * 2 ^ p - 2)))"
proof (cases input)
  case Nil
  then show ?thesis using assms by (simp add: be_varint_def nom_ok_def)
next
  case (Cons x xs)
  let ?p = "unat x div 64"
  have x: "unat x < 256" using unat_bound [of x] by simp
  have "be_nat input = unat x * 2 ^ (8 * length xs) + be_nat xs"
    using be_nat_append [of "[x]" xs] be_nat_snoc [of "[]" x] by (simp add: Cons power_mult)
  moreover have "be_nat xs < 2 ^ (8 * length xs)" using be_nat_less [of xs] by (simp add: power_mult)
  ultimately have "be_nat input div 2 ^ (8 * length xs) = unat x" by simp
  then have "be_nat input div 2 ^ (8 * length xs + 6) = ?p"
    by (simp add: power_add div_mult2_eq)
  moreover have "8 * length input - 0 - 2 = 8 * length xs + 6" by (simp add: Cons)
  ultimately have pre: "bits_of input 0 2 = ?p" using x by (simp add: bits_of_def)
  have 1: "take_bits n 2 (input, 0) = Inr ((input, 2), ?p)"
    using assms pre by (simp add: nom_ok_def Cons)
  have c: "2 + (8 * 2 ^ ?p - 2) = 8 * (2::nat) ^ ?p"
  proof -
    have "(1::nat) \<le> 2 ^ ?p" by simp
    then show ?thesis by linarith
  qed
  have 2: "take_bits n (8 * 2 ^ ?p - 2) (input, 2) =
    (if 8 * length input < 8 * 2 ^ ?p then Inl Incomplete
     else Inr ((drop (2 ^ ?p) input, 0), bits_of input 2 (8 * 2 ^ ?p - 2)))"
    using assms c by (simp add: nom_ok_def add.commute)
  show ?thesis
  proof (cases "length input < 2 ^ ?p")
    case True
    with 1 2 show ?thesis by (simp add: be_varint_def Cons)
  next
    case False
    then have "bits_of input 2 (8 * 2 ^ ?p - 2) = be_nat (take (2 ^ ?p) input) mod 2 ^ (8 * 2 ^ ?p - 2)"
      using c by (intro bits_of_prefix) auto
    with False 1 2 show ?thesis by (simp add: be_varint_def Cons Let_def)
  qed
qed

lemma be_varint_bytes:
  assumes "nom_ok n" and "p < 4" and "x < 2 ^ (8 * 2 ^ p - 2)"
  shows "be_varint n (varint_bytes p x @ rest) = Inr (rest, x)"
proof -
  let ?k = "2 ^ p :: nat"
  let ?e = "8 * ?k - 2"
  obtain j where j: "?k = Suc j" by (metis not0_implies_Suc power_not_zero zero_neq_numeral)
  have be: "be_nat (varint_bytes p x) = p * 2 ^ ?e + x"
  proof -
    have "256 ^ ?k = (2::nat) ^ (?e + 2)" using j by (simp add: power_add power_mult)
    also have "\<dots> = 4 * 2 ^ ?e" by (simp add: power_add)
    finally have "p * 2 ^ ?e + x < 256 ^ ?k" using assms(2,3) 
      by (smt (verit, ccfv_SIG) Suc_leI add_less_mono1 le_trans mult_Suc mult_le_mono1 not_less add.commute)
    then show ?thesis by (simp add: varint_bytes_def be_nat_be_bytes_id)
  qed
  obtain y ys where ys: "varint_bytes p x = y # ys" and l: "length ys = j"
    using length_varint_bytes [of p x] j by (metis length_Suc_conv)
  have "be_nat (varint_bytes p x) = unat y * 2 ^ (8 * j) + be_nat ys"
    using be_nat_append [of "[y]" ys] be_nat_snoc [of "[]" y] by (simp add: ys l power_mult)
  moreover have "be_nat ys < 2 ^ (8 * j)" using be_nat_less [of ys] l by (simp add: power_mult)
  ultimately have "be_nat (varint_bytes p x) div 2 ^ (8 * j) = unat y" by simp
  then have "unat y div 64 = be_nat (varint_bytes p x) div 2 ^ (8 * j + 6)"
    by (simp add: power_add div_mult2_eq)
  also have "8 * j + 6 = ?e" using j by simp
  also have "be_nat (varint_bytes p x) div 2 ^ ?e = p" using be assms(3) by simp
  finally have "unat (hd (varint_bytes p x @ rest)) div 64 = p" by (simp add: ys)
  moreover have "varint_bytes p x \<noteq> []" using ys by simp
  ultimately show ?thesis
    using assms(3) be by (simp add: be_varint_spec [OF assms(1)] Let_def)
qed

lemma be_varint_put [wire]:
  "nom_ok n \<Longrightarrow> x < 2 ^ 62 \<Longrightarrow> be_varint n (varint_image x @ rest) = Inr (rest, x)"
  unfolding varint_image_def using be_varint_bytes varint_prefix_bounds by blast

lemma varint_image_length: "0 < length (varint_image x)" "length (varint_image x) \<le> 8"
  by (auto simp: varint_image_def varint_prefix_def)

lemma be_varint_consumes:
  assumes "nom_ok n" and "be_varint n input = Inr (rest, x)"
  shows "x < 2 ^ 62 \<and> (\<exists>s. input = s @ rest \<and> s \<noteq> [])"
proof -
  let ?p = "unat (hd input) div 64"
  have i: "input \<noteq> []" "2 ^ ?p \<le> length input" "rest = drop (2 ^ ?p) input"
    "x = be_nat (take (2 ^ ?p) input) mod 2 ^ (8 * 2 ^ ?p - 2)"
    using assms by (auto simp: be_varint_spec Let_def split: if_splits)
  have "?p < 4" using unat_bound [of "hd input"] by (simp add: less_mult_imp_div_less)
  then have "8 * 2 ^ ?p - 2 \<le> (62::nat)"
    using power_increasing [of ?p 3 "2::nat"] by simp
  then have "(2::nat) ^ (8 * 2 ^ ?p - 2) \<le> 2 ^ 62" by (rule power_increasing) simp
  moreover have "x < 2 ^ (8 * 2 ^ ?p - 2)" using i(4) by simp
  ultimately have "x < 2 ^ 62" by linarith
  moreover have "input = take (2 ^ ?p) input @ rest" "take (2 ^ ?p) input \<noteq> []" using i by auto
  ultimately show ?thesis by blast
qed

lemma be_varint_no_panic: "nom_ok n \<Longrightarrow> be_varint n input \<noteq> Inl (Err k) \<and> be_varint n input \<noteq> Inl Panicked"
  by (simp add: be_varint_spec Let_def)

end
