(* ===== verification/Frame_Type.thy ===== *)
theory Frame_Type
  imports Wire
begin

unbundle bit_operations_syntax

text \<open>
  The vocabulary of the frames: the roles, stream directions and stream identifiers of
  \<open>qbase/src/role.rs\<close> and \<open>qbase/src/sid.rs\<close>, the packet types of \<open>qbase/src/packet/type.rs\<close>, the frame
  types of \<open>qbase/src/frame.rs\<close> with the packets that may carry them, and the transport error codes
  of \<open>qbase/src/error.rs\<close>. The lemmas are the round trips of the three number spaces.
\<close>

section \<open>Roles, directions and stream identifiers\<close>

datatype role = Client | Server

fun other_role :: "role \<Rightarrow> role" where
  "other_role Client = Server"
| "other_role Server = Client"

datatype dir = Bi | Uni

fun dir_bit :: "dir \<Rightarrow> 64 word" where
  "dir_bit Bi = 0"
| "dir_bit Uni = 1"

fun role_bit :: "role \<Rightarrow> 64 word" where
  "role_bit Client = 0"
| "role_bit Server = 1"

definition MAX_STREAMS_LIMIT :: nat where
  "MAX_STREAMS_LIMIT = 2 ^ 60 - 1"

definition sid_new :: "role \<Rightarrow> dir \<Rightarrow> nat \<Rightarrow> 64 word option" where
  "sid_new r d i =
     (if i \<le> MAX_STREAMS_LIMIT
      then Some (push_bit 1 (push_bit 1 (word_of_nat i) OR dir_bit d) OR role_bit r) else None)"

definition sid_role :: "64 word \<Rightarrow> role" where
  "sid_role s = (if s AND 1 = 0 then Client else Server)"

definition sid_dir :: "64 word \<Rightarrow> dir" where
  "sid_dir s = (if s AND 2 = 0 then Bi else Uni)"

definition sid_id :: "64 word \<Rightarrow> nat" where
  "sid_id s = unat (drop_bit 2 s)"

definition next_unchecked :: "64 word \<Rightarrow> 64 word" where
  "next_unchecked s = s + 4"

definition put_streamid :: "64 word \<Rightarrow> writer" where
  "put_streamid s = put_varint (unat s)"

definition be_streamid :: "nom \<Rightarrow> byte list \<Rightarrow> (64 word) presult" where
  "be_streamid n input = map_ok (apsnd word_of_nat) (be_varint n input)"

definition streamid_size :: "64 word \<Rightarrow> nat option" where
  "streamid_size s = varint_size (unat s)"

section \<open>Packet types\<close>

datatype v1_type = Initial | ZeroRtt | Handshake | Retry

datatype packet_type = VersionNegotiation | V1 v1_type | OneRtt bool

section \<open>Frame types\<close>

datatype ecn = NoEcn | EcnExist
datatype offset_flag = Zero | NonZero
datatype len_flag = Explicit | Omit
datatype fin_flag = Yes | No
datatype layer = QuicLayer | AppLayer
datatype family = V4 | V6

datatype frame_type =
    TPadding | TPing | TAck ecn | TResetStream | TStopSending | TCrypto | TNewToken
  | TStream offset_flag len_flag fin_flag
  | TMaxData | TMaxStreamData | TMaxStreams dir | TDataBlocked | TStreamDataBlocked | TStreamsBlocked dir
  | TNewConnectionId | TRetireConnectionId | TPathChallenge | TPathResponse
  | TConnectionClose layer | THandshakeDone | TDatagram byte
  | TAddAddress family | TRemoveAddress | TPunchMeNow family | TPunchHello | TPunchDone

fun belongs_to :: "frame_type \<Rightarrow> packet_type \<Rightarrow> bool" where
  "belongs_to ft p =
     (let i = (p = V1 Initial); h = (p = V1 Handshake); z = (p = V1 ZeroRtt);
          l = (case p of OneRtt _ \<Rightarrow> True | _ \<Rightarrow> False)
      in case ft of
           TPadding \<Rightarrow> i \<or> h \<or> z \<or> l
         | TPing \<Rightarrow> i \<or> h \<or> z \<or> l
         | TAck _ \<Rightarrow> i \<or> h \<or> l
         | TResetStream \<Rightarrow> z \<or> l
         | TStopSending \<Rightarrow> z \<or> l
         | TCrypto \<Rightarrow> i \<or> h \<or> l
         | TNewToken \<Rightarrow> l
         | TStream _ _ _ \<Rightarrow> z \<or> l
         | TMaxData \<Rightarrow> z \<or> l
         | TMaxStreamData \<Rightarrow> z \<or> l
         | TMaxStreams _ \<Rightarrow> z \<or> l
         | TDataBlocked \<Rightarrow> z \<or> l
         | TStreamDataBlocked \<Rightarrow> z \<or> l
         | TStreamsBlocked _ \<Rightarrow> z \<or> l
         | TNewConnectionId \<Rightarrow> z \<or> l
         | TRetireConnectionId \<Rightarrow> z \<or> l
         | TPathChallenge \<Rightarrow> z \<or> l
         | TPathResponse \<Rightarrow> l
         | TConnectionClose layer \<Rightarrow>
             (case layer of AppLayer \<Rightarrow> z \<or> l | QuicLayer \<Rightarrow> i \<or> h \<or> z \<or> l)
         | THandshakeDone \<Rightarrow> l
         | TDatagram _ \<Rightarrow> z \<or> l
         | TAddAddress _ \<Rightarrow> z \<or> l
         | TRemoveAddress \<Rightarrow> z \<or> l
         | TPunchMeNow _ \<Rightarrow> z \<or> l
         | TPunchHello \<Rightarrow> z \<or> l
         | TPunchDone \<Rightarrow> z \<or> l)"

datatype spec = NonAckEliciting | CongestionControlFree | ProbeNewPath | FlowControlled

fun spec_bit :: "spec \<Rightarrow> byte" where
  "spec_bit NonAckEliciting = 1"
| "spec_bit CongestionControlFree = 2"
| "spec_bit ProbeNewPath = 4"
| "spec_bit FlowControlled = 8"

definition contain_spec :: "byte \<Rightarrow> spec \<Rightarrow> bool" where
  "contain_spec b s \<longleftrightarrow> b AND spec_bit s \<noteq> 0"

definition frame_specs :: "frame_type \<Rightarrow> byte" where
  "frame_specs ft =
     (let n = spec_bit NonAckEliciting; c = spec_bit CongestionControlFree;
          p = spec_bit ProbeNewPath; f = spec_bit FlowControlled
      in case ft of
           TPadding \<Rightarrow> n OR p
         | TAck _ \<Rightarrow> n OR c
         | TStream _ _ _ \<Rightarrow> f
         | TNewConnectionId \<Rightarrow> p
         | TPathChallenge \<Rightarrow> p
         | TPathResponse \<Rightarrow> p
         | TConnectionClose _ \<Rightarrow> n OR c
         | TPunchHello \<Rightarrow> n
         | TPunchDone \<Rightarrow> n
         | _ \<Rightarrow> 0)"

fun offset_bits :: "offset_flag \<Rightarrow> byte" where
  "offset_bits Zero = 0"
| "offset_bits NonZero = 4"

definition offset_from :: "64 word \<Rightarrow> offset_flag" where
  "offset_from v = (if v AND 4 = 0 then Zero else NonZero)"

fun len_bits :: "len_flag \<Rightarrow> byte" where
  "len_bits Explicit = 2"
| "len_bits Omit = 0"

definition len_from :: "64 word \<Rightarrow> len_flag" where
  "len_from v = (if v AND 2 = 0 then Omit else Explicit)"

fun fin_bits :: "fin_flag \<Rightarrow> byte" where
  "fin_bits Yes = 1"
| "fin_bits No = 0"

definition fin_from :: "64 word \<Rightarrow> fin_flag" where
  "fin_from v = (if v AND 1 = 0 then No else Yes)"

fun family_bits :: "family \<Rightarrow> 32 word" where
  "family_bits V4 = 0"
| "family_bits V6 = 1"

definition frame_type_of :: "nat \<Rightarrow> frame_type option" where
  "frame_type_of ty =
     (if ty = 0x00 then Some TPadding
      else if ty = 0x01 then Some TPing
      else if ty = 0x02 then Some (TAck NoEcn)
      else if ty = 0x03 then Some (TAck EcnExist)
      else if ty = 0x04 then Some TResetStream
      else if ty = 0x05 then Some TStopSending
      else if ty = 0x06 then Some TCrypto
      else if ty = 0x07 then Some TNewToken
      else if 0x08 \<le> ty \<and> ty \<le> 0x0f then
        Some (TStream (offset_from (word_of_nat ty)) (len_from (word_of_nat ty)) (fin_from (word_of_nat ty)))
      else if ty = 0x10 then Some TMaxData
      else if ty = 0x11 then Some TMaxStreamData
      else if ty = 0x12 then Some (TMaxStreams Bi)
      else if ty = 0x13 then Some (TMaxStreams Uni)
      else if ty = 0x14 then Some TDataBlocked
      else if ty = 0x15 then Some TStreamDataBlocked
      else if ty = 0x16 then Some (TStreamsBlocked Bi)
      else if ty = 0x17 then Some (TStreamsBlocked Uni)
      else if ty = 0x18 then Some TNewConnectionId
      else if ty = 0x19 then Some TRetireConnectionId
      else if ty = 0x1a then Some TPathChallenge
      else if ty = 0x1b then Some TPathResponse
      else if ty = 0x1c then Some (TConnectionClose QuicLayer)
      else if ty = 0x1d then Some (TConnectionClose AppLayer)
      else if ty = 0x1e then Some THandshakeDone
      else if ty = 0x30 \<or> ty = 0x31 then Some (TDatagram (word_of_nat ty AND 1))
      else if ty = 0x3d7e90 then Some (TAddAddress V4)
      else if ty = 0x3d7e91 then Some (TAddAddress V6)
      else if ty = 0x3d7e92 then Some (TPunchMeNow V4)
      else if ty = 0x3d7e93 then Some (TPunchMeNow V6)
      else if ty = 0x3d7e94 then Some TRemoveAddress
      else if ty = 0x3d7e95 then Some TPunchHello
      else if ty = 0x3d7e96 then Some TPunchDone
      else None)"

fun varint_of_type :: "frame_type \<Rightarrow> nat" where
  "varint_of_type TPadding = 0x00"
| "varint_of_type TPing = 0x01"
| "varint_of_type (TAck NoEcn) = 0x02"
| "varint_of_type (TAck EcnExist) = 0x03"
| "varint_of_type TResetStream = 0x04"
| "varint_of_type TStopSending = 0x05"
| "varint_of_type TCrypto = 0x06"
| "varint_of_type TNewToken = 0x07"
| "varint_of_type (TStream off len fin) = unat (8 OR offset_bits off OR len_bits len OR fin_bits fin)"
| "varint_of_type TMaxData = 0x10"
| "varint_of_type TMaxStreamData = 0x11"
| "varint_of_type (TMaxStreams Bi) = 0x12"
| "varint_of_type (TMaxStreams Uni) = 0x13"
| "varint_of_type TDataBlocked = 0x14"
| "varint_of_type TStreamDataBlocked = 0x15"
| "varint_of_type (TStreamsBlocked Bi) = 0x16"
| "varint_of_type (TStreamsBlocked Uni) = 0x17"
| "varint_of_type TNewConnectionId = 0x18"
| "varint_of_type TRetireConnectionId = 0x19"
| "varint_of_type TPathChallenge = 0x1a"
| "varint_of_type TPathResponse = 0x1b"
| "varint_of_type (TConnectionClose QuicLayer) = 0x1c"
| "varint_of_type (TConnectionClose AppLayer) = 0x1d"
| "varint_of_type THandshakeDone = 0x1e"
| "varint_of_type (TDatagram with_len) = unat (0x30 OR with_len)"
| "varint_of_type (TAddAddress fam) = unat (0x3d7e90 OR family_bits fam)"
| "varint_of_type (TPunchMeNow fam) = unat (0x3d7e92 OR family_bits fam)"
| "varint_of_type TRemoveAddress = 0x3d7e94"
| "varint_of_type TPunchHello = 0x3d7e95"
| "varint_of_type TPunchDone = 0x3d7e96"

definition put_frame_type :: "frame_type \<Rightarrow> writer" where
  "put_frame_type ft = put_varint (varint_of_type ft)"

section \<open>Errors\<close>

datatype error_kind =
    NoError | Internal | ConnectionRefused | FlowControl | StreamLimit | StreamState | FinalSize
  | FrameEncoding | TransportParameter | ConnectionIdLimit | ProtocolViolation | InvalidToken
  | Application | CryptoBufferExceeded | KeyUpdate | AeadLimitReached | NoViablePath | CryptoAlert byte

definition error_kind_of :: "nat \<Rightarrow> error_kind option" where
  "error_kind_of v =
     (if v = 0x00 then Some NoError
      else if v = 0x01 then Some Internal
      else if v = 0x02 then Some ConnectionRefused
      else if v = 0x03 then Some FlowControl
      else if v = 0x04 then Some StreamLimit
      else if v = 0x05 then Some StreamState
      else if v = 0x06 then Some FinalSize
      else if v = 0x07 then Some FrameEncoding
      else if v = 0x08 then Some TransportParameter
      else if v = 0x09 then Some ConnectionIdLimit
      else if v = 0x0a then Some ProtocolViolation
      else if v = 0x0b then Some InvalidToken
      else if v = 0x0c then Some Application
      else if v = 0x0d then Some CryptoBufferExceeded
      else if v = 0x0e then Some KeyUpdate
      else if v = 0x0f then Some AeadLimitReached
      else if v = 0x10 then Some NoViablePath
      else if 0x0100 \<le> v \<and> v \<le> 0x01ff then Some (CryptoAlert (ucast (word_of_nat v AND 0xff :: 64 word)))
      else None)"

fun varint_of_error :: "error_kind \<Rightarrow> nat" where
  "varint_of_error NoError = 0x00"
| "varint_of_error Internal = 0x01"
| "varint_of_error ConnectionRefused = 0x02"
| "varint_of_error FlowControl = 0x03"
| "varint_of_error StreamLimit = 0x04"
| "varint_of_error StreamState = 0x05"
| "varint_of_error FinalSize = 0x06"
| "varint_of_error FrameEncoding = 0x07"
| "varint_of_error TransportParameter = 0x08"
| "varint_of_error ConnectionIdLimit = 0x09"
| "varint_of_error ProtocolViolation = 0x0a"
| "varint_of_error InvalidToken = 0x0b"
| "varint_of_error Application = 0x0c"
| "varint_of_error CryptoBufferExceeded = 0x0d"
| "varint_of_error KeyUpdate = 0x0e"
| "varint_of_error AeadLimitReached = 0x0f"
| "varint_of_error NoViablePath = 0x10"
| "varint_of_error (CryptoAlert x) = unat (0x0100 OR ucast x :: 16 word)"

datatype error_frame_type = V1Frame frame_type | Ext nat

fun varint_of_error_frame :: "error_frame_type \<Rightarrow> nat" where
  "varint_of_error_frame (V1Frame ft) = varint_of_type ft"
| "varint_of_error_frame (Ext v) = v"

record quic_error =
  qe_kind :: error_kind
  qe_frame_type :: error_frame_type

section \<open>The frame type parser\<close>

text \<open>
  The errors of \<open>qbase/src/frame/error.rs\<close>, without their texts.
\<close>

datatype frame_error =
    NoFrames
  | IncompleteType
  | InvalidType nat
  | WrongType frame_type packet_type
  | IncompleteFrame frame_type
  | ParseError frame_type nom_kind

definition be_frame_type :: "nom \<Rightarrow> byte list \<Rightarrow> frame_error + (byte list \<times> frame_type)" where
  "be_frame_type n input =
     and_then (map_err (\<lambda>_. IncompleteType) (be_varint n input))
       (\<lambda>(remain, v). case frame_type_of v of None \<Rightarrow> Inl (InvalidType v) | Some ft \<Rightarrow> Inr (remain, ft))"

fun quic_error_of :: "frame_error \<Rightarrow> quic_error" where
  "quic_error_of NoFrames = \<lparr>qe_kind = ProtocolViolation, qe_frame_type = V1Frame TPadding\<rparr>"
| "quic_error_of IncompleteType = \<lparr>qe_kind = FrameEncoding, qe_frame_type = V1Frame TPadding\<rparr>"
| "quic_error_of (InvalidType _) = \<lparr>qe_kind = FrameEncoding, qe_frame_type = V1Frame TPadding\<rparr>"
| "quic_error_of (WrongType ft _) = \<lparr>qe_kind = FrameEncoding, qe_frame_type = V1Frame ft\<rparr>"
| "quic_error_of (IncompleteFrame ft) = \<lparr>qe_kind = FrameEncoding, qe_frame_type = V1Frame ft\<rparr>"
| "quic_error_of (ParseError ft _) = \<lparr>qe_kind = FrameEncoding, qe_frame_type = V1Frame ft\<rparr>"

section \<open>Facts\<close>

text \<open>The flag of a DATAGRAM type is one bit; every other frame type is well-formed.\<close>

fun type_wf :: "frame_type \<Rightarrow> bool" where
  "type_wf (TDatagram w) \<longleftrightarrow> w = 0 \<or> w = 1"
| "type_wf _ \<longleftrightarrow> True"

lemma stream_type_bits:
  "unat (8 OR offset_bits off OR len_bits len OR fin_bits fin) =
     8 + (case off of NonZero \<Rightarrow> 4 | Zero \<Rightarrow> 0) + (case len of Explicit \<Rightarrow> 2 | Omit \<Rightarrow> 0) +
     (case fin of Yes \<Rightarrow> 1 | No \<Rightarrow> 0)"
  by (cases off; cases len; cases fin) simp_all

lemma family_type_bits:
  "unat (0x3d7e90 OR family_bits fam) = 0x3d7e90 + (case fam of V6 \<Rightarrow> 1 | V4 \<Rightarrow> 0)"
  "unat (0x3d7e92 OR family_bits fam) = 0x3d7e92 + (case fam of V6 \<Rightarrow> 1 | V4 \<Rightarrow> 0)"
  by (cases fam; simp)+

lemma stream_type_of:
  assumes "8 \<le> ty" and "ty \<le> 15"
  shows "frame_type_of ty = Some (TStream (if ty div 4 mod 2 = 1 then NonZero else Zero)
     (if ty div 2 mod 2 = 1 then Explicit else Omit) (if ty mod 2 = 1 then Yes else No))"
proof -
  consider "ty = 8" | "ty = 9" | "ty = 10" | "ty = 11" | "ty = 12" | "ty = 13" | "ty = 14" | "ty = 15"
    using assms by linarith
  then show ?thesis by cases (simp_all add: frame_type_of_def offset_from_def len_from_def fin_from_def)
qed

lemma frame_type_roundtrip:
  assumes "type_wf ft"
  shows "frame_type_of (varint_of_type ft) = Some ft"
proof (cases ft)
  case (TStream off len fin)
  have "8 \<le> varint_of_type ft" "varint_of_type ft \<le> 15"
    unfolding TStream varint_of_type.simps stream_type_bits by (cases off; cases len; cases fin; simp)+
  from stream_type_of [OF this] show ?thesis
    unfolding TStream varint_of_type.simps stream_type_bits by (cases off; cases len; cases fin; simp)
next
  case (TDatagram w)
  then show ?thesis using assms by (auto simp: frame_type_of_def)
next
  case (TAck e)
  then show ?thesis by (cases e) (simp_all add: frame_type_of_def)
next
  case (TMaxStreams d)
  then show ?thesis by (cases d) (simp_all add: frame_type_of_def)
next
  case (TStreamsBlocked d)
  then show ?thesis by (cases d) (simp_all add: frame_type_of_def)
next
  case (TConnectionClose l)
  then show ?thesis by (cases l) (simp_all add: frame_type_of_def)
next
  case (TAddAddress f)
  then show ?thesis by (cases f) (simp_all add: frame_type_of_def)
next
  case (TPunchMeNow f)
  then show ?thesis by (cases f) (simp_all add: frame_type_of_def)
qed (simp_all add: frame_type_of_def)

lemma if_SomeE:
  assumes "(if P then Some a else r) = Some b"
  obtains "P" "b = a" | "r = Some b"
  using assms by (cases P) auto

lemma frame_type_of_inverse:
  assumes "frame_type_of v = Some ft"
  shows "varint_of_type ft = v \<and> type_wf ft"
proof (cases "8 \<le> v \<and> v \<le> 15")
  case True
  then consider "v = 8" | "v = 9" | "v = 10" | "v = 11" | "v = 12" | "v = 13" | "v = 14" | "v = 15"
    by linarith
  then show ?thesis
    using assms by cases (simp_all add: stream_type_of, (force simp: stream_type_bits)+)
next
  case False
  have "v = 48 \<or> v = 49 \<Longrightarrow> unat (48 OR (word_of_nat v AND 1 :: byte)) = v \<and>
      (word_of_nat v AND 1 = (0 :: byte) \<or> word_of_nat v AND 1 = (1 :: byte))"
    by (elim disjE) simp_all
  then show ?thesis
    using assms unfolding frame_type_of_def by (elim if_SomeE) (simp_all add: False)
qed

lemma varint_of_type_less: "varint_of_type ft < 2 ^ 30"
proof (cases ft rule: varint_of_type.cases)
  case (25 w)
  then show ?thesis using unat_bound [of "0x30 OR w"] by simp
qed (simp_all add: stream_type_bits family_type_bits split: offset_flag.split len_flag.split fin_flag.split family.split)

text \<open>Masks and shifts as arithmetic.\<close>

lemma unat_and_mask: "unat (x AND mask k :: 'a::len word) = unat x mod 2 ^ k"
  by (simp only: take_bit_eq_mask [symmetric] unsigned_take_bit_eq) (simp add: take_bit_eq_mod)

lemma low_byte: "unat (ucast (word_of_nat v AND 0xff :: 64 word) :: byte) = v mod 256"
proof -
  have m: "(0xff :: 64 word) = mask 8" by (simp add: mask_eq_exp_minus_1)
  have "unat (word_of_nat v AND 0xff :: 64 word) = v mod 2 ^ 64 mod 2 ^ 8"
    unfolding m unat_and_mask by (simp add: unat_of_nat)
  also have "\<dots> = v mod 2 ^ 8" by (rule mod_mod_cancel) simp
  finally show ?thesis by (simp add: unsigned_ucast_eq take_bit_eq_mod)
qed

lemma unat_alert: "unat (0x0100 OR ucast x :: 16 word) = 256 + unat (x :: byte)"
  using unat_or_push [of "unat x" 8 1, where 'a = 16] unat_bound [of x] by simp

lemma error_kind_roundtrip: "error_kind_of (varint_of_error k) = Some k"
proof (cases k)
  case (CryptoAlert x)
  have "ucast (word_of_nat (256 + unat x) AND 0xff :: 64 word) = x"
    using unat_bound [of x] low_byte [of "256 + unat x"] by (simp add: word_unat_eq_iff del: of_nat_add)
  then show ?thesis using unat_bound [of x] by (simp add: CryptoAlert unat_alert error_kind_of_def)
qed (simp_all add: error_kind_of_def)

lemma error_kind_of_inverse: 
  assumes "error_kind_of v = Some k"
  shows "varint_of_error k = v"
proof (cases "0x0100 \<le> v \<and> v \<le> 0x01ff")
  case True
  then have "k = CryptoAlert (ucast (word_of_nat v AND 0xff :: 64 word))"
    using assms by (simp add: error_kind_of_def)
  moreover have "v div 256 = 1" using True by (intro div_nat_eqI) simp_all
  then have "v = 256 + v mod 256" using div_mult_mod_eq [of v 256] by simp
  ultimately show ?thesis by (simp only: varint_of_error.simps unat_alert low_byte)
next
  case False
  then show ?thesis using assms unfolding error_kind_of_def by (auto split: if_splits)
qed

lemma varint_of_error_less: "varint_of_error k < 2 ^ 14"
proof (cases k)
  case (CryptoAlert x)
  then show ?thesis using unat_bound [of x] by (simp add: unat_alert)
qed simp_all

lemma unat_sid_new: 
  assumes "sid_new r d i = Some s"
  shows "unat s = 4 * i + (case d of Uni \<Rightarrow> 2 | Bi \<Rightarrow> 0) + (case r of Server \<Rightarrow> 1 | Client \<Rightarrow> 0)"
proof -
  have i: "i < 2 ^ 60" using assms by (simp add: sid_new_def MAX_STREAMS_LIMIT_def split: if_splits)
  define j where "j = i * 2 + (case d of Uni \<Rightarrow> 1 | Bi \<Rightarrow> 0)"
  have j: "j < 2 ^ 61" using i by (simp add: j_def split: dir.split)
  have "unat (push_bit 1 (word_of_nat i) OR dir_bit d) = j"
    using unat_or_push [of "case d of Uni \<Rightarrow> 1 | Bi \<Rightarrow> 0" 1 i, where 'a = 64] i by (cases d) (simp_all add: j_def)
  moreover have "unat (word_of_nat j :: 64 word) = j" using j by (simp add: unat_of_nat)
  ultimately have 1: "push_bit 1 (word_of_nat i) OR dir_bit d = word_of_nat j"
    by (metis word_unat_eq_iff)
  from j have "unat (push_bit 1 (word_of_nat j) OR role_bit r) = j * 2 + (case r of Server \<Rightarrow> 1 | Client \<Rightarrow> 0)"
    using unat_or_push [of "case r of Server \<Rightarrow> 1 | Client \<Rightarrow> 0" 1 j, where 'a = 64] by (cases r) simp_all
  moreover have "s = push_bit 1 (word_of_nat j) OR role_bit r"
    using assms 1 by (simp add: sid_new_def split: if_splits)
  ultimately show ?thesis by (simp add: j_def split: dir.split)
qed

lemma and_bit_zero: "(s :: 'a::len word) AND 2 ^ k = 0 \<longleftrightarrow> unat s div 2 ^ k mod 2 = 0"
proof -
  have "bit s k \<longleftrightarrow> bit (unat s) k"
    using bit_imp_le_length [of s k] by (auto simp: bit_unsigned_iff)
  then show ?thesis by (simp add: and_exp_eq_0_iff_not_bit bit_iff_odd even_iff_mod_2_eq_zero)
qed

lemma sid_fields:
  "sid_role s = (if unat s mod 2 = 0 then Client else Server)"
  "sid_dir s = (if unat s div 2 mod 2 = 0 then Bi else Uni)"
  "sid_id s = unat s div 4"
proof -
  show "sid_role s = (if unat s mod 2 = 0 then Client else Server)"
    using and_bit_zero [of s 0] by (simp add: sid_role_def)
  show "sid_dir s = (if unat s div 2 mod 2 = 0 then Bi else Uni)"
    using and_bit_zero [of s 1] by (simp add: sid_dir_def)
  show "sid_id s = unat s div 4"
    by (simp only: sid_id_def unsigned_drop_bit_eq) (use unat_bound [of s] in \<open>simp add: drop_bit_eq_div take_bit_nat_eq_self\<close>)
qed

lemma sid_roundtrip: 
  assumes "sid_new r d i = Some s"
  shows "sid_role s = r \<and> sid_dir s = d \<and> sid_id s = i \<and> unat s < 2 ^ 62"
proof -
  have "i < 2 ^ 60" using assms by (simp add: sid_new_def MAX_STREAMS_LIMIT_def split: if_splits)
  then show ?thesis using unat_sid_new [OF assms]
    by (cases r; cases d) (simp_all add: sid_fields, presburger+)
qed

lemma sid_new_fields: 
  assumes "unat s < 2 ^ 62"
  shows "sid_new (sid_role s) (sid_dir s) (sid_id s) = Some s"
proof -
  have "sid_id s \<le> MAX_STREAMS_LIMIT" using assms by (simp add: sid_fields MAX_STREAMS_LIMIT_def)
  then obtain t where t: "sid_new (sid_role s) (sid_dir s) (sid_id s) = Some t" by (auto simp: sid_new_def)
  have "unat t = unat s"
    unfolding unat_sid_new [OF t] by (simp add: sid_fields) presburger
  with t show ?thesis by (simp add: word_unat_eq_iff)
qed

end
