(* ===== verification/Frame.thy ===== *)
theory Frame
  imports Frame_Type
begin

unbundle bit_operations_syntax

text \<open>
  The frames of \<open>qbase/src/frame.rs\<close> and \<open>qbase/src/frame/*.rs\<close>: for each kind its fields, its writer,
  its parser and the size it claims to need. \<open>be_frame\<close> is the parser of \<open>qbase/src/frame/io.rs\<close> and
  \<open>read_frames\<close> the iterator \<open>FrameReader\<close> over a packet payload.

  Connection identifiers and reset tokens are byte strings, a socket address is its family, its
  address as a number and its port. A frame with a text carries the bytes of the text;
  \<open>utf8_lossy\<close> is \<open>String::from_utf8_lossy\<close>.
\<close>

section \<open>Texts\<close>

text \<open>
  The decoder of the standard library: how many bytes belong to the next character or, with
  \<open>False\<close>, to the next maximal ill-formed piece. A byte past the end reads as zero.
\<close>

definition byte_at :: "byte list \<Rightarrow> nat \<Rightarrow> nat" where
  "byte_at xs i = (if i < length xs then unat (xs ! i) else 0)"

definition is_cont :: "nat \<Rightarrow> bool" where
  "is_cont b \<longleftrightarrow> 128 \<le> b \<and> b < 192"

definition utf8_chunk :: "byte list \<Rightarrow> nat \<times> bool" where
  "utf8_chunk xs =
     (let a = byte_at xs 0; b = byte_at xs 1; c = byte_at xs 2; d = byte_at xs 3
      in if a < 128 then (1, True)
         else if 0xC2 \<le> a \<and> a \<le> 0xDF then (if is_cont b then (2, True) else (1, False))
         else if 0xE0 \<le> a \<and> a \<le> 0xEF then
           (if \<not> (a = 0xE0 \<and> 0xA0 \<le> b \<and> b \<le> 0xBF \<or> 0xE1 \<le> a \<and> a \<le> 0xEC \<and> is_cont b \<or>
                   a = 0xED \<and> 0x80 \<le> b \<and> b \<le> 0x9F \<or> 0xEE \<le> a \<and> is_cont b) then (1, False)
            else if \<not> is_cont c then (2, False) else (3, True))
         else if 0xF0 \<le> a \<and> a \<le> 0xF4 then
           (if \<not> (a = 0xF0 \<and> 0x90 \<le> b \<and> b \<le> 0xBF \<or> 0xF1 \<le> a \<and> a \<le> 0xF3 \<and> is_cont b \<or>
                   a = 0xF4 \<and> 0x80 \<le> b \<and> b \<le> 0x8F) then (1, False)
            else if \<not> is_cont c then (2, False)
            else if \<not> is_cont d then (3, False) else (4, True))
         else (1, False))"

lemma utf8_chunk_pos: "0 < fst (utf8_chunk xs)"
  by (auto simp: utf8_chunk_def Let_def)

function utf8_lossy :: "byte list \<Rightarrow> byte list" where
  "utf8_lossy xs =
     (if xs = [] then []
      else let (k, ok) = utf8_chunk xs
           in (if ok then take k xs else [0xEF, 0xBF, 0xBD]) @ utf8_lossy (drop k xs))"
  by auto
termination
proof (relation "measure length")
  fix xs :: "byte list" and p k ok
  assume "xs \<noteq> []" and p: "p = utf8_chunk xs" "(k, ok) = p"
  have "0 < k" using utf8_chunk_pos [of xs] p by (metis fst_conv)
  then show "(drop k xs, xs) \<in> measure length" using \<open>xs \<noteq> []\<close> by (cases xs) auto
qed simp

declare utf8_lossy.simps [simp del]

text \<open>The invariant of \<open>String\<close>.\<close>

definition utf8_valid :: "byte list \<Rightarrow> bool" where
  "utf8_valid s \<longleftrightarrow> utf8_lossy s = s"

section \<open>Parts of frames\<close>

definition sum_sizes :: "nat option list \<Rightarrow> nat option" where
  "sum_sizes ss = (if None \<in> set ss then None else Some (sum_list (map the ss)))"

definition MAX_CID_SIZE :: nat where
  "MAX_CID_SIZE = 20"

definition RESET_TOKEN_SIZE :: nat where
  "RESET_TOKEN_SIZE = 16"

definition be_connection_id_with_len :: "nom \<Rightarrow> byte list \<Rightarrow> nat \<Rightarrow> byte list presult" where
  "be_connection_id_with_len n input len =
     (if MAX_CID_SIZE < len then Inl (Err TooLarge) else take_streaming n len input)"

definition be_connection_id :: "nom \<Rightarrow> byte list \<Rightarrow> byte list presult" where
  "be_connection_id n input =
     and_then (be_uint_streaming n 1 input) (\<lambda>(remain, len). be_connection_id_with_len n remain len)"

definition put_connection_id :: "byte list \<Rightarrow> writer" where
  "put_connection_id cid = puts [put_uint 1 (length cid), put_slice cid]"

definition be_reset_token :: "nom \<Rightarrow> byte list \<Rightarrow> byte list presult" where
  "be_reset_token n input = take_complete n RESET_TOKEN_SIZE input"

datatype nat_type = Blocked | FullCone | RestrictedCone | RestrictedPort | Symmetric | Dynamic

fun varint_of_nat_type :: "nat_type \<Rightarrow> nat" where
  "varint_of_nat_type Blocked = 0"
| "varint_of_nat_type FullCone = 1"
| "varint_of_nat_type RestrictedCone = 2"
| "varint_of_nat_type RestrictedPort = 3"
| "varint_of_nat_type Symmetric = 4"
| "varint_of_nat_type Dynamic = 5"

definition nat_type_of_u8 :: "byte \<Rightarrow> nat_type option" where
  "nat_type_of_u8 v =
     (if v = 0 then Some Blocked
      else if v = 1 then Some FullCone
      else if v = 2 then Some RestrictedCone
      else if v = 3 then Some RestrictedPort
      else if v = 4 then Some Symmetric
      else if v = 5 then Some Dynamic
      else None)"

definition nat_type_of :: "nat \<Rightarrow> nat_type option" where
  "nat_type_of v = nat_type_of_u8 (word_of_nat v)"

record socket_addr =
  sa_family :: family
  sa_ip :: nat
  sa_port :: nat

definition be_ip_addr :: "nom \<Rightarrow> family \<Rightarrow> byte list \<Rightarrow> nat presult" where
  "be_ip_addr n fam input =
     (case fam of V6 \<Rightarrow> be_uint_complete n 16 input | V4 \<Rightarrow> be_uint_complete n 4 input)"

definition be_socket_addr :: "nom \<Rightarrow> family \<Rightarrow> byte list \<Rightarrow> socket_addr presult" where
  "be_socket_addr n fam input =
     and_then (be_uint_complete n 2 input) (\<lambda>(remain, port).
       map_ok (apsnd (\<lambda>ip. \<lparr>sa_family = fam, sa_ip = ip, sa_port = port\<rparr>)) (be_ip_addr n fam remain))"

definition put_socket_addr :: "socket_addr \<Rightarrow> writer" where
  "put_socket_addr a =
     puts [put_uint 2 (sa_port a),
       case sa_family a of V4 \<Rightarrow> put_uint 4 (sa_ip a) | V6 \<Rightarrow> put_uint 16 (sa_ip a)]"

definition socket_addr_size :: "socket_addr \<Rightarrow> nat" where
  "socket_addr_size a = (case sa_family a of V4 \<Rightarrow> 2 + 4 | V6 \<Rightarrow> 2 + 16)"

section \<open>Frames with a few integers\<close>

record max_stream_data_frame =
  msd_stream_id :: "64 word"
  msd_max :: nat

record stream_data_blocked_frame =
  sdb_stream_id :: "64 word"
  sdb_max :: nat

record stop_sending_frame =
  ss_stream_id :: "64 word"
  ss_app_err :: nat

record reset_stream_frame =
  rs_stream_id :: "64 word"
  rs_app_err :: nat
  rs_final_size :: nat

datatype stream_ctl_frame =
    MaxData nat
  | DataBlocked nat
  | ResetStream reset_stream_frame
  | StopSending stop_sending_frame
  | MaxStreamData max_stream_data_frame
  | MaxStreams dir nat
  | StreamDataBlocked stream_data_blocked_frame
  | StreamsBlocked dir nat

fun ctl_type :: "stream_ctl_frame \<Rightarrow> frame_type" where
  "ctl_type (MaxData _) = TMaxData"
| "ctl_type (DataBlocked _) = TDataBlocked"
| "ctl_type (ResetStream _) = TResetStream"
| "ctl_type (StopSending _) = TStopSending"
| "ctl_type (MaxStreamData _) = TMaxStreamData"
| "ctl_type (MaxStreams d _) = TMaxStreams d"
| "ctl_type (StreamDataBlocked _) = TStreamDataBlocked"
| "ctl_type (StreamsBlocked d _) = TStreamsBlocked d"

definition be_max_data_frame :: "nom \<Rightarrow> byte list \<Rightarrow> stream_ctl_frame presult" where
  "be_max_data_frame n input = map_ok (apsnd MaxData) (be_varint n input)"

definition put_max_data :: "nat \<Rightarrow> writer" where
  "put_max_data v = puts [put_frame_type TMaxData, put_varint v]"

definition be_data_blocked_frame :: "nom \<Rightarrow> byte list \<Rightarrow> stream_ctl_frame presult" where
  "be_data_blocked_frame n input = map_ok (apsnd DataBlocked) (be_varint n input)"

definition put_data_blocked :: "nat \<Rightarrow> writer" where
  "put_data_blocked v = puts [put_frame_type TDataBlocked, put_varint v]"

definition be_reset_stream_frame :: "nom \<Rightarrow> byte list \<Rightarrow> stream_ctl_frame presult" where
  "be_reset_stream_frame n input =
     and_then (be_streamid n input) (\<lambda>(remain, stream_id).
     and_then (be_varint n remain) (\<lambda>(remain, app_error_code).
     map_ok (apsnd (\<lambda>final_size.
       ResetStream \<lparr>rs_stream_id = stream_id, rs_app_err = app_error_code, rs_final_size = final_size\<rparr>))
       (be_varint n remain)))"

definition put_reset_stream :: "reset_stream_frame \<Rightarrow> writer" where
  "put_reset_stream f =
     puts [put_frame_type TResetStream, put_streamid (rs_stream_id f), put_varint (rs_app_err f),
       put_varint (rs_final_size f)]"

definition be_stop_sending_frame :: "nom \<Rightarrow> byte list \<Rightarrow> stream_ctl_frame presult" where
  "be_stop_sending_frame n input =
     and_then (be_streamid n input) (\<lambda>(remain, stream_id).
     map_ok (apsnd (\<lambda>code. StopSending \<lparr>ss_stream_id = stream_id, ss_app_err = code\<rparr>)) (be_varint n remain))"

definition put_stop_sending :: "stop_sending_frame \<Rightarrow> writer" where
  "put_stop_sending f =
     puts [put_frame_type TStopSending, put_streamid (ss_stream_id f), put_varint (ss_app_err f)]"

definition stop_to_reset :: "stop_sending_frame \<Rightarrow> nat \<Rightarrow> reset_stream_frame" where
  "stop_to_reset f final_size =
     \<lparr>rs_stream_id = ss_stream_id f, rs_app_err = ss_app_err f, rs_final_size = final_size\<rparr>"

definition be_max_stream_data_frame :: "nom \<Rightarrow> byte list \<Rightarrow> stream_ctl_frame presult" where
  "be_max_stream_data_frame n input =
     and_then (be_streamid n input) (\<lambda>(remain, stream_id).
     map_ok (apsnd (\<lambda>v. MaxStreamData \<lparr>msd_stream_id = stream_id, msd_max = v\<rparr>)) (be_varint n remain))"

definition put_max_stream_data :: "max_stream_data_frame \<Rightarrow> writer" where
  "put_max_stream_data f =
     puts [put_frame_type TMaxStreamData, put_streamid (msd_stream_id f), put_varint (msd_max f)]"

definition max_streams_frame_with_dir :: "nom \<Rightarrow> dir \<Rightarrow> byte list \<Rightarrow> stream_ctl_frame presult" where
  "max_streams_frame_with_dir n d input =
     and_then (be_varint n input) (\<lambda>(remain, max_streams).
       if MAX_STREAMS_LIMIT < max_streams then Inl (Err TooLarge)
       else Inr (remain, MaxStreams d max_streams))"

definition put_max_streams :: "dir \<Rightarrow> nat \<Rightarrow> writer" where
  "put_max_streams d v = puts [put_frame_type (TMaxStreams d), put_varint v]"

definition be_stream_data_blocked_frame :: "nom \<Rightarrow> byte list \<Rightarrow> stream_ctl_frame presult" where
  "be_stream_data_blocked_frame n input =
     and_then (be_streamid n input) (\<lambda>(remain, stream_id).
     and_then (be_varint n remain) (\<lambda>(remain, v).
       Inr (remain, StreamDataBlocked \<lparr>sdb_stream_id = stream_id, sdb_max = v\<rparr>)))"

definition put_stream_data_blocked :: "stream_data_blocked_frame \<Rightarrow> writer" where
  "put_stream_data_blocked f =
     puts [put_frame_type TStreamDataBlocked, put_streamid (sdb_stream_id f), put_varint (sdb_max f)]"

definition streams_blocked_frame_with_dir :: "nom \<Rightarrow> dir \<Rightarrow> byte list \<Rightarrow> stream_ctl_frame presult" where
  "streams_blocked_frame_with_dir n d input =
     and_then (be_varint n input) (\<lambda>(remain, max_streams). Inr (remain, StreamsBlocked d max_streams))"

definition put_streams_blocked :: "dir \<Rightarrow> nat \<Rightarrow> writer" where
  "put_streams_blocked d v = puts [put_frame_type (TStreamsBlocked d), put_varint v]"

fun put_stream_ctl :: "stream_ctl_frame \<Rightarrow> writer" where
  "put_stream_ctl (MaxData v) = put_max_data v"
| "put_stream_ctl (DataBlocked v) = put_data_blocked v"
| "put_stream_ctl (ResetStream f) = put_reset_stream f"
| "put_stream_ctl (StopSending f) = put_stop_sending f"
| "put_stream_ctl (MaxStreamData f) = put_max_stream_data f"
| "put_stream_ctl (MaxStreams d v) = put_max_streams d v"
| "put_stream_ctl (StreamDataBlocked f) = put_stream_data_blocked f"
| "put_stream_ctl (StreamsBlocked d v) = put_streams_blocked d v"

fun ctl_size :: "stream_ctl_frame \<Rightarrow> nat option" where
  "ctl_size (MaxData v) = sum_sizes [Some 1, varint_size v]"
| "ctl_size (DataBlocked v) = sum_sizes [Some 1, varint_size v]"
| "ctl_size (ResetStream f) =
     sum_sizes [Some 1, streamid_size (rs_stream_id f), varint_size (rs_app_err f), varint_size (rs_final_size f)]"
| "ctl_size (StopSending f) = sum_sizes [Some 1, streamid_size (ss_stream_id f), varint_size (ss_app_err f)]"
| "ctl_size (MaxStreamData f) = sum_sizes [Some 1, streamid_size (msd_stream_id f), varint_size (msd_max f)]"
| "ctl_size (MaxStreams _ v) = sum_sizes [Some 1, varint_size v]"
| "ctl_size (StreamDataBlocked f) = sum_sizes [Some 1, streamid_size (sdb_stream_id f), varint_size (sdb_max f)]"
| "ctl_size (StreamsBlocked _ v) = sum_sizes [Some 1, varint_size v]"

fun ctl_max_size :: "stream_ctl_frame \<Rightarrow> nat" where
  "ctl_max_size (MaxData _) = 1 + 8"
| "ctl_max_size (DataBlocked _) = 1 + 8"
| "ctl_max_size (ResetStream _) = 1 + 8 + 8 + 8"
| "ctl_max_size (StopSending _) = 1 + 8 + 8"
| "ctl_max_size (MaxStreamData _) = 1 + 8 + 8"
| "ctl_max_size (MaxStreams _ _) = 1 + 8"
| "ctl_max_size (StreamDataBlocked _) = 1 + 8 + 8"
| "ctl_max_size (StreamsBlocked _ _) = 1 + 8"

section \<open>ACK frames\<close>

record ecn_counts =
  ect0 :: nat
  ect1 :: nat
  ce :: nat

record ack_frame =
  ack_largest :: nat
  ack_delay :: nat
  ack_first_range :: nat
  ack_ranges :: "(nat \<times> nat) list"
  ack_ecn :: "ecn_counts option"

definition ack_type :: "ack_frame \<Rightarrow> frame_type" where
  "ack_type f = TAck (case ack_ecn f of Some _ \<Rightarrow> EcnExist | None \<Rightarrow> NoEcn)"

definition ecn_size :: "ecn_counts \<Rightarrow> nat option" where
  "ecn_size e = sum_sizes [varint_size (ect0 e), varint_size (ect1 e), varint_size (ce e)]"

definition ack_max_size :: "ack_frame \<Rightarrow> nat" where
  "ack_max_size f =
     1 + 8 + 8 + 8 + 8 + length (ack_ranges f) * 16 + (case ack_ecn f of Some _ \<Rightarrow> 24 | None \<Rightarrow> 0)"

definition ack_size :: "ack_frame \<Rightarrow> nat option" where
  "ack_size f =
     sum_sizes
       [Some 1, varint_size (ack_largest f), varint_size (ack_delay f), varint_size (length (ack_ranges f)),
        varint_size (ack_first_range f),
        sum_sizes (map (\<lambda>(gap, ack). sum_sizes [varint_size gap, varint_size ack]) (ack_ranges f)),
        case ack_ecn f of Some e \<Rightarrow> ecn_size e | None \<Rightarrow> Some 0]"

fun ack_ranges_loop :: "nom \<Rightarrow> nat \<Rightarrow> byte list \<Rightarrow> (nat \<times> nat) list presult" where
  "ack_ranges_loop n 0 remain = Inr (remain, [])"
| "ack_ranges_loop n (Suc count) remain =
     and_then (be_varint n remain) (\<lambda>(remain, gap).
     and_then (be_varint n remain) (\<lambda>(remain, ack).
     map_ok (apsnd (Cons (gap, ack))) (ack_ranges_loop n count remain)))"

definition be_ecn_counts :: "nom \<Rightarrow> byte list \<Rightarrow> ecn_counts presult" where
  "be_ecn_counts n input =
     and_then (be_varint n input) (\<lambda>(remain, e0).
     and_then (be_varint n remain) (\<lambda>(remain, e1).
     map_ok (apsnd (\<lambda>c. \<lparr>ect0 = e0, ect1 = e1, ce = c\<rparr>)) (be_varint n remain)))"

definition ack_frame_with_ecn :: "nom \<Rightarrow> ecn \<Rightarrow> byte list \<Rightarrow> ack_frame presult" where
  "ack_frame_with_ecn n e input =
     and_then (be_varint n input) (\<lambda>(remain, largest).
     and_then (be_varint n remain) (\<lambda>(remain, delay).
     and_then (be_varint n remain) (\<lambda>(remain, count).
     and_then (be_varint n remain) (\<lambda>(remain, first_range).
     and_then (ack_ranges_loop n count remain) (\<lambda>(remain, ranges).
     map_ok (apsnd (\<lambda>counts.
       \<lparr>ack_largest = largest, ack_delay = delay, ack_first_range = first_range, ack_ranges = ranges,
        ack_ecn = counts\<rparr>))
       (if e = EcnExist then map_ok (apsnd Some) (be_ecn_counts n remain) else Inr (remain, None)))))))"

definition put_ack :: "ack_frame \<Rightarrow> writer" where
  "put_ack f =
     puts
       ([put_frame_type (ack_type f), put_varint (ack_largest f), put_varint (ack_delay f),
         put_varint (length (ack_ranges f)), put_varint (ack_first_range f)] @
        concat (map (\<lambda>(gap, ack). [put_varint gap, put_varint ack]) (ack_ranges f)) @
        (case ack_ecn f of
           Some e \<Rightarrow> [put_varint (ect0 e), put_varint (ect1 e), put_varint (ce e)] | None \<Rightarrow> []))"

section \<open>STREAM, CRYPTO and DATAGRAM frames\<close>

record stream_frame =
  sf_id :: "64 word"
  sf_offset :: nat
  sf_length :: nat
  sf_len_bit :: len_flag
  sf_fin_bit :: fin_flag

definition stream_type :: "stream_frame \<Rightarrow> frame_type" where
  "stream_type f =
     TStream (if sf_offset f = 0 then Zero else NonZero) (sf_len_bit f) (sf_fin_bit f)"

definition STREAM_FRAME_MAX_ENCODING_SIZE :: nat where
  "STREAM_FRAME_MAX_ENCODING_SIZE = 1 + 8 + 8 + 8"

definition stream_size :: "stream_frame \<Rightarrow> nat option" where
  "stream_size f =
     sum_sizes
       [Some 1, streamid_size (sf_id f),
        if sf_offset f \<noteq> 0 then varint_size (sf_offset f) else Some 0,
        if sf_len_bit f = Explicit then Option.bind (from_u64 (sf_length f)) varint_size else Some 0]"

definition stream_frame_new :: "64 word \<Rightarrow> nat \<Rightarrow> nat \<Rightarrow> stream_frame option" where
  "stream_frame_new i offset len =
     (if offset \<le> VARINT_MAX
      then Some \<lparr>sf_id = i, sf_offset = offset, sf_length = len, sf_len_bit = Omit, sf_fin_bit = No\<rparr>
      else None)"

definition set_eos_flag :: "bool \<Rightarrow> stream_frame \<Rightarrow> stream_frame" where
  "set_eos_flag is_eos f = (if is_eos then f\<lparr>sf_fin_bit := Yes\<rparr> else f\<lparr>sf_fin_bit := No\<rparr>)"

definition set_len_bit :: "len_flag \<Rightarrow> stream_frame \<Rightarrow> stream_frame" where
  "set_len_bit b f = f\<lparr>sf_len_bit := b\<rparr>"

definition stream_range :: "stream_frame \<Rightarrow> nat \<times> nat" where
  "stream_range f = (sf_offset f, sf_offset f + sf_length f)"

record encoding_strategy =
  es_len_bit :: len_flag
  es_pre_padding :: nat

definition encoding_strategy :: "stream_frame \<Rightarrow> nat \<Rightarrow> encoding_strategy option" where
  "encoding_strategy f capacity =
     (if sf_len_bit f \<noteq> Omit then None
      else case (stream_size f, Option.bind (from_u64 (sf_length f)) varint_size) of
             (Some head, Some len_encoding_size) \<Rightarrow>
               (let encoding_size_without_length = head + sf_length f
                in if capacity < encoding_size_without_length then None
                   else
                     (let remaining = capacity - encoding_size_without_length
                      in if len_encoding_size \<le> remaining then
                           (let remaining = remaining - len_encoding_size
                            in if remaining < STREAM_FRAME_MAX_ENCODING_SIZE
                               then Some \<lparr>es_len_bit = Explicit, es_pre_padding = remaining\<rparr>
                               else Some \<lparr>es_len_bit = Explicit, es_pre_padding = 0\<rparr>)
                         else Some \<lparr>es_len_bit = Omit, es_pre_padding = remaining\<rparr>))
           | _ \<Rightarrow> None)"

text \<open>The outer option is the assertion, the inner one the result.\<close>

definition stream_max_capacity :: "nat \<Rightarrow> 64 word \<Rightarrow> nat \<Rightarrow> nat option option" where
  "stream_max_capacity capacity sid offset =
     (if VARINT_MAX < offset then None
      else
        map_option (\<lambda>least. if capacity \<le> least then None else Some (capacity - least))
          (sum_sizes [Some 1, streamid_size sid, if offset \<noteq> 0 then varint_size offset else Some 0]))"

definition stream_frame_with_flag ::
  "nom \<Rightarrow> offset_flag \<Rightarrow> len_flag \<Rightarrow> fin_flag \<Rightarrow> byte list \<Rightarrow> stream_frame presult" where
  "stream_frame_with_flag n off len fin input =
     and_then (be_streamid n input) (\<lambda>(remain, i).
     and_then (if off = NonZero then be_varint n remain else Inr (remain, 0)) (\<lambda>(remain, offset).
     and_then (if len = Explicit then be_varint n remain else Inr (remain, length remain)) (\<lambda>(remain, l).
       if VARINT_MAX < offset + l then Inl (Err TooLarge)
       else Inr (remain,
         \<lparr>sf_id = i, sf_offset = offset, sf_length = l, sf_len_bit = len, sf_fin_bit = fin\<rparr>))))"

definition put_stream :: "stream_frame \<Rightarrow> byte list \<Rightarrow> writer" where
  "put_stream f d =
     puts
       ([put_frame_type (stream_type f), put_streamid (sf_id f)] @
        (if sf_offset f \<noteq> 0 then [put_varint (sf_offset f)] else []) @
        (if sf_len_bit f = Explicit then [put_varint (unat (word_of_nat (sf_length f) :: 32 word))] else []) @
        [put_slice d])"

record crypto_frame =
  cf_offset :: nat
  cf_length :: nat

definition crypto_size :: "crypto_frame \<Rightarrow> nat option" where
  "crypto_size f = sum_sizes [Some 1, varint_size (cf_offset f), varint_size (cf_length f)]"

definition crypto_range :: "crypto_frame \<Rightarrow> nat \<times> nat" where
  "crypto_range f = (cf_offset f, cf_offset f + cf_length f)"

definition crypto_max_capacity :: "nat \<Rightarrow> nat \<Rightarrow> nat option option" where
  "crypto_max_capacity capacity offset =
     (if VARINT_MAX < offset then None
      else case varint_size offset of
             None \<Rightarrow> None
           | Some k \<Rightarrow>
               (case checked_sub capacity (1 + k + 2) of
                  None \<Rightarrow> Some None
                | Some remaining \<Rightarrow>
                    if remaining \<le> 62 then Some (Some (remaining + 1))
                    else if remaining \<le> 0x3FFF then Some (Some remaining)
                    else if remaining \<le> 0x4001 then Some (Some 0x3FFF)
                    else if remaining \<le> 0x40000001 then Some (Some (remaining - 2))
                    else None))"

definition be_crypto_frame :: "nom \<Rightarrow> byte list \<Rightarrow> crypto_frame presult" where
  "be_crypto_frame n input =
     and_then (be_varint n input) (\<lambda>(remain, offset).
     and_then (be_varint n remain) (\<lambda>(remain, l).
       if VARINT_MAX < offset + offset then Inl (Err TooLarge)
       else Inr (remain, \<lparr>cf_offset = offset, cf_length = l\<rparr>)))"

definition put_crypto :: "crypto_frame \<Rightarrow> byte list \<Rightarrow> writer" where
  "put_crypto f d b =
     (if cf_length f \<noteq> length d then None
      else puts [put_frame_type TCrypto, put_varint (cf_offset f), put_varint (cf_length f), put_slice d] b)"

record datagram_frame =
  df_encode_len :: bool
  df_len :: nat

definition datagram_type :: "datagram_frame \<Rightarrow> frame_type" where
  "datagram_type f = TDatagram (if df_encode_len f then 1 else 0)"

definition datagram_size :: "datagram_frame \<Rightarrow> nat option" where
  "datagram_size f = sum_sizes [Some 1, if df_encode_len f then varint_size (df_len f) else Some 0]"

definition datagram_frame_with_flag :: "nom \<Rightarrow> byte \<Rightarrow> byte list \<Rightarrow> datagram_frame presult" where
  "datagram_frame_with_flag n flag input =
     and_then
       (if flag = 1 then be_varint n input
        else case from_u64 (length input) of None \<Rightarrow> Inl Panicked | Some l \<Rightarrow> Inr (input, l))
       (\<lambda>(remain, l). Inr (remain, \<lparr>df_encode_len = (flag = 1), df_len = l\<rparr>))"

definition put_datagram :: "datagram_frame \<Rightarrow> byte list \<Rightarrow> writer" where
  "put_datagram f d =
     puts ([put_frame_type (datagram_type f)] @ (if df_encode_len f then [put_varint (df_len f)] else []) @
       [put_slice d])"

section \<open>Connection frames\<close>

definition be_new_token_frame :: "nom \<Rightarrow> byte list \<Rightarrow> byte list presult" where
  "be_new_token_frame n input =
     and_then (be_varint n input) (\<lambda>(remain, len). take_streaming n len remain)"

definition put_new_token :: "byte list \<Rightarrow> writer" where
  "put_new_token token =
     puts [put_frame_type TNewToken, put_varint (unat (word_of_nat (length token) :: 32 word)), put_slice token]"

definition new_token_size :: "byte list \<Rightarrow> nat" where
  "new_token_size token = 1 + 1 + length token"

record new_connection_id_frame =
  nc_sequence :: nat
  nc_retire_prior_to :: nat
  nc_id :: "byte list"
  nc_reset_token :: "byte list"

definition be_new_connection_id_frame :: "nom \<Rightarrow> byte list \<Rightarrow> new_connection_id_frame presult" where
  "be_new_connection_id_frame n input =
     and_then (be_varint n input) (\<lambda>(remain, sequence).
     and_then (be_varint n remain) (\<lambda>(remain, retire_prior_to).
       if sequence < retire_prior_to then Inl (Err Verify)
       else
         and_then (be_connection_id n remain) (\<lambda>(remain, cid).
           if cid = [] then Inl (Err Verify)
           else
             and_then (be_reset_token n remain) (\<lambda>(remain, reset_token).
               Inr (remain, \<lparr>nc_sequence = sequence, nc_retire_prior_to = retire_prior_to, nc_id = cid,
                 nc_reset_token = reset_token\<rparr>)))))"

definition put_new_connection_id :: "new_connection_id_frame \<Rightarrow> writer" where
  "put_new_connection_id f =
     puts [put_frame_type TNewConnectionId, put_varint (nc_sequence f), put_varint (nc_retire_prior_to f),
       put_connection_id (nc_id f), put_slice (nc_reset_token f)]"

definition new_connection_id_size :: "new_connection_id_frame \<Rightarrow> nat option" where
  "new_connection_id_size f =
     sum_sizes [Some 1, varint_size (nc_sequence f), varint_size (nc_retire_prior_to f), Some 1,
       Some (length (nc_id f)), Some RESET_TOKEN_SIZE]"

definition be_retire_connection_id_frame :: "nom \<Rightarrow> byte list \<Rightarrow> nat presult" where
  "be_retire_connection_id_frame n input = be_varint n input"

definition put_retire_connection_id :: "nat \<Rightarrow> writer" where
  "put_retire_connection_id s = puts [put_frame_type TRetireConnectionId, put_varint s]"

definition be_path_challenge_frame :: "nom \<Rightarrow> byte list \<Rightarrow> byte list presult" where
  "be_path_challenge_frame n input = take_streaming n 8 input"

definition put_path_challenge :: "byte list \<Rightarrow> writer" where
  "put_path_challenge d = puts [put_frame_type TPathChallenge, put_slice d]"

definition be_path_response_frame :: "nom \<Rightarrow> byte list \<Rightarrow> byte list presult" where
  "be_path_response_frame n input = take_complete n 8 input"

definition put_path_response :: "byte list \<Rightarrow> writer" where
  "put_path_response d = puts [put_frame_type TPathResponse, put_slice d]"

record app_close_frame =
  ac_error_code :: nat
  ac_reason :: "byte list"

record quic_close_frame =
  qc_error_kind :: error_kind
  qc_frame_type :: error_frame_type
  qc_reason :: "byte list"

datatype close_frame = CloseApp app_close_frame | CloseQuic quic_close_frame

fun close_type :: "close_frame \<Rightarrow> frame_type" where
  "close_type (CloseApp _) = TConnectionClose AppLayer"
| "close_type (CloseQuic _) = TConnectionClose QuicLayer"

definition conceal :: "app_close_frame \<Rightarrow> quic_close_frame" where
  "conceal f = \<lparr>qc_error_kind = Application, qc_frame_type = V1Frame TPadding, qc_reason = []\<rparr>"

fun close_max_size :: "close_frame \<Rightarrow> nat" where
  "close_max_size (CloseApp f) = 1 + 8 + 2 + length (ac_reason f)"
| "close_max_size (CloseQuic f) = 1 + 8 + 8 + 2 + length (qc_reason f)"

fun close_size :: "close_frame \<Rightarrow> nat option" where
  "close_size (CloseApp f) =
     sum_sizes [Some 1, varint_size (ac_error_code f),
       Option.bind (from_u64 (length (ac_reason f))) varint_size, Some (length (ac_reason f))]"
| "close_size (CloseQuic f) =
     sum_sizes [Some 1, varint_size (varint_of_error (qc_error_kind f)), Some 1,
       Option.bind (from_u64 (length (qc_reason f))) varint_size, Some (length (qc_reason f))]"

definition be_app_close_frame :: "nom \<Rightarrow> byte list \<Rightarrow> app_close_frame presult" where
  "be_app_close_frame n input =
     and_then (be_varint n input) (\<lambda>(remain, code).
     and_then (be_varint n remain) (\<lambda>(remain, reason_length).
     and_then (take_complete n reason_length remain) (\<lambda>(remain, reason).
       Inr (remain, \<lparr>ac_error_code = code, ac_reason = utf8_lossy reason\<rparr>))))"

definition be_quic_close_frame :: "nom \<Rightarrow> byte list \<Rightarrow> quic_close_frame presult" where
  "be_quic_close_frame n input =
     and_then (be_varint n input) (\<lambda>(remain, code).
     and_then (case error_kind_of code of None \<Rightarrow> Inl (Err Alt) | Some k \<Rightarrow> Inr k) (\<lambda>kind.
     and_then (map_err (\<lambda>_. Err Alt) (be_frame_type n remain)) (\<lambda>(remain, ft).
     and_then (be_varint n remain) (\<lambda>(remain, reason_length).
     and_then (take_complete n reason_length remain) (\<lambda>(remain, reason).
       Inr (remain, \<lparr>qc_error_kind = kind, qc_frame_type = V1Frame ft, qc_reason = utf8_lossy reason\<rparr>))))))"

definition connection_close_frame_at_layer :: "nom \<Rightarrow> layer \<Rightarrow> byte list \<Rightarrow> close_frame presult" where
  "connection_close_frame_at_layer n l input =
     (case l of
        AppLayer \<Rightarrow> map_ok (apsnd CloseApp) (be_app_close_frame n input)
      | QuicLayer \<Rightarrow> map_ok (apsnd CloseQuic) (be_quic_close_frame n input))"

text \<open>The reason is cut to the space that is left before its length is written.\<close>

definition put_reason :: "byte list \<Rightarrow> writer" where
  "put_reason reason b =
     (let len = min (length reason) (snd b)
      in puts [put_varint (unat (word_of_nat len :: 32 word)), put_slice (take len reason)] b)"

fun put_close :: "close_frame \<Rightarrow> writer" where
  "put_close (CloseApp f) =
     puts [put_frame_type (TConnectionClose AppLayer), put_varint (ac_error_code f), put_reason (ac_reason f)]"
| "put_close (CloseQuic f) =
     puts [put_frame_type (TConnectionClose QuicLayer), put_varint (varint_of_error (qc_error_kind f)),
       put_varint (varint_of_error_frame (qc_frame_type f)), put_reason (qc_reason f)]"

section \<open>Address frames\<close>

record add_address_frame =
  aa_address :: socket_addr
  aa_seq_num :: nat
  aa_tire :: nat
  aa_nat_type :: nat_type

definition be_add_address_frame :: "nom \<Rightarrow> family \<Rightarrow> byte list \<Rightarrow> add_address_frame presult" where
  "be_add_address_frame n fam input =
     and_then (be_varint n input) (\<lambda>(remain, seq_num).
     and_then (be_socket_addr n fam remain) (\<lambda>(remain, addr).
     and_then (be_varint n remain) (\<lambda>(remain, tire).
     and_then (be_varint n remain) (\<lambda>(remain, nat).
       case nat_type_of nat of
         None \<Rightarrow> Inl (Err Verify)
       | Some nt \<Rightarrow>
           Inr (remain, \<lparr>aa_address = addr, aa_seq_num = seq_num, aa_tire = tire, aa_nat_type = nt\<rparr>)))))"

definition put_add_address :: "add_address_frame \<Rightarrow> writer" where
  "put_add_address f =
     puts [put_frame_type (TAddAddress (sa_family (aa_address f))), put_varint (aa_seq_num f),
       put_socket_addr (aa_address f), put_varint (aa_tire f), put_varint (varint_of_nat_type (aa_nat_type f))]"

definition add_address_size :: "add_address_frame \<Rightarrow> nat option" where
  "add_address_size f =
     sum_sizes [varint_size (varint_of_type (TAddAddress (sa_family (aa_address f)))), varint_size (aa_seq_num f),
       Some (case sa_family (aa_address f) of V4 \<Rightarrow> 2 + 4 | V6 \<Rightarrow> 2 + 16), varint_size (aa_tire f),
       varint_size (varint_of_nat_type (aa_nat_type f))]"

definition be_remove_address_frame :: "nom \<Rightarrow> byte list \<Rightarrow> nat presult" where
  "be_remove_address_frame n input = and_then (be_varint n input) (\<lambda>(remain, s). Inr (remain, s))"

definition put_remove_address :: "nat \<Rightarrow> writer" where
  "put_remove_address s = puts [put_frame_type TRemoveAddress, put_varint s]"

record punch_me_now_frame =
  pm_local_seq :: nat
  pm_remote_seq :: nat
  pm_address :: socket_addr
  pm_tire :: nat
  pm_nat_type :: nat_type

definition be_punch_me_now_frame :: "nom \<Rightarrow> family \<Rightarrow> byte list \<Rightarrow> punch_me_now_frame presult" where
  "be_punch_me_now_frame n fam input =
     and_then (be_varint n input) (\<lambda>(remain, local_seq).
     and_then (be_varint n remain) (\<lambda>(remain, remote_seq).
     and_then (be_socket_addr n fam remain) (\<lambda>(remain, addr).
     and_then (be_varint n remain) (\<lambda>(remain, tire).
     and_then (be_varint n remain) (\<lambda>(remain, nat).
       case nat_type_of nat of
         None \<Rightarrow> Inl (Err Verify)
       | Some nt \<Rightarrow>
           Inr (remain, \<lparr>pm_local_seq = local_seq, pm_remote_seq = remote_seq, pm_address = addr,
             pm_tire = tire, pm_nat_type = nt\<rparr>))))))"

definition put_punch_me_now :: "punch_me_now_frame \<Rightarrow> writer" where
  "put_punch_me_now f =
     puts [put_frame_type (TPunchMeNow (sa_family (pm_address f))), put_varint (pm_local_seq f),
       put_varint (pm_remote_seq f), put_uint 2 (sa_port (pm_address f)),
       case sa_family (pm_address f) of
         V4 \<Rightarrow> put_slice (be_bytes 4 (sa_ip (pm_address f))) | V6 \<Rightarrow> put_slice (be_bytes 16 (sa_ip (pm_address f))),
       put_varint (pm_tire f), put_varint (varint_of_nat_type (pm_nat_type f))]"

definition punch_me_now_size :: "punch_me_now_frame \<Rightarrow> nat option" where
  "punch_me_now_size f =
     sum_sizes [varint_size (varint_of_type (TPunchMeNow (sa_family (pm_address f)))), varint_size (pm_local_seq f),
       varint_size (pm_remote_seq f), Some (socket_addr_size (pm_address f)), varint_size (pm_tire f),
       varint_size (varint_of_nat_type (pm_nat_type f))]"

record punch_hello_frame =
  ph_local_seq :: nat
  ph_remote_seq :: nat
  ph_probe_id :: nat

definition be_punch_hello_frame :: "nom \<Rightarrow> byte list \<Rightarrow> punch_hello_frame presult" where
  "be_punch_hello_frame n input =
     and_then (be_varint n input) (\<lambda>(remain, local_seq).
     and_then (be_varint n remain) (\<lambda>(remain, remote_seq).
     and_then (be_varint n remain) (\<lambda>(remain, probe_id).
       Inr (remain, \<lparr>ph_local_seq = local_seq, ph_remote_seq = remote_seq, ph_probe_id = probe_id\<rparr>))))"

definition put_punch_hello :: "punch_hello_frame \<Rightarrow> writer" where
  "put_punch_hello f =
     puts [put_frame_type TPunchHello, put_varint (ph_local_seq f), put_varint (ph_remote_seq f),
       put_varint (ph_probe_id f)]"

definition punch_hello_size :: "punch_hello_frame \<Rightarrow> nat option" where
  "punch_hello_size f =
     sum_sizes [varint_size (varint_of_type TPunchHello), varint_size (ph_local_seq f),
       varint_size (ph_remote_seq f), varint_size (ph_probe_id f)]"

record punch_done_frame =
  pd_local_seq :: nat
  pd_remote_seq :: nat
  pd_probe_id :: nat

definition be_punch_done_frame :: "nom \<Rightarrow> byte list \<Rightarrow> punch_done_frame presult" where
  "be_punch_done_frame n input =
     and_then (be_varint n input) (\<lambda>(remain, local_seq).
     and_then (be_varint n remain) (\<lambda>(remain, remote_seq).
     and_then (be_varint n remain) (\<lambda>(remain, probe_id).
       Inr (remain, \<lparr>pd_local_seq = local_seq, pd_remote_seq = remote_seq, pd_probe_id = probe_id\<rparr>))))"

definition put_punch_done :: "punch_done_frame \<Rightarrow> writer" where
  "put_punch_done f =
     puts [put_frame_type TPunchDone, put_varint (pd_local_seq f), put_varint (pd_remote_seq f),
       put_varint (pd_probe_id f)]"

definition punch_done_size :: "punch_done_frame \<Rightarrow> nat option" where
  "punch_done_size f =
     sum_sizes [varint_size (varint_of_type TPunchDone), varint_size (pd_local_seq f),
       varint_size (pd_remote_seq f), varint_size (pd_probe_id f)]"

text \<open>The three numbers of the answer are those of the question cut to 32 bits.\<close>

definition respond_to :: "punch_hello_frame \<Rightarrow> punch_done_frame" where
  "respond_to f =
     (let u32 = (\<lambda>v. unat (word_of_nat v :: 32 word))
      in \<lparr>pd_local_seq = u32 (ph_remote_seq f), pd_remote_seq = u32 (ph_local_seq f),
          pd_probe_id = u32 (ph_probe_id f)\<rparr>)"

section \<open>All frames\<close>

datatype frame =
    Padding
  | Ping
  | Ack ack_frame
  | Close close_frame
  | NewToken "byte list"
  | NewConnectionId new_connection_id_frame
  | RetireConnectionId nat
  | HandshakeDone
  | PathChallenge "byte list"
  | PathResponse "byte list"
  | StreamCtl stream_ctl_frame
  | Stream stream_frame "byte list"
  | Crypto crypto_frame "byte list"
  | Datagram datagram_frame "byte list"
  | AddAddress add_address_frame
  | RemoveAddress nat
  | PunchMeNow punch_me_now_frame
  | PunchHello punch_hello_frame
  | PunchDone punch_done_frame

fun type_of_frame :: "frame \<Rightarrow> frame_type" where
  "type_of_frame Padding = TPadding"
| "type_of_frame Ping = TPing"
| "type_of_frame (Ack f) = ack_type f"
| "type_of_frame (Close f) = close_type f"
| "type_of_frame (NewToken _) = TNewToken"
| "type_of_frame (NewConnectionId _) = TNewConnectionId"
| "type_of_frame (RetireConnectionId _) = TRetireConnectionId"
| "type_of_frame HandshakeDone = THandshakeDone"
| "type_of_frame (PathChallenge _) = TPathChallenge"
| "type_of_frame (PathResponse _) = TPathResponse"
| "type_of_frame (StreamCtl f) = ctl_type f"
| "type_of_frame (Stream f _) = stream_type f"
| "type_of_frame (Crypto _ _) = TCrypto"
| "type_of_frame (Datagram f _) = datagram_type f"
| "type_of_frame (AddAddress f) = TAddAddress (sa_family (aa_address f))"
| "type_of_frame (RemoveAddress _) = TRemoveAddress"
| "type_of_frame (PunchMeNow f) = TPunchMeNow (sa_family (pm_address f))"
| "type_of_frame (PunchHello _) = TPunchHello"
| "type_of_frame (PunchDone _) = TPunchDone"

fun put_frame :: "frame \<Rightarrow> writer" where
  "put_frame Padding = put_frame_type TPadding"
| "put_frame Ping = put_frame_type TPing"
| "put_frame (Ack f) = put_ack f"
| "put_frame (Close f) = put_close f"
| "put_frame (NewToken t) = put_new_token t"
| "put_frame (NewConnectionId f) = put_new_connection_id f"
| "put_frame (RetireConnectionId s) = put_retire_connection_id s"
| "put_frame HandshakeDone = put_frame_type THandshakeDone"
| "put_frame (PathChallenge d) = put_path_challenge d"
| "put_frame (PathResponse d) = put_path_response d"
| "put_frame (StreamCtl f) = put_stream_ctl f"
| "put_frame (Stream f d) = put_stream f d"
| "put_frame (Crypto f d) = put_crypto f d"
| "put_frame (Datagram f d) = put_datagram f d"
| "put_frame (AddAddress f) = put_add_address f"
| "put_frame (RemoveAddress s) = put_remove_address s"
| "put_frame (PunchMeNow f) = put_punch_me_now f"
| "put_frame (PunchHello f) = put_punch_hello f"
| "put_frame (PunchDone f) = put_punch_done f"

fun frame_size :: "frame \<Rightarrow> nat option" where
  "frame_size Padding = Some 1"
| "frame_size Ping = Some 1"
| "frame_size (Ack f) = ack_size f"
| "frame_size (Close f) = close_size f"
| "frame_size (NewToken t) = Some (new_token_size t)"
| "frame_size (NewConnectionId f) = new_connection_id_size f"
| "frame_size (RetireConnectionId s) = sum_sizes [Some 1, varint_size s]"
| "frame_size HandshakeDone = Some 1"
| "frame_size (PathChallenge d) = Some (1 + length d)"
| "frame_size (PathResponse d) = Some (1 + length d)"
| "frame_size (StreamCtl f) = ctl_size f"
| "frame_size (Stream f _) = stream_size f"
| "frame_size (Crypto f _) = crypto_size f"
| "frame_size (Datagram f _) = datagram_size f"
| "frame_size (AddAddress f) = add_address_size f"
| "frame_size (RemoveAddress s) = sum_sizes [varint_size (varint_of_type TRemoveAddress), varint_size s]"
| "frame_size (PunchMeNow f) = punch_me_now_size f"
| "frame_size (PunchHello f) = punch_hello_size f"
| "frame_size (PunchDone f) = punch_done_size f"

fun frame_max_size :: "frame \<Rightarrow> nat" where
  "frame_max_size Padding = 1"
| "frame_max_size Ping = 1"
| "frame_max_size (Ack f) = ack_max_size f"
| "frame_max_size (Close f) = close_max_size f"
| "frame_max_size (NewToken t) = 1 + 1 + length t"
| "frame_max_size (NewConnectionId f) = 1 + 8 + 8 + 21 + RESET_TOKEN_SIZE"
| "frame_max_size (RetireConnectionId s) = 1 + 8"
| "frame_max_size HandshakeDone = 1"
| "frame_max_size (PathChallenge d) = 1 + length d"
| "frame_max_size (PathResponse d) = 1 + length d"
| "frame_max_size (StreamCtl f) = ctl_max_size f"
| "frame_max_size (Stream f _) = STREAM_FRAME_MAX_ENCODING_SIZE"
| "frame_max_size (Crypto f _) = 1 + 8 + 8"
| "frame_max_size (Datagram f _) = 1 + 8"
| "frame_max_size (AddAddress f) = 4 + 8 + 2 + 16 + 8 + 8"
| "frame_max_size (RemoveAddress s) = 4 + 8"
| "frame_max_size (PunchMeNow f) = 4 + 8 + 8 + (2 + 16) + 8 + 8"
| "frame_max_size (PunchHello f) = 4 + 8 + 8 + 8"
| "frame_max_size (PunchDone f) = 4 + 8 + 8 + 8"

text \<open>The parser of the body; \<open>raw\<close> is the whole payload, of which the input is the end.\<close>

definition data_body :: "byte list \<Rightarrow> byte list \<Rightarrow> nat \<Rightarrow> (byte list \<Rightarrow> frame) \<Rightarrow> frame presult" where
  "data_body raw input len mk =
     (let start = length raw - length input
      in if length input < len then Inl Incomplete
         else Inr (drop len input, mk (take len (drop start raw))))"

fun complete_frame :: "nom \<Rightarrow> frame_type \<Rightarrow> byte list \<Rightarrow> byte list \<Rightarrow> frame presult" where
  "complete_frame n TPadding raw input = Inr (input, Padding)"
| "complete_frame n TPing raw input = Inr (input, Ping)"
| "complete_frame n (TConnectionClose l) raw input =
     map_ok (apsnd Close) (connection_close_frame_at_layer n l input)"
| "complete_frame n TNewConnectionId raw input = map_ok (apsnd NewConnectionId) (be_new_connection_id_frame n input)"
| "complete_frame n TRetireConnectionId raw input =
     map_ok (apsnd RetireConnectionId) (be_retire_connection_id_frame n input)"
| "complete_frame n TDataBlocked raw input = map_ok (apsnd StreamCtl) (be_data_blocked_frame n input)"
| "complete_frame n TMaxData raw input = map_ok (apsnd StreamCtl) (be_max_data_frame n input)"
| "complete_frame n TPathChallenge raw input = map_ok (apsnd PathChallenge) (be_path_challenge_frame n input)"
| "complete_frame n TPathResponse raw input = map_ok (apsnd PathResponse) (be_path_response_frame n input)"
| "complete_frame n THandshakeDone raw input = Inr (input, HandshakeDone)"
| "complete_frame n TNewToken raw input = map_ok (apsnd NewToken) (be_new_token_frame n input)"
| "complete_frame n (TAck e) raw input = map_ok (apsnd Ack) (ack_frame_with_ecn n e input)"
| "complete_frame n TResetStream raw input = map_ok (apsnd StreamCtl) (be_reset_stream_frame n input)"
| "complete_frame n TStopSending raw input = map_ok (apsnd StreamCtl) (be_stop_sending_frame n input)"
| "complete_frame n TMaxStreamData raw input = map_ok (apsnd StreamCtl) (be_max_stream_data_frame n input)"
| "complete_frame n (TMaxStreams d) raw input = map_ok (apsnd StreamCtl) (max_streams_frame_with_dir n d input)"
| "complete_frame n (TStreamsBlocked d) raw input =
     map_ok (apsnd StreamCtl) (streams_blocked_frame_with_dir n d input)"
| "complete_frame n TStreamDataBlocked raw input =
     map_ok (apsnd StreamCtl) (be_stream_data_blocked_frame n input)"
| "complete_frame n TCrypto raw input =
     and_then (be_crypto_frame n input) (\<lambda>(input, f). data_body raw input (cf_length f) (Crypto f))"
| "complete_frame n (TStream off len fin) raw input =
     and_then (stream_frame_with_flag n off len fin input) (\<lambda>(input, f).
       data_body raw input (sf_length f) (Stream f))"
| "complete_frame n (TDatagram with_len) raw input =
     and_then (datagram_frame_with_flag n with_len input) (\<lambda>(input, f).
       if df_encode_len f then data_body raw input (df_len f) (Datagram f)
       else Inr ([], Datagram f (drop (length raw - length input) raw)))"
| "complete_frame n (TAddAddress fam) raw input = map_ok (apsnd AddAddress) (be_add_address_frame n fam input)"
| "complete_frame n TRemoveAddress raw input = map_ok (apsnd RemoveAddress) (be_remove_address_frame n input)"
| "complete_frame n (TPunchMeNow fam) raw input = map_ok (apsnd PunchMeNow) (be_punch_me_now_frame n fam input)"
| "complete_frame n TPunchHello raw input = map_ok (apsnd PunchHello) (be_punch_hello_frame n input)"
| "complete_frame n TPunchDone raw input = map_ok (apsnd PunchDone) (be_punch_done_frame n input)"

text \<open>A frame parsed from the start of the payload, or \<open>None\<close> on a panic.\<close>

definition be_frame ::
  "nom \<Rightarrow> byte list \<Rightarrow> packet_type \<Rightarrow> (frame_error + (nat \<times> frame \<times> frame_type)) option" where
  "be_frame n raw p =
     (case be_frame_type n raw of
        Inl e \<Rightarrow> Some (Inl e)
      | Inr (remain, ft) \<Rightarrow>
          if \<not> belongs_to ft p then Some (Inl (WrongType ft p))
          else case complete_frame n ft raw remain of
                 Inl Incomplete \<Rightarrow> Some (Inl (IncompleteFrame ft))
               | Inl (Err k) \<Rightarrow> Some (Inl (ParseError ft k))
               | Inl Panicked \<Rightarrow> None
               | Inr (remain, f) \<Rightarrow> Some (Inr (length raw - length remain, f, ft)))"

record frame_reader =
  fr_payload :: "byte list"
  fr_packet_type :: packet_type

text \<open>One turn of the iterator: nothing left, or a result and the reader after it.\<close>

definition reader_next ::
  "nom \<Rightarrow> frame_reader \<Rightarrow> (frame_error + (frame \<times> frame_type)) option option \<times> frame_reader" where
  "reader_next n r =
     (if fr_payload r = [] then (Some None, r)
      else case be_frame n (fr_payload r) (fr_packet_type r) of
             None \<Rightarrow> (None, r)
           | Some (Inr (consumed, f, ft)) \<Rightarrow>
               (Some (Some (Inr (f, ft))), r\<lparr>fr_payload := drop consumed (fr_payload r)\<rparr>)
           | Some (Inl e) \<Rightarrow> (Some (Some (Inl e)), r))"

end
