(* ===== verification/Frame_Codec.thy ===== *)
theory Frame_Codec
  imports Frame
begin

text \<open>
  What the codec of \<open>Frame\<close> guarantees. The specification is the wire image of a frame; the writers
  append exactly it, the parser takes it back, the sizes the frames claim are its length (two
  exceptions are named by \<open>size_exact\<close>), and the parser returns on every input. The capacity
  estimates of CRYPTO and STREAM frames are the largest payloads that fit.
\<close>

section \<open>The wire image of a frame\<close>

text \<open>
  The specification: the fields of each frame in the order RFC 9000 (and the address extension)
  writes them, after the frame type.
\<close>

declare be_bytes.simps [simp del]

definition type_image :: "frame_type \<Rightarrow> byte list" where
  "type_image ft = varint_image (varint_of_type ft)"

definition addr_fields :: "socket_addr \<Rightarrow> byte list list" where
  "addr_fields a = [be_bytes 2 (sa_port a), be_bytes (case sa_family a of V4 \<Rightarrow> 4 | V6 \<Rightarrow> 16) (sa_ip a)]"

fun ctl_fields :: "stream_ctl_frame \<Rightarrow> byte list list" where
  "ctl_fields (MaxData v) = [varint_image v]"
| "ctl_fields (DataBlocked v) = [varint_image v]"
| "ctl_fields (ResetStream f) =
     [varint_image (unat (rs_stream_id f)), varint_image (rs_app_err f), varint_image (rs_final_size f)]"
| "ctl_fields (StopSending f) = [varint_image (unat (ss_stream_id f)), varint_image (ss_app_err f)]"
| "ctl_fields (MaxStreamData f) = [varint_image (unat (msd_stream_id f)), varint_image (msd_max f)]"
| "ctl_fields (MaxStreams _ v) = [varint_image v]"
| "ctl_fields (StreamDataBlocked f) = [varint_image (unat (sdb_stream_id f)), varint_image (sdb_max f)]"
| "ctl_fields (StreamsBlocked _ v) = [varint_image v]"

definition ack_fields :: "ack_frame \<Rightarrow> byte list list" where
  "ack_fields f =
     [varint_image (ack_largest f), varint_image (ack_delay f), varint_image (length (ack_ranges f)),
      varint_image (ack_first_range f)] @
     concat (map (\<lambda>(gap, ack). [varint_image gap, varint_image ack]) (ack_ranges f)) @
     (case ack_ecn f of
        Some e \<Rightarrow> [varint_image (ect0 e), varint_image (ect1 e), varint_image (ce e)] | None \<Rightarrow> [])"

fun frame_fields :: "frame \<Rightarrow> byte list list" where
  "frame_fields Padding = []"
| "frame_fields Ping = []"
| "frame_fields (Ack f) = ack_fields f"
| "frame_fields (Close (CloseApp f)) =
     [varint_image (ac_error_code f), varint_image (length (ac_reason f)) @ ac_reason f]"
| "frame_fields (Close (CloseQuic f)) =
     [varint_image (varint_of_error (qc_error_kind f)), (case qc_frame_type f of V1Frame ft \<Rightarrow> type_image ft | Ext v \<Rightarrow> varint_image v),
      varint_image (length (qc_reason f)) @ qc_reason f]"
| "frame_fields (NewToken t) = [varint_image (length t), t]"
| "frame_fields (NewConnectionId f) =
     [varint_image (nc_sequence f), varint_image (nc_retire_prior_to f), be_bytes 1 (length (nc_id f)) @ nc_id f,
      nc_reset_token f]"
| "frame_fields (RetireConnectionId s) = [varint_image s]"
| "frame_fields HandshakeDone = []"
| "frame_fields (PathChallenge d) = [d]"
| "frame_fields (PathResponse d) = [d]"
| "frame_fields (StreamCtl f) = ctl_fields f"
| "frame_fields (Stream f d) =
     [varint_image (unat (sf_id f))] @ (if sf_offset f \<noteq> 0 then [varint_image (sf_offset f)] else []) @
     (if sf_len_bit f = Explicit then [varint_image (sf_length f)] else []) @ [d]"
| "frame_fields (Crypto f d) = [varint_image (cf_offset f), varint_image (cf_length f), d]"
| "frame_fields (Datagram f d) = (if df_encode_len f then [varint_image (df_len f)] else []) @ [d]"
| "frame_fields (AddAddress f) =
     [varint_image (aa_seq_num f), concat (addr_fields (aa_address f)), varint_image (aa_tire f),
      varint_image (varint_of_nat_type (aa_nat_type f))]"
| "frame_fields (RemoveAddress s) = [varint_image s]"
| "frame_fields (PunchMeNow f) =
     [varint_image (pm_local_seq f), varint_image (pm_remote_seq f)] @ addr_fields (pm_address f) @
     [varint_image (pm_tire f), varint_image (varint_of_nat_type (pm_nat_type f))]"
| "frame_fields (PunchHello f) =
     [varint_image (ph_local_seq f), varint_image (ph_remote_seq f), varint_image (ph_probe_id f)]"
| "frame_fields (PunchDone f) =
     [varint_image (pd_local_seq f), varint_image (pd_remote_seq f), varint_image (pd_probe_id f)]"

definition frame_image :: "frame \<Rightarrow> byte list" where
  "frame_image f = type_image (type_of_frame f) @ concat (frame_fields f)"

fun frame_data :: "frame \<Rightarrow> byte list" where
  "frame_data (Stream _ d) = d"
| "frame_data (Crypto _ d) = d"
| "frame_data (Datagram _ d) = d"
| "frame_data _ = []"

text \<open>
  Well-formed frames: every integer fits its field, every declared length is the length of what
  it counts, and the parser's own conditions hold.
\<close>

definition addr_wf :: "socket_addr \<Rightarrow> bool" where
  "addr_wf a \<longleftrightarrow> sa_port a < 2 ^ 16 \<and> sa_ip a < (case sa_family a of V4 \<Rightarrow> 2 ^ 32 | V6 \<Rightarrow> 2 ^ 128)"

fun ctl_wf :: "stream_ctl_frame \<Rightarrow> bool" where
  "ctl_wf (MaxData v) \<longleftrightarrow> v < 2 ^ 62"
| "ctl_wf (DataBlocked v) \<longleftrightarrow> v < 2 ^ 62"
| "ctl_wf (ResetStream f) \<longleftrightarrow> unat (rs_stream_id f) < 2 ^ 62 \<and> rs_app_err f < 2 ^ 62 \<and> rs_final_size f < 2 ^ 62"
| "ctl_wf (StopSending f) \<longleftrightarrow> unat (ss_stream_id f) < 2 ^ 62 \<and> ss_app_err f < 2 ^ 62"
| "ctl_wf (MaxStreamData f) \<longleftrightarrow> unat (msd_stream_id f) < 2 ^ 62 \<and> msd_max f < 2 ^ 62"
| "ctl_wf (MaxStreams _ v) \<longleftrightarrow> v \<le> MAX_STREAMS_LIMIT"
| "ctl_wf (StreamDataBlocked f) \<longleftrightarrow> unat (sdb_stream_id f) < 2 ^ 62 \<and> sdb_max f < 2 ^ 62"
| "ctl_wf (StreamsBlocked _ v) \<longleftrightarrow> v < 2 ^ 62"

definition ack_wf :: "ack_frame \<Rightarrow> bool" where
  "ack_wf f \<longleftrightarrow> ack_largest f < 2 ^ 62 \<and> ack_delay f < 2 ^ 62 \<and> ack_first_range f < 2 ^ 62 \<and>
     length (ack_ranges f) < 2 ^ 62 \<and> (\<forall>(gap, ack) \<in> set (ack_ranges f). gap < 2 ^ 62 \<and> ack < 2 ^ 62) \<and>
     (case ack_ecn f of Some e \<Rightarrow> ect0 e < 2 ^ 62 \<and> ect1 e < 2 ^ 62 \<and> ce e < 2 ^ 62 | None \<Rightarrow> True)"

fun frame_wf :: "frame \<Rightarrow> bool" where
  "frame_wf Padding \<longleftrightarrow> True"
| "frame_wf Ping \<longleftrightarrow> True"
| "frame_wf (Ack f) \<longleftrightarrow> ack_wf f"
| "frame_wf (Close (CloseApp f)) \<longleftrightarrow>
     ac_error_code f < 2 ^ 62 \<and> length (ac_reason f) < 2 ^ 32 \<and> utf8_valid (ac_reason f)"
| "frame_wf (Close (CloseQuic f)) \<longleftrightarrow>
     (\<exists>ft. qc_frame_type f = V1Frame ft \<and> type_wf ft) \<and> length (qc_reason f) < 2 ^ 32 \<and> utf8_valid (qc_reason f)"
| "frame_wf (NewToken t) \<longleftrightarrow> length t < 2 ^ 32"
| "frame_wf (NewConnectionId f) \<longleftrightarrow>
     nc_sequence f < 2 ^ 62 \<and> nc_retire_prior_to f \<le> nc_sequence f \<and> nc_id f \<noteq> [] \<and>
     length (nc_id f) \<le> MAX_CID_SIZE \<and> length (nc_reset_token f) = RESET_TOKEN_SIZE"
| "frame_wf (RetireConnectionId s) \<longleftrightarrow> s < 2 ^ 62"
| "frame_wf HandshakeDone \<longleftrightarrow> True"
| "frame_wf (PathChallenge d) \<longleftrightarrow> length d = 8"
| "frame_wf (PathResponse d) \<longleftrightarrow> length d = 8"
| "frame_wf (StreamCtl f) \<longleftrightarrow> ctl_wf f"
| "frame_wf (Stream f d) \<longleftrightarrow>
     unat (sf_id f) < 2 ^ 62 \<and> sf_length f = length d \<and> sf_offset f + sf_length f \<le> VARINT_MAX \<and>
     (sf_len_bit f = Explicit \<longrightarrow> sf_length f < 2 ^ 32)"
| "frame_wf (Crypto f d) \<longleftrightarrow>
     cf_length f = length d \<and> cf_length f < 2 ^ 62 \<and> 2 * cf_offset f \<le> VARINT_MAX"
| "frame_wf (Datagram f d) \<longleftrightarrow> df_len f = length d \<and> df_len f < 2 ^ 62"
| "frame_wf (AddAddress f) \<longleftrightarrow> aa_seq_num f < 2 ^ 62 \<and> addr_wf (aa_address f) \<and> aa_tire f < 2 ^ 62"
| "frame_wf (RemoveAddress s) \<longleftrightarrow> s < 2 ^ 62"
| "frame_wf (PunchMeNow f) \<longleftrightarrow>
     pm_local_seq f < 2 ^ 62 \<and> pm_remote_seq f < 2 ^ 62 \<and> addr_wf (pm_address f) \<and> pm_tire f < 2 ^ 62"
| "frame_wf (PunchHello f) \<longleftrightarrow> ph_local_seq f < 2 ^ 62 \<and> ph_remote_seq f < 2 ^ 62 \<and> ph_probe_id f < 2 ^ 62"
| "frame_wf (PunchDone f) \<longleftrightarrow> pd_local_seq f < 2 ^ 62 \<and> pd_remote_seq f < 2 ^ 62 \<and> pd_probe_id f < 2 ^ 62"

text \<open>Frames whose end can be told without the end of the packet.\<close>

fun delimited :: "frame \<Rightarrow> bool" where
  "delimited (Stream f _) \<longleftrightarrow> sf_len_bit f = Explicit"
| "delimited (Datagram f _) \<longleftrightarrow> df_encode_len f"
| "delimited _ \<longleftrightarrow> True"

section \<open>Writers\<close>

lemma emits_type [wire]: "emits (put_frame_type ft) (type_image ft)"
  unfolding put_frame_type_def type_image_def
  by (rule put_varint_emits) (use varint_of_type_less [of ft] in simp)

lemma emits_type_code [wire]: "emits (put_varint (varint_of_type ft)) (type_image ft)"
  using emits_type by (simp add: put_frame_type_def)

lemma emits_streamid [wire]: "unat s < 2 ^ 62 \<Longrightarrow> emits (put_streamid s) (varint_image (unat s))"
  by (simp add: put_streamid_def wire)

lemma emits_u32 [wire]: "v < 2 ^ 32 \<Longrightarrow> emits (put_varint (unat (word_of_nat v :: 32 word))) (varint_image v)"
  by (simp add: unat_of_nat wire)

lemma emits_nat_type [wire]: "emits (put_varint (varint_of_nat_type t)) (varint_image (varint_of_nat_type t))"
  by (rule put_varint_emits) (cases t; simp)

lemma emits_error [wire]: "emits (put_varint (varint_of_error k)) (varint_image (varint_of_error k))"
  by (rule put_varint_emits) (use varint_of_error_less [of k] in simp)

lemma emits_reason [wire]:
  assumes "length reason < 2 ^ 32"
  shows "emits (put_reason reason) (varint_image (length reason) @ reason)"
  unfolding emits_def
proof (intro allI)
  fix b :: "byte list" and r
  let ?len = "min (length reason) r"
  have l: "?len < 2 ^ 32" using assms by simp
  have e: "emits (puts [put_varint (unat (word_of_nat ?len :: 32 word)), put_slice (take ?len reason)])
     (concat [varint_image ?len, take ?len reason])"
    by (rule emits_puts) (simp add: emits_u32 [OF l] emits_put_slice)
  show "put_reason reason (b, r) = (if length (varint_image (length reason) @ reason) \<le> r
     then Some (b @ varint_image (length reason) @ reason, r - length (varint_image (length reason) @ reason)) else None)"
  proof (cases "length reason \<le> r")
    case True
    with e show ?thesis by (simp add: emits_def put_reason_def Let_def)
  next
    case False
    with e varint_image_length(1) [of r] show ?thesis by (simp add: emits_def put_reason_def Let_def)
  qed
qed

lemma emits_connection_id [wire]:
  "emits (put_connection_id cid) (be_bytes (Suc 0) (length cid) @ cid)"
  using emits_puts [of "[put_uint 1 (length cid), put_slice cid]" "[be_bytes 1 (length cid), cid]"]
  by (simp add: put_connection_id_def wire)

lemma emits_socket_addr [wire]: "emits (put_socket_addr a) (concat (addr_fields a))"
  unfolding put_socket_addr_def addr_fields_def
  by (rule emits_puts) (simp add: wire split: family.split)

lemma emits_ranges:
  "\<forall>(gap, ack) \<in> set rs. gap < 2 ^ 62 \<and> ack < 2 ^ 62 \<Longrightarrow>
   list_all2 emits (concat (map (\<lambda>(gap, ack). [put_varint gap, put_varint ack]) rs))
     (concat (map (\<lambda>(gap, ack). [varint_image gap, varint_image ack]) rs))"
  by (induction rs) (auto simp: wire)

lemma emits_ack:
  assumes "ack_wf f"
  shows "list_all2 emits
    ([put_frame_type (ack_type f), put_varint (ack_largest f), put_varint (ack_delay f),
         put_varint (length (ack_ranges f)), put_varint (ack_first_range f)] @
        concat (map (\<lambda>(gap, ack). [put_varint gap, put_varint ack]) (ack_ranges f)) @
        (case ack_ecn f of
           Some e \<Rightarrow> [put_varint (ect0 e), put_varint (ect1 e), put_varint (ce e)] | None \<Rightarrow> []))
    (type_image (ack_type f) # ack_fields f)"
  using assms emits_ranges [of "ack_ranges f"]
  by (auto simp: ack_fields_def ack_wf_def wire intro!: list_all2_appendI split: option.splits)

lemma image_emits:
  "list_all2 emits ws (type_image (type_of_frame f) # frame_fields f) \<Longrightarrow> emits (puts ws) (frame_image f)"
  using emits_puts [of ws "type_image (type_of_frame f) # frame_fields f"]
  by (simp add: frame_image_def)

lemmas put_defs = put_max_data_def put_data_blocked_def put_reset_stream_def put_stop_sending_def
  put_max_stream_data_def put_max_streams_def put_stream_data_blocked_def put_streams_blocked_def
  put_ack_def put_stream_def put_datagram_def put_new_token_def put_new_connection_id_def
  put_retire_connection_id_def put_path_challenge_def put_path_response_def put_add_address_def
  put_remove_address_def put_punch_me_now_def put_punch_hello_def put_punch_done_def

lemma ctl_emits: "ctl_wf f \<Longrightarrow> emits (put_stream_ctl f) (frame_image (StreamCtl f))"
  by (cases f) (auto simp: put_defs MAX_STREAMS_LIMIT_def wire intro!: image_emits)

lemma frame_emits:
  assumes "frame_wf f"
  shows "emits (put_frame f) (frame_image f)"
proof (cases f)
  case (Ack a)
  then show ?thesis using assms emits_ack [of a] by (auto simp: put_ack_def intro!: image_emits)
next
  case (Close c)
  then show ?thesis
    using assms by (cases c) (auto simp: wire intro!: image_emits)
next
  case (Crypto c d)
  have "emits (puts [put_frame_type TCrypto, put_varint (cf_offset c), put_varint (cf_length c), put_slice d])
     (frame_image f)"
    using assms by (intro image_emits) (simp add: Crypto VARINT_MAX_def wire)
  with assms show ?thesis by (simp add: Crypto emits_def put_crypto_def)
next
  case (StreamCtl c)
  then show ?thesis using assms ctl_emits by simp
next
  case (PunchMeNow p)
  then show ?thesis
    using assms by (auto simp: put_defs addr_fields_def wire intro!: image_emits split: family.split)
qed (use assms in \<open>auto simp: put_defs VARINT_MAX_def frame_image_def [of Padding] frame_image_def [of Ping]
    frame_image_def [of HandshakeDone] wire intro!: image_emits\<close>)

section \<open>Parsers\<close>

lemma nom_parse [wire]:
  assumes "nom_ok n"
  shows "length xs = k \<Longrightarrow> take_complete n k (xs @ rest) = Inr (rest, xs)"
    and "length xs = k \<Longrightarrow> take_streaming n k (xs @ rest) = Inr (rest, xs)"
    and "v < 256 ^ k \<Longrightarrow> be_uint_complete n k (be_bytes k v @ rest) = Inr (rest, v)"
    and "v < 256 ^ k \<Longrightarrow> be_uint_streaming n k (be_bytes k v @ rest) = Inr (rest, v)"
  using assms by (auto simp: nom_ok_def be_nat_be_bytes_id)

lemma be_streamid_put [wire]:
  "nom_ok n \<Longrightarrow> unat s < 2 ^ 62 \<Longrightarrow> be_streamid n (varint_image (unat s) @ rest) = Inr (rest, s)"
  by (simp add: be_streamid_def wire)

lemma be_frame_type_put [wire]:
  assumes "nom_ok n" and "type_wf ft"
  shows "be_frame_type n (type_image ft @ rest) = Inr (rest, ft)"
proof -
  have "varint_of_type ft < 2 ^ 62" using varint_of_type_less [of ft] by simp
  with assms show ?thesis by (simp add: be_frame_type_def type_image_def wire frame_type_roundtrip)
qed

lemma be_error_put [wire]:
  "nom_ok n \<Longrightarrow> be_varint n (varint_image (varint_of_error k) @ rest) = Inr (rest, varint_of_error k)"
  by (rule be_varint_put) (use varint_of_error_less [of k] in simp_all)

lemma be_nat_type_put [wire]:
  "nom_ok n \<Longrightarrow> be_varint n (varint_image (varint_of_nat_type t) @ rest) = Inr (rest, varint_of_nat_type t)"
  by (rule be_varint_put) (cases t; simp)+

lemma nat_type_roundtrip [simp]: "nat_type_of (varint_of_nat_type t) = Some t"
  by (cases t) (simp_all add: nat_type_of_def nat_type_of_u8_def)

lemma be_socket_addr_put [wire]:
  assumes "nom_ok n" and "addr_wf a" and "sa_family a = fam"
  shows "be_socket_addr n fam (concat (addr_fields a) @ rest) = Inr (rest, a)"
proof -
  have "sa_port a < 256 ^ 2" using assms(2) by (simp add: addr_wf_def)
  moreover have "sa_family a = V4 \<Longrightarrow> sa_ip a < 256 ^ 4" "sa_family a = V6 \<Longrightarrow> sa_ip a < 256 ^ 16"
    using assms(2) by (simp_all add: addr_wf_def)
  ultimately show ?thesis
    using assms by (cases a; cases fam) (simp_all add: be_socket_addr_def be_ip_addr_def addr_fields_def wire)
qed

lemma be_ranges_put:
  assumes "nom_ok n" and "\<forall>(gap, ack) \<in> set rs. gap < 2 ^ 62 \<and> ack < 2 ^ 62"
  shows "ack_ranges_loop n (length rs)
    (concat (concat (map (\<lambda>(gap, ack). [varint_image gap, varint_image ack]) rs)) @ rest) = Inr (rest, rs)"
  using assms by (induction rs) (auto simp: wire)

lemma be_ack_put:
  assumes n: "nom_ok n" and "ack_wf f" and "ack_type f = TAck e"
  shows "ack_frame_with_ecn n e (concat (ack_fields f) @ rest) = Inr (rest, f)"
proof (cases "ack_ecn f")
  case None
  then show ?thesis
    using assms be_ranges_put [OF n, of "ack_ranges f"]
    by (auto simp: ack_frame_with_ecn_def ack_fields_def ack_wf_def ack_type_def wire)
next
  case (Some c)
  then show ?thesis
    using assms be_ranges_put [OF n, of "ack_ranges f"]
    by (auto simp: ack_frame_with_ecn_def ack_fields_def ack_wf_def ack_type_def be_ecn_counts_def wire)
qed

lemmas parser_defs = be_max_data_frame_def be_data_blocked_frame_def be_reset_stream_frame_def
  be_stop_sending_frame_def be_max_stream_data_frame_def max_streams_frame_with_dir_def
  be_stream_data_blocked_frame_def streams_blocked_frame_with_dir_def be_new_token_frame_def
  be_new_connection_id_frame_def be_retire_connection_id_frame_def be_path_challenge_frame_def
  be_path_response_frame_def be_app_close_frame_def be_quic_close_frame_def
  connection_close_frame_at_layer_def be_add_address_frame_def be_remove_address_frame_def
  be_punch_me_now_frame_def be_punch_hello_frame_def be_punch_done_frame_def
  be_connection_id_def be_connection_id_with_len_def be_reset_token_def

lemma complete_ctl:
  assumes "nom_ok n" and "ctl_wf f"
  shows "complete_frame n (ctl_type f) raw (concat (ctl_fields f) @ rest) = Inr (rest, StreamCtl f)"
  using assms by (cases f) (auto simp: parser_defs MAX_STREAMS_LIMIT_def wire)

lemma complete_stream:
  assumes n: "nom_ok n" and "frame_wf (Stream f d)" and "sf_len_bit f = Explicit \<or> rest = []"
    and "raw = pre @ concat (frame_fields (Stream f d)) @ rest"
  shows "complete_frame n (stream_type f) raw (concat (frame_fields (Stream f d)) @ rest) = Inr (rest, Stream f d)"
proof -
  have lt: "sf_offset f < 2 ^ 62" "sf_length f < 2 ^ 62" using assms(2) by (auto simp: VARINT_MAX_def)
  have "stream_frame_with_flag n (if sf_offset f = 0 then Zero else NonZero) (sf_len_bit f) (sf_fin_bit f)
     (concat (frame_fields (Stream f d)) @ rest) = Inr (d @ rest, f)"
    using assms lt by (cases f; cases "sf_len_bit f") (auto simp: stream_frame_with_flag_def wire)
  then show ?thesis using assms by (auto simp: stream_type_def data_body_def)
qed

lemma complete_frame_put:
  assumes n: "nom_ok n" and wf: "frame_wf f" and dl: "delimited f \<or> rest = []"
    and raw: "raw = pre @ concat (frame_fields f) @ rest"
  shows "complete_frame n (type_of_frame f) raw (concat (frame_fields f) @ rest) = Inr (rest, f)"
proof (cases f)
  case (Ack a)
  then show ?thesis
    using wf be_ack_put [OF n, of a] by (cases "type_of_frame f") (auto simp: ack_type_def)
next
  case (Close c)
  then show ?thesis
    using n wf by (cases c) (auto simp: parser_defs utf8_valid_def wire error_kind_roundtrip)
next
  case (NewToken t)
  then show ?thesis using n wf by (simp add: parser_defs wire)
next
  case (NewConnectionId c)
  have "length (nc_id c) < 256 ^ 1" using wf by (simp add: NewConnectionId MAX_CID_SIZE_def)
  then show ?thesis
    using n wf nom_parse(4) [OF n, of "length (nc_id c)" 1] by (simp add: NewConnectionId parser_defs wire)
next
  case (StreamCtl c)
  then show ?thesis using complete_ctl [OF n] wf by simp
next
  case (Stream s d)
  show ?thesis
    using complete_stream [OF n, of s d rest raw pre] wf dl raw
    unfolding Stream by (simp only: type_of_frame.simps delimited.simps)
next
  case (Crypto c d)
  then show ?thesis
    using n wf raw by (simp add: be_crypto_frame_def data_body_def VARINT_MAX_def wire)
next
  case (Datagram g d)
  then show ?thesis
    using n wf dl raw
    by (cases g; cases "df_encode_len g")
      (auto simp: datagram_frame_with_flag_def datagram_type_def data_body_def from_u64_def wire)
next
  case (AddAddress a)
  then show ?thesis using n wf by (simp add: parser_defs wire)
next
  case (PunchMeNow a)
  have "concat (frame_fields f) = varint_image (pm_local_seq a) @ varint_image (pm_remote_seq a) @
     concat (addr_fields (pm_address a)) @ varint_image (pm_tire a) @
     varint_image (varint_of_nat_type (pm_nat_type a))"
    by (simp add: PunchMeNow)
  then show ?thesis using n wf by (simp add: PunchMeNow parser_defs wire)
qed (use n wf in \<open>simp_all add: parser_defs wire\<close>)

lemma type_of_frame_wf: "type_wf (type_of_frame f)"
proof (cases f)
  case (Close c)
  then show ?thesis by (cases c) simp_all
next
  case (StreamCtl c)
  then show ?thesis by (cases c) simp_all
qed (simp_all add: ack_type_def stream_type_def datagram_type_def)

lemma be_frame_put:
  assumes n: "nom_ok n" and "frame_wf f" and "delimited f \<or> rest = []" and "belongs_to (type_of_frame f) p"
  shows "be_frame n (frame_image f @ rest) p = Some (Inr (length (frame_image f), f, type_of_frame f))"
proof -
  have "be_frame_type n (frame_image f @ rest) = Inr (concat (frame_fields f) @ rest, type_of_frame f)"
    using be_frame_type_put [OF n type_of_frame_wf] by (simp add: frame_image_def)
  moreover have "complete_frame n (type_of_frame f) (frame_image f @ rest) (concat (frame_fields f) @ rest) =
    Inr (rest, f)"
    using assms by (intro complete_frame_put [where pre = "type_image (type_of_frame f)"])
      (simp_all add: frame_image_def)
  ultimately show ?thesis using assms(4) by (simp add: be_frame_def)
qed

section \<open>Sizes\<close>

lemma sum_sizes_simps [simp]:
  "sum_sizes [] = Some 0"
  "sum_sizes (Some a # ss) = map_option ((+) a) (sum_sizes ss)"
  by (auto simp: sum_sizes_def)

lemma type_size: "varint_of_type ft < 64 \<Longrightarrow> length (type_image ft) = 1"
  by (simp add: type_image_def varint_image_def varint_prefix_def)

lemma type_size_ext: "2 ^ 14 \<le> varint_of_type ft \<Longrightarrow> length (type_image ft) = 4"
  using varint_of_type_less [of ft] by (simp add: type_image_def varint_image_def varint_prefix_def)

lemma type_dir_less: "varint_of_type (TMaxStreams d) < 64" "varint_of_type (TStreamsBlocked d) < 64"
  by (cases d; simp)+

lemma sum_sizes_ranges:
  "\<forall>(gap, ack) \<in> set rs. gap < 2 ^ 62 \<and> ack < 2 ^ 62 \<Longrightarrow>
   sum_sizes (map (\<lambda>(gap, ack). sum_sizes [varint_size gap, varint_size ack]) rs) =
   Some (length (concat (concat (map (\<lambda>(gap, ack). [varint_image gap, varint_image ack]) rs))))"
  by (induction rs) (auto simp: wire)

lemma ack_size_image:
  assumes "ack_wf f"
  shows "ack_size f = Some (1 + length (concat (ack_fields f)))"
  using assms sum_sizes_ranges [of "ack_ranges f"]
  by (auto simp: ack_size_def ack_fields_def ack_wf_def ecn_size_def wire split: option.splits)

lemma streamid_size_image [wire]: "unat s < 2 ^ 62 \<Longrightarrow> streamid_size s = Some (length (varint_image (unat s)))"
  by (simp add: streamid_size_def wire)

lemma nat_type_size [wire]: "varint_size (varint_of_nat_type t) = Some (length (varint_image (varint_of_nat_type t)))"
  by (rule varint_size_image) (cases t; simp)

lemma error_size [wire]: "varint_size (varint_of_error k) = Some (length (varint_image (varint_of_error k)))"
  by (rule varint_size_image) (use varint_of_error_less [of k] in simp)

lemma type_code_size [wire]: "varint_size (varint_of_type ft) = Some (length (type_image ft))"
  unfolding type_image_def by (rule varint_size_image) (use varint_of_type_less [of ft] in simp)

text \<open>
  The two frames whose claimed size may be too small: a token of 64 bytes or more, and a
  CONNECTION_CLOSE that names a frame type of the address extension.
\<close>

fun size_exact :: "frame \<Rightarrow> bool" where
  "size_exact (NewToken t) \<longleftrightarrow> length t < 64"
| "size_exact (Close (CloseQuic f)) \<longleftrightarrow> varint_of_error_frame (qc_frame_type f) < 64"
| "size_exact _ \<longleftrightarrow> True"

lemma frame_size_image:
  assumes "frame_wf f" and "size_exact f"
  shows "map_option (\<lambda>k. k + length (frame_data f)) (frame_size f) = Some (length (frame_image f))"
proof (cases f)
  case (Ack a)
  then show ?thesis
    using assms type_size [of "ack_type a"]
    by (simp add: ack_size_image frame_image_def ack_type_def split: option.splits)
next
  case (Close c)
  then show ?thesis
    using assms type_size
    by (cases c) (auto simp: frame_image_def from_u64_def wire)
next
  case (StreamCtl c)
  then show ?thesis
    using assms type_size
    by (cases c) (auto simp: frame_image_def MAX_STREAMS_LIMIT_def type_dir_less wire)
next
  case (Stream s d)
  then show ?thesis
    using assms type_size [of "stream_type s"]
    by (auto simp: frame_image_def stream_size_def stream_type_def stream_type_bits from_u64_def VARINT_MAX_def wire
      split: fin_flag.splits len_flag.splits)
next
  case (Datagram g d)
  then show ?thesis
    using assms type_size [of "datagram_type g"]
    by (auto simp: frame_image_def datagram_size_def datagram_type_def wire)
next
  case (NewToken t)
  then show ?thesis
    using assms by (simp add: frame_image_def new_token_size_def type_size varint_image_def varint_prefix_def)
next
  case (AddAddress a)
  then show ?thesis
    using assms
    by (auto simp: frame_image_def type_image_def add_address_size_def addr_fields_def wire split: family.splits)
next
  case (RemoveAddress s)
  then show ?thesis using assms by (simp add: frame_image_def type_image_def wire)
next
  case (PunchMeNow a)
  then show ?thesis
    using assms
    by (auto simp: frame_image_def type_image_def punch_me_now_size_def addr_fields_def socket_addr_size_def wire
      split: family.splits)
next
  case (PunchHello a)
  then show ?thesis using assms by (simp add: frame_image_def type_image_def punch_hello_size_def wire)
next
  case (PunchDone a)
  then show ?thesis using assms by (simp add: frame_image_def type_image_def punch_done_size_def wire)
qed (use assms in \<open>auto simp: frame_image_def new_connection_id_size_def crypto_size_def VARINT_MAX_def
    type_size wire\<close>)

section \<open>Every parser returns and consumes\<close>

text \<open>A result that is not a panic and leaves at most \<open>k\<close> bytes.\<close>

definition sane :: "'a presult \<Rightarrow> nat \<Rightarrow> bool" where
  "sane r k \<longleftrightarrow> (case r of Inl e \<Rightarrow> e \<noteq> Panicked | Inr (rest, _) \<Rightarrow> length rest \<le> k)"

lemma sane_Inl [simp]: "sane (Inl e) k \<longleftrightarrow> e \<noteq> Panicked"
  by (simp add: sane_def)

lemma sane_Inr [simp]: "sane (Inr (rest, x)) k \<longleftrightarrow> length rest \<le> k"
  by (simp add: sane_def)

lemma sane_and_then:
  "sane r k \<Longrightarrow> (\<And>rest x. length rest \<le> k \<Longrightarrow> sane (f (rest, x)) k) \<Longrightarrow> sane (and_then r f) k"
  by (cases r) (auto simp: sane_def)

lemma sane_map_ok: "sane r k \<Longrightarrow> sane (map_ok (apsnd g) r) k"
  by (cases r) (auto simp: sane_def)

lemma sane_varint:
  assumes "nom_ok n" and "length input \<le> k"
  shows "sane (be_varint n input) k"
proof (cases "be_varint n input")
  case (Inl e)
  then show ?thesis using be_varint_no_panic [OF assms(1), of input] by (cases e) auto
next
  case (Inr p)
  then show ?thesis using be_varint_consumes [OF assms(1), of input] assms(2) by (cases p) fastforce
qed

lemma sane_streamid: "nom_ok n \<Longrightarrow> length input \<le> k \<Longrightarrow> sane (be_streamid n input) k"
  unfolding be_streamid_def by (intro sane_map_ok sane_varint)

lemma sane_nom:
  assumes "nom_ok n" and "length input \<le> k"
  shows "sane (take_complete n j input) k" and "sane (take_streaming n j input) k"
    and "sane (be_uint_complete n j input) k" and "sane (be_uint_streaming n j input) k"
  using assms by (auto simp: nom_ok_def sane_def)

lemma sane_frame_type:
  assumes "nom_ok n" and "length input \<le> k"
  shows "sane (map_err (\<lambda>_. Err Alt) (be_frame_type n input)) k"
proof (cases "be_varint n input")
  case (Inr p)
  then show ?thesis
    using be_varint_consumes [OF assms(1), of input] assms(2)
    by (cases p) (fastforce simp: be_frame_type_def split: option.splits)
qed (simp add: be_frame_type_def)

lemma sane_ranges: "nom_ok n \<Longrightarrow> length input \<le> k \<Longrightarrow> sane (ack_ranges_loop n c input) k"
  by (induction c arbitrary: input) (auto intro!: sane_and_then sane_varint sane_map_ok)

lemma sane_error_kind:
  "(\<And>kind. sane (g kind) k) \<Longrightarrow>
   sane (and_then (case error_kind_of v of None \<Rightarrow> Inl (Err Alt) | Some x \<Rightarrow> Inr x) g) k"
  by (cases "error_kind_of v") auto

lemmas sane_intros = sane_and_then sane_map_ok sane_varint sane_streamid sane_nom sane_frame_type
  sane_ranges sane_error_kind

lemma sane_data_body: "length input \<le> k \<Longrightarrow> sane (data_body raw input len mk) k"
  by (auto simp: data_body_def Let_def)

lemma sane_complete:
  assumes "nom_ok n" and "length input \<le> k" and "k < 2 ^ 62"
  shows "sane (complete_frame n ft raw input) k"
  using assms
  by (cases ft)
    (auto simp: parser_defs ack_frame_with_ecn_def be_ecn_counts_def be_crypto_frame_def
      stream_frame_with_flag_def datagram_frame_with_flag_def be_socket_addr_def be_ip_addr_def from_u64_def
      intro!: sane_intros sane_data_body split: layer.split option.split family.split)

lemma be_frame_returns:
  assumes "nom_ok n" and "length raw < 2 ^ 62"
  obtains e where "be_frame n raw p = Some (Inl e)"
  | k f ft where "be_frame n raw p = Some (Inr (k, f, ft))" and "0 < k" and "k \<le> length raw"
      and "belongs_to ft p"
proof (cases "be_frame_type n raw")
  case (Inl e)
  then show ?thesis using that(1) by (simp add: be_frame_def)
next
  case (Inr q)
  obtain remain ft where q: "q = (remain, ft)" by force
  obtain v where v: "be_varint n raw = Inr (remain, v)"
    using Inr q by (cases "be_varint n raw") (auto simp: be_frame_type_def split: option.splits)
  then have l: "length remain < length raw" using be_varint_consumes [OF assms(1) v] by auto
  have s: "sane (complete_frame n ft raw remain) (length remain)"
    using assms l by (intro sane_complete) auto
  show ?thesis
  proof (cases "belongs_to ft p")
    case False
    then show ?thesis using that(1) Inr q by (simp add: be_frame_def)
  next
    case True
    show ?thesis
    proof (cases "complete_frame n ft raw remain")
      case (Inl e)
      then show ?thesis using s Inr q True that(1) by (cases e) (simp_all add: be_frame_def)
    next
      case (Inr r)
      then show ?thesis
        using s \<open>be_frame_type n raw = Inr q\<close> q True l that(2) by (cases r) (simp add: be_frame_def)
    qed
  qed
qed

section \<open>Capacities\<close>

lemma crypto_capacity_size:
  assumes "crypto_max_capacity capacity offset = Some (Some k)"
  shows "0 < k \<and> (\<exists>sz. crypto_size \<lparr>cf_offset = offset, cf_length = k\<rparr> = Some sz \<and> sz + k \<le> capacity) \<and>
    (\<exists>sz. crypto_size \<lparr>cf_offset = offset, cf_length = k + 1\<rparr> = Some sz \<and> capacity < sz + (k + 1))"
proof -
  obtain j where j: "varint_size offset = Some j" "1 + j + 2 \<le> capacity"
    using assms by (auto simp: crypto_max_capacity_def rust_std split: option.splits if_splits)
  let ?r = "capacity - (1 + j + 2)"
  have k: "k = (if ?r \<le> 62 then ?r + 1 else if ?r \<le> 0x3FFF then ?r else if ?r \<le> 0x4001 then 0x3FFF else ?r - 2)"
    "?r \<le> 0x40000001"
    using assms j by (auto simp: crypto_max_capacity_def rust_std checked_sub_def split: if_splits)
  show ?thesis using j k by (auto simp: crypto_size_def varint_size_def)
qed

lemma stream_capacity_fits:
  assumes "stream_max_capacity capacity sid offset = Some (Some k)"
  shows "0 < k \<and> stream_size \<lparr>sf_id = sid, sf_offset = offset, sf_length = k, sf_len_bit = Omit, sf_fin_bit = fin\<rparr> =
    Some (capacity - k) \<and> k \<le> capacity"
proof -
  obtain a where a: "streamid_size sid = Some a"
    using assms by (cases "streamid_size sid") (auto simp: stream_max_capacity_def sum_sizes_def split: if_splits)
  show ?thesis
  proof (cases "offset = 0")
    case True
    then show ?thesis
      using assms a by (auto simp: stream_max_capacity_def stream_size_def split: if_splits)
  next
    case False
    then obtain c where "varint_size offset = Some c"
      using assms a by (cases "varint_size offset") (auto simp: stream_max_capacity_def sum_sizes_def split: if_splits)
    with False show ?thesis
      using assms a by (auto simp: stream_max_capacity_def stream_size_def split: if_splits)
  qed
qed

text \<open>The padding and the frame with the length bit of the strategy fit, and fill the packet when little is left.\<close>

lemma encoding_strategy_fits:
  assumes "encoding_strategy f capacity = Some s"
  shows "\<exists>sz. stream_size (set_len_bit (es_len_bit s) f) = Some sz \<and>
    es_pre_padding s + sz + sf_length f \<le> capacity \<and>
    (es_pre_padding s + sz + sf_length f = capacity \<or> STREAM_FRAME_MAX_ENCODING_SIZE \<le> capacity - (sz + sf_length f)) \<and>
    (es_len_bit s = Omit \<longrightarrow> es_pre_padding s + sz + sf_length f = capacity)"
proof -
  obtain head l where s: "sf_len_bit f = Omit" "stream_size f = Some head"
    "Option.bind (from_u64 (sf_length f)) varint_size = Some l"
    using assms by (auto simp: encoding_strategy_def split: if_splits option.splits)
  have e: "stream_size (set_len_bit Explicit f) = Some (head + l)"
    using s by (cases "streamid_size (sf_id f)"; cases "varint_size (sf_offset f)")
      (auto simp: stream_size_def set_len_bit_def sum_sizes_def split: if_splits)
  have o: "set_len_bit Omit f = f" using s(1) by (cases f) (simp add: set_len_bit_def)
  show ?thesis
    using assms s e o by (auto simp: encoding_strategy_def Let_def split: if_splits)
qed

section \<open>Examples\<close>

text \<open>A concrete instance of the parser library and some frames, for the witnesses.\<close>

definition sample_nom :: nom where
  "sample_nom = \<lparr>
     take_bits = (\<lambda>count (xs, off). if 8 * length xs < count + off then Inl Incomplete
       else Inr ((drop ((off + count) div 8) xs, (off + count) mod 8), bits_of xs off count)),
     be_uint_complete = (\<lambda>k xs. if length xs < k then Inl (Err Eof) else Inr (drop k xs, be_nat (take k xs))),
     be_uint_streaming = (\<lambda>k xs. if length xs < k then Inl Incomplete else Inr (drop k xs, be_nat (take k xs))),
     take_complete = (\<lambda>k xs. if length xs < k then Inl (Err Eof) else Inr (drop k xs, take k xs)),
     take_streaming = (\<lambda>k xs. if length xs < k then Inl Incomplete else Inr (drop k xs, take k xs))\<rparr>"

lemma sample_nom_ok: "nom_ok sample_nom"
  by (simp add: nom_ok_def sample_nom_def)

definition sample_ack :: frame where
  "sample_ack = Ack \<lparr>ack_largest = 9, ack_delay = 100, ack_first_range = 2, ack_ranges = [(0, 1), (1, 0)], ack_ecn = None\<rparr>"

definition sample_stream :: frame where
  "sample_stream = Stream \<lparr>sf_id = 4, sf_offset = 7, sf_length = 2, sf_len_bit = Omit, sf_fin_bit = Yes\<rparr> [1, 2]"

lemma stream_strategy_fits:
  assumes "stream_max_capacity capacity sid offset = Some (Some k)" and "l \<le> k" and "capacity < 2 ^ 62"
    and "f = \<lparr>sf_id = sid, sf_offset = offset, sf_length = l, sf_len_bit = Omit, sf_fin_bit = fin\<rparr>"
  shows "\<exists>s sz. encoding_strategy f capacity = Some s \<and> stream_size (set_len_bit (es_len_bit s) f) = Some sz \<and>
    es_pre_padding s + sz + l \<le> capacity \<and> (es_len_bit s = Omit \<longrightarrow> es_pre_padding s + sz + l = capacity)"
proof -
  have h: "stream_size f = Some (capacity - k)" "k \<le> capacity"
    using stream_capacity_fits [OF assms(1), of fin] assms(4) by (auto simp: stream_size_def)
  have "l < 2 ^ 62" using assms(2,3) h(2) by simp
  then have "Option.bind (from_u64 (sf_length f)) varint_size = Some (length (varint_image l))"
    using assms(4) by (simp add: from_u64_def varint_size_image)
  with h assms(2,4) obtain s where s: "encoding_strategy f capacity = Some s"
    by (fastforce simp: encoding_strategy_def Let_def)
  from encoding_strategy_fits [OF this] s assms(4) show ?thesis by auto
qed

section \<open>Properties\<close>

text \<open>
  A variable-length integer written with any of the four lengths that can hold it, and so
  also in the shortest form, is read back exactly, whatever follows it.
\<close>

theorem varint_roundtrip:
  assumes "nom_ok n" and "p < 4" and "x < 2 ^ (8 * 2 ^ p - 2)" and "x < 2 ^ 62"
  shows "\<exists>s t. encode_varint x ([One, Two, Four, Eight] ! p) (b, 8) = Some (b @ s, 8 - 2 ^ p) \<and>
    be_varint n (s @ rest) = Inr (rest, x) \<and>
    put_varint x (b, 8) = Some (b @ t, 8 - length t) \<and> varint_size x = Some (length t) \<and>
    length t \<le> length s \<and> be_varint n (t @ rest) = Inr (rest, x)"
proof (intro exI conjI)
  have le: "2 ^ p \<le> (8::nat)" using assms(2) power_increasing [of p 3 "2::nat"] by simp
  show "encode_varint x ([One, Two, Four, Eight] ! p) (b, 8) = Some (b @ varint_bytes p x, 8 - 2 ^ p)"
    using encode_varint_emits [OF assms(3,2)] le by (simp add: emits_def)
  show "be_varint n (varint_bytes p x @ rest) = Inr (rest, x)"
    by (rule be_varint_bytes [OF assms(1,2,3)])
  show "put_varint x (b, 8) = Some (b @ varint_image x, 8 - length (varint_image x))"
    using put_varint_emits [OF assms(4)] varint_image_length(2) [of x] by (simp add: emits_def)
  show "varint_size x = Some (length (varint_image x))" by (rule varint_size_image [OF assms(4)])
  show "be_varint n (varint_image x @ rest) = Inr (rest, x)" by (rule be_varint_put [OF assms(1,4)])
  consider "p = 0" | "p = 1" | "p = 2" | "p = 3" using assms(2) by linarith
  then show "length (varint_image x) \<le> length (varint_bytes p x)"
    using assms(3) by cases (auto simp: varint_image_def varint_prefix_def)
qed

theorem varint_roundtrip_witness:
  "\<exists>s t. encode_varint 37 Two ([], 8) = Some (s, 6) \<and> be_varint sample_nom (s @ [9]) = Inr ([9], 37) \<and>
    put_varint 37 ([], 8) = Some (t, 8 - length t) \<and> varint_size 37 = Some (length t) \<and>
    length t \<le> length s \<and> be_varint sample_nom (t @ [9]) = Inr ([9], 37)"
  using varint_roundtrip [OF sample_nom_ok, of 1 37 "[]" "[9]"] by simp

text \<open>
  C4. Every well-formed frame is written exactly when the buffer has room for its wire image, and
  a parser that sees the image, at the end of a packet or followed by other frames when the
  frame says where it ends, returns the same frame, its type and its length.
\<close>

theorem frame_roundtrip:
  assumes "nom_ok n" and "frame_wf f" and "delimited f \<or> rest = []" and "belongs_to (type_of_frame f) p"
  shows "(\<forall>b r. put_frame f (b, r) =
       (if length (frame_image f) \<le> r then Some (b @ frame_image f, r - length (frame_image f)) else None)) \<and>
     be_frame n (frame_image f @ rest) p = Some (Inr (length (frame_image f), f, type_of_frame f))"
  using frame_emits [OF assms(2)] be_frame_put [OF assms] by (simp add: emits_def)

theorem frame_roundtrip_witness:
  "be_frame sample_nom (frame_image sample_ack @ [1]) (V1 Initial) =
     Some (Inr (length (frame_image sample_ack), sample_ack, TAck NoEcn)) \<and>
   be_frame sample_nom (frame_image sample_stream @ []) (OneRtt True) =
     Some (Inr (length (frame_image sample_stream), sample_stream, TStream NonZero Omit Yes))"
proof
  show "be_frame sample_nom (frame_image sample_ack @ [1]) (V1 Initial) =
     Some (Inr (length (frame_image sample_ack), sample_ack, TAck NoEcn))"
    using frame_roundtrip [OF sample_nom_ok, of sample_ack "[1]" "V1 Initial"]
    by (simp add: sample_ack_def ack_wf_def ack_type_def)
  show "be_frame sample_nom (frame_image sample_stream @ []) (OneRtt True) =
     Some (Inr (length (frame_image sample_stream), sample_stream, TStream NonZero Omit Yes))"
    using frame_roundtrip [OF sample_nom_ok, of sample_stream "[]" "OneRtt True"]
    by (simp add: sample_stream_def stream_type_def VARINT_MAX_def)
qed



text \<open>
  C22. On every payload, however malformed, the frame parser returns: an error, or a frame whose
  type is allowed in the packet and that took at least one byte and no more than there are.
\<close>

theorem be_frame_total:
  assumes "nom_ok n" and "length raw < 2 ^ 62"
  shows "\<exists>res. be_frame n raw p = Some res \<and>
     (case res of Inl _ \<Rightarrow> True | Inr (k, f, ft) \<Rightarrow> 0 < k \<and> k \<le> length raw \<and> belongs_to ft p)"
  using be_frame_returns [OF assms, of p] by (metis (no_types, lifting) case_prod_conv old.sum.simps(5,6))

theorem be_frame_total_witness:
  "\<exists>res. be_frame sample_nom [0x08, 0xFF, 3] (V1 ZeroRtt) = Some res \<and>
     (case res of Inl _ \<Rightarrow> True | Inr (k, f, ft) \<Rightarrow> 0 < k \<and> k \<le> length [0x08, 0xFF, 3 :: byte] \<and> belongs_to ft (V1 ZeroRtt))"
  by (rule be_frame_total [OF sample_nom_ok]) simp

text \<open>
  The capacity estimate of CRYPTO frames is exact: a frame with that many bytes of data fits
  the capacity and a frame with one more does not.
\<close>

theorem crypto_capacity_maximal:
  assumes "crypto_max_capacity capacity offset = Some (Some k)"
  shows "0 < k \<and> (\<exists>sz. crypto_size \<lparr>cf_offset = offset, cf_length = k\<rparr> = Some sz \<and> sz + k \<le> capacity) \<and>
    (\<exists>sz. crypto_size \<lparr>cf_offset = offset, cf_length = k + 1\<rparr> = Some sz \<and> capacity < sz + (k + 1))"
  by (rule crypto_capacity_size [OF assms])

theorem crypto_capacity_maximal_witness:
  "\<exists>sz. crypto_size \<lparr>cf_offset = 65, cf_length = 63 + 1\<rparr> = Some sz \<and> 68 < sz + (63 + 1)"
proof -
  have "crypto_max_capacity 68 65 = Some (Some 63)"
    by (simp add: crypto_max_capacity_def VARINT_MAX_def varint_size_def checked_sub_def)
  from crypto_capacity_maximal [OF this] show ?thesis by blast
qed

text \<open>
  C25. A STREAM frame of the estimated capacity fits, and whatever the encoding strategy answers,
  the padding it asks for, the frame with its length bit and the data together fit the packet;
  without a length field they fill it to the last byte, so the frame can end the packet.
\<close>

theorem stream_encoding_fits:
  assumes "stream_max_capacity capacity sid offset = Some (Some k)" and "l \<le> k" and "capacity < 2 ^ 62"
    and "f = \<lparr>sf_id = sid, sf_offset = offset, sf_length = l, sf_len_bit = Omit, sf_fin_bit = fin\<rparr>"
  shows "\<exists>s sz. encoding_strategy f capacity = Some s \<and> stream_size (set_len_bit (es_len_bit s) f) = Some sz \<and>
    es_pre_padding s + sz + l \<le> capacity \<and> (es_len_bit s = Omit \<longrightarrow> es_pre_padding s + sz + l = capacity)"
  by (rule stream_strategy_fits [OF assms])

theorem stream_encoding_fits_witness:
  "\<exists>s sz. encoding_strategy \<lparr>sf_id = 4, sf_offset = 7, sf_length = 10, sf_len_bit = Omit, sf_fin_bit = No\<rparr> 30 = Some s \<and>
    stream_size (set_len_bit (es_len_bit s)
      \<lparr>sf_id = 4, sf_offset = 7, sf_length = 10, sf_len_bit = Omit, sf_fin_bit = No\<rparr>) = Some sz \<and>
    es_pre_padding s + sz + 10 \<le> 30"
proof -
  have "stream_max_capacity 30 4 7 = Some (Some 27)"
    by (simp add: stream_max_capacity_def VARINT_MAX_def streamid_size_def varint_size_def)
  from stream_encoding_fits [OF this _ _ refl, of 10 No] show ?thesis by auto
qed

text \<open>
  C26. The CRYPTO parser tests the offset against itself instead of the length: it rejects frames
  whose data ends below the largest offset, and accepts frames whose data ends above it.
\<close>

theorem crypto_limit_check_wrong:
  assumes "nom_ok n"
  shows "(\<exists>offset len. offset + len \<le> VARINT_MAX \<and>
      be_crypto_frame n (varint_image offset @ varint_image len) = Inl (Err TooLarge)) \<and>
    (\<exists>offset len f. VARINT_MAX < offset + len \<and>
      be_crypto_frame n (varint_image offset @ varint_image len) = Inr ([], f))"
proof
  have v: "be_crypto_frame n (varint_image offset @ varint_image len) =
    (if VARINT_MAX < offset + offset then Inl (Err TooLarge) else Inr ([], \<lparr>cf_offset = offset, cf_length = len\<rparr>))"
    if "offset < 2 ^ 62" "len < 2 ^ 62" for offset len
    using be_varint_put [OF assms that(1), of "varint_image len"] be_varint_put [OF assms that(2), of "[]"]
    by (simp add: be_crypto_frame_def)
  show "\<exists>offset len. offset + len \<le> VARINT_MAX \<and>
      be_crypto_frame n (varint_image offset @ varint_image len) = Inl (Err TooLarge)"
    using v [of "2 ^ 61" 1] by (intro exI [of _ "2 ^ 61"] exI [of _ 1]) (simp add: VARINT_MAX_def)
  show "\<exists>offset len f. VARINT_MAX < offset + len \<and>
      be_crypto_frame n (varint_image offset @ varint_image len) = Inr ([], f)"
    using v [of 1 "2 ^ 62 - 1"] by (intro exI [of _ 1] exI [of _ "2 ^ 62 - 1"]) (simp add: VARINT_MAX_def)
qed

theorem crypto_limit_check_wrong_witness:
  "\<exists>offset len. offset + len \<le> VARINT_MAX \<and>
      be_crypto_frame sample_nom (varint_image offset @ varint_image len) = Inl (Err TooLarge)"
  using crypto_limit_check_wrong [OF sample_nom_ok] by blast

end
