(* ===== verification/Packet_Frames.thy ===== *)
theory Packet_Frames
  imports Frame_Codec
begin

text \<open>
  The frames of a packet, as \<open>qconnection/src/recv.rs\<close> reads them: the loop over \<open>FrameReader\<close> that
  collects the frames other than padding and notes what the packet contains
  (\<open>PacketContent\<close> of \<open>qbase/src/packet.rs\<close>), and that gives up at the first error.
\<close>

datatype packet_content = NonAckElicitingContent | JustPing | EffectivePayload

definition is_ack_eliciting :: "packet_content \<Rightarrow> bool" where
  "is_ack_eliciting c \<longleftrightarrow> c \<noteq> NonAckElicitingContent"

definition content_of :: "frame_type \<Rightarrow> packet_content" where
  "content_of ft =
     (if ft = TPing then JustPing
      else if \<not> contain_spec (frame_specs ft) NonAckEliciting then EffectivePayload
      else NonAckElicitingContent)"

fun add_content :: "packet_content \<Rightarrow> packet_content \<Rightarrow> packet_content" where
  "add_content c EffectivePayload = EffectivePayload"
| "add_content c JustPing = (if c = NonAckElicitingContent then JustPing else c)"
| "add_content c NonAckElicitingContent = c"

definition add_type :: "packet_content \<Rightarrow> frame_type \<Rightarrow> packet_content" where
  "add_type c ft =
     (if ft = TPing \<and> c = NonAckElicitingContent then JustPing
      else if \<not> contain_spec (frame_specs ft) NonAckEliciting then EffectivePayload
      else c)"

text \<open>The loop: \<open>None\<close> when it panics or does not end.\<close>

partial_function (option) read_frames ::
  "nom \<Rightarrow> frame_reader \<Rightarrow> packet_content \<Rightarrow> frame list \<Rightarrow>
   (frame_error + (packet_content \<times> frame list)) option" where
  "read_frames n r content parsed =
     (case reader_next n r of
        (None, _) \<Rightarrow> None
      | (Some None, _) \<Rightarrow> Some (Inr (content, parsed))
      | (Some (Some (Inl e)), _) \<Rightarrow> Some (Inl e)
      | (Some (Some (Inr (f, ft))), r') \<Rightarrow>
          read_frames n r' (add_content content (content_of ft)) (if f = Padding then parsed else parsed @ [f]))"

section \<open>Facts\<close>

lemma reader_next_returns:
  assumes "nom_ok n" and "length (fr_payload r) < 2 ^ 62"
  obtains "fr_payload r = []" and "reader_next n r = (Some None, r)"
  | e where "reader_next n r = (Some (Some (Inl e)), r)"
  | f ft r' where "reader_next n r = (Some (Some (Inr (f, ft))), r')"
      and "length (fr_payload r') < length (fr_payload r)" and "belongs_to ft (fr_packet_type r)"
      and "fr_packet_type r' = fr_packet_type r"
proof (cases "fr_payload r = []")
  case False
  from be_frame_returns [OF assms, of "fr_packet_type r"] show ?thesis
  proof cases
    case (2 k f ft)
    then show ?thesis using False that(3) by (simp add: reader_next_def)
  qed (use False that(2) in \<open>simp add: reader_next_def\<close>)
qed (use that(1) in \<open>simp add: reader_next_def\<close>)

lemma read_frames_returns:
  assumes "nom_ok n"
  shows "length (fr_payload r) < 2 ^ 62 \<Longrightarrow> \<exists>res. read_frames n r content parsed = Some res"
proof (induction "length (fr_payload r)" arbitrary: r content parsed rule: less_induct)
  case less
  from reader_next_returns [OF assms less.prems] show ?case
  proof cases
    case (3 f ft r')
    then show ?thesis
      using less.hyps [of r'] less.prems by (subst read_frames.simps) simp
  qed (subst read_frames.simps, simp)+
qed

definition frames_image :: "frame list \<Rightarrow> byte list" where
  "frames_image fs = concat (map frame_image fs)"

lemma frame_image_nonempty: "frame_image f \<noteq> []"
  using varint_image_length(1) by (simp add: frame_image_def type_image_def)

fun delimited_all :: "frame list \<Rightarrow> bool" where
  "delimited_all [] \<longleftrightarrow> True"
| "delimited_all [f] \<longleftrightarrow> True"
| "delimited_all (f # fs) \<longleftrightarrow> delimited f \<and> delimited_all fs"

lemma delimited_all_Cons: "delimited_all (f # fs) \<Longrightarrow> (delimited f \<or> frames_image fs = []) \<and> delimited_all fs"
  by (cases fs) (auto simp: frames_image_def)

lemma read_frames_put:
  assumes "nom_ok n" and "\<forall>f \<in> set fs. frame_wf f \<and> belongs_to (type_of_frame f) p" and "delimited_all fs"
  shows "read_frames n \<lparr>fr_payload = frames_image fs, fr_packet_type = p\<rparr> content parsed =
    Some (Inr (foldl (\<lambda>c f. add_content c (content_of (type_of_frame f))) content fs,
      parsed @ filter (\<lambda>f. f \<noteq> Padding) fs))"
  using assms(2,3)
proof (induction fs arbitrary: content parsed)
  case Nil
  show ?case by (subst read_frames.simps) (simp add: reader_next_def frames_image_def)
next
  case (Cons f fs)
  have i: "frames_image (f # fs) = frame_image f @ frames_image fs" by (simp add: frames_image_def)
  have "be_frame n (frame_image f @ frames_image fs) p = Some (Inr (length (frame_image f), f, type_of_frame f))"
    using Cons.prems delimited_all_Cons [OF Cons.prems(2)] by (intro be_frame_put [OF assms(1)]) auto
  then have "reader_next n \<lparr>fr_payload = frames_image (f # fs), fr_packet_type = p\<rparr> =
    (Some (Some (Inr (f, type_of_frame f))), \<lparr>fr_payload = frames_image fs, fr_packet_type = p\<rparr>)"
    by (simp add: reader_next_def i frame_image_nonempty)
  then show ?case
    using Cons.IH Cons.prems delimited_all_Cons [OF Cons.prems(2)]
    by (subst read_frames.simps) simp
qed

text \<open>Only PADDING, ACK, CONNECTION_CLOSE and the two punching frames do not elicit acknowledgements.\<close>

lemma contain_non_eliciting:
  "contain_spec (frame_specs ft) NonAckEliciting \<longleftrightarrow>
     (case ft of TPadding \<Rightarrow> True | TAck _ \<Rightarrow> True | TConnectionClose _ \<Rightarrow> True | TPunchHello \<Rightarrow> True
      | TPunchDone \<Rightarrow> True | _ \<Rightarrow> False)"
  by (cases ft) (simp_all add: contain_spec_def frame_specs_def)

lemma content_eliciting: "is_ack_eliciting (content_of ft) \<longleftrightarrow> \<not> contain_spec (frame_specs ft) NonAckEliciting"
  by (simp add: is_ack_eliciting_def content_of_def contain_non_eliciting)

lemma add_content_eliciting:
  "is_ack_eliciting (add_content c d) \<longleftrightarrow> is_ack_eliciting c \<or> is_ack_eliciting d"
  by (cases d; cases c) (simp_all add: is_ack_eliciting_def)

lemma fold_content_eliciting:
  "is_ack_eliciting (foldl (\<lambda>c f. add_content c (content_of (type_of_frame f))) c fs) \<longleftrightarrow>
     is_ack_eliciting c \<or> (\<exists>f \<in> set fs. \<not> contain_spec (frame_specs (type_of_frame f)) NonAckEliciting)"
  by (induction fs arbitrary: c) (auto simp: add_content_eliciting content_eliciting)

section \<open>Properties\<close>



text \<open>C23. On every payload the receiving loop ends, with the frames or with the first error.\<close>

theorem read_frames_terminates:
  assumes "nom_ok n" and "length payload < 2 ^ 62"
  shows "\<exists>res. read_frames n \<lparr>fr_payload = payload, fr_packet_type = p\<rparr> content parsed = Some res"
  using read_frames_returns [OF assms(1)] assms(2) by simp

theorem read_frames_terminates_witness:
  "\<exists>res. read_frames sample_nom \<lparr>fr_payload = [0x40, 1, 0xFF], fr_packet_type = V1 Handshake\<rparr> JustPing [] = Some res"
  by (rule read_frames_terminates [OF sample_nom_ok]) simp

end
