(* ===== verification/Rcvd_Journal.thy ===== *)
theory Rcvd_Journal
  imports Packet_Number Frame_Codec
begin

text \<open>
  The record of received packets, \<open>qrecovery/src/journal/rcvd.rs\<close>: at most 256 half-open ranges of
  packet numbers, sorted, disjoint and not adjacent; what falls below \<open>retired_before\<close> is never
  accepted again. The ranges refine a set of packet numbers. The history of a connection, every
  packet number that was ever recorded, relates the bounded journal to what was really
  received: no packet number is accepted twice, and an ACK frame names received packets only.

  A time is the number of microseconds on the clock of the connection.
\<close>

section \<open>Ranges\<close>

definition MAX_TRACKED_ACK_RANGES :: nat where
  "MAX_TRACKED_ACK_RANGES = 256"

type_synonym pn_ranges = "(nat \<times> nat) list"

record received_ranges =
  rr_ranges :: pn_ranges
  rr_retired_before :: nat
  rr_largest :: "(nat \<times> nat) option"

definition vec_remove :: "nat \<Rightarrow> 'a list \<Rightarrow> 'a list" where
  "vec_remove i xs = take i xs @ drop (i + 1) xs"

definition ranges_contains :: "received_ranges \<Rightarrow> nat \<Rightarrow> bool" where
  "ranges_contains r pn =
     (case vec_get (rr_ranges r) (partition_point (\<lambda>(_, e). e \<le> pn) (rr_ranges r)) of
        Some (s, e) \<Rightarrow> s \<le> pn \<and> pn < e | None \<Rightarrow> False)"

definition insert_pn :: "nat \<Rightarrow> pn_ranges \<Rightarrow> pn_ranges" where
  "insert_pn pn rs =
     (let index = partition_point (\<lambda>(_, e). e < pn) rs;
          inserted_end = pn + 1
      in if index < length rs \<and> snd (rs ! index) = pn then
           (let rs = rs[index := (fst (rs ! index), inserted_end)]
            in if index + 1 < length rs \<and> fst (rs ! (index + 1)) \<le> snd (rs ! index) then
                 vec_remove (index + 1)
                   (rs[index := (fst (rs ! index), max (snd (rs ! index)) (snd (rs ! (index + 1))))])
               else rs)
         else if index < length rs \<and> fst (rs ! index) = inserted_end then
           rs[index := (pn, snd (rs ! index))]
         else vec_insert index (pn, inserted_end) rs)"

definition ranges_insert :: "nat \<Rightarrow> nat \<Rightarrow> received_ranges \<Rightarrow> bool \<times> received_ranges" where
  "ranges_insert pn received_at r =
     (if pn < rr_retired_before r \<or> ranges_contains r pn then (False, r)
      else
        (let r = r\<lparr>rr_ranges := insert_pn pn (rr_ranges r)\<rparr>;
             r = (if (case rr_largest r of None \<Rightarrow> True | Some (largest, _) \<Rightarrow> largest < pn)
                  then r\<lparr>rr_largest := Some (pn, received_at)\<rparr> else r)
         in if MAX_TRACKED_ACK_RANGES < length (rr_ranges r) then
              (True, r\<lparr>rr_ranges := vec_remove 0 (rr_ranges r),
                 rr_retired_before := max (rr_retired_before r) (snd (rr_ranges r ! 0))\<rparr>)
            else (True, r)))"

definition range_containing :: "received_ranges \<Rightarrow> nat \<Rightarrow> nat option" where
  "range_containing r pn =
     (let index = partition_point (\<lambda>(_, e). e \<le> pn) (rr_ranges r)
      in case vec_get (rr_ranges r) index of
           Some (s, e) \<Rightarrow> if s \<le> pn \<and> pn < e then Some index else None
         | None \<Rightarrow> None)"

section \<open>The journal\<close>

record rcvd_journal =
  rj_packets :: received_ranges
  rj_largest_authenticated :: "nat option"

definition empty_journal :: rcvd_journal where
  "empty_journal =
     \<lparr>rj_packets = \<lparr>rr_ranges = [], rr_retired_before = 0, rr_largest = None\<rparr>,
      rj_largest_authenticated = None\<rparr>"

datatype invalid_pn = PnTooOld | PnTooLarge | PnDuplicate

definition decode_pn :: "rcvd_journal \<Rightarrow> packet_number \<Rightarrow> invalid_pn + nat" where
  "decode_pn j pkt_number =
     (let expected_pn = (case rj_largest_authenticated j of None \<Rightarrow> 0 | Some largest \<Rightarrow> largest + 1);
          pn = unat (decode pkt_number (word_of_nat expected_pn))
      in if VARINT_MAX < pn then Inl PnTooLarge
         else if pn < rr_retired_before (rj_packets j) then Inl PnTooOld
         else if ranges_contains (rj_packets j) pn then Inl PnDuplicate
         else Inr pn)"

definition on_authenticated :: "nat \<Rightarrow> rcvd_journal \<Rightarrow> rcvd_journal" where
  "on_authenticated pn j =
     j\<lparr>rj_largest_authenticated :=
       Some (case rj_largest_authenticated j of None \<Rightarrow> pn | Some largest \<Rightarrow> max largest pn)\<rparr>"

definition on_rcvd_pn :: "nat \<Rightarrow> nat \<Rightarrow> rcvd_journal \<Rightarrow> rcvd_journal" where
  "on_rcvd_pn now pn j =
     (let j = on_authenticated pn j
      in j\<lparr>rj_packets := snd (ranges_insert pn now (rj_packets j))\<rparr>)"

definition covers_range :: "rcvd_journal \<Rightarrow> nat \<Rightarrow> nat \<Rightarrow> bool" where
  "covers_range j lo hi =
     (let start = max lo (rr_retired_before (rj_packets j))
      in hi < start \<or> (\<exists>(s, e) \<in> set (rr_ranges (rj_packets j)). s \<le> start \<and> hi < e))"

section \<open>Acknowledgements\<close>

definition range_count_size_increment :: "nat \<Rightarrow> nat" where
  "range_count_size_increment count =
     (if count = 2 ^ 6 - 1 then 1 else if count = 2 ^ 14 - 1 then 2 else if count = 2 ^ 30 - 1 then 4 else 0)"

text \<open>The loop over the earlier ranges, newest first: the gaps and lengths that still fit.\<close>

fun ack_ranges_of ::
  "nat \<Rightarrow> nat \<Rightarrow> nat \<Rightarrow> pn_ranges \<Rightarrow> unit poll + (nat \<times> nat) list" where
  "ack_ranges_of capacity current_start count [] = Inr []"
| "ack_ranges_of capacity current_start count ((s, e) # prevs) =
     (case checked_sub current_start (e + 1) of
        None \<Rightarrow> Inl poll.Pending
      | Some gap \<Rightarrow>
          (let ack = e - s - 1
           in case (varint_size gap, varint_size ack) of
                (Some g, Some a) \<Rightarrow>
                  (let sz = range_count_size_increment count + g + a
                   in if capacity < sz then Inr []
                      else map_ok (Cons (gap, ack)) (ack_ranges_of (capacity - sz) s (count + 1) prevs))
              | _ \<Rightarrow> Inl poll.Pending))"

definition gen_ack_frame_util ::
  "nat \<Rightarrow> nat \<Rightarrow> nat \<Rightarrow> nat \<Rightarrow> rcvd_journal \<Rightarrow> unit poll + ack_frame" where
  "gen_ack_frame_util now largest rcvd_time capacity j =
     and_then
       (case range_containing (rj_packets j) largest of
          Some i \<Rightarrow> Inr (fst (rr_ranges (rj_packets j) ! i), take i (rr_ranges (rj_packets j)))
        | None \<Rightarrow>
            if largest < rr_retired_before (rj_packets j) then Inr (largest, []) else Inl poll.Pending)
       (\<lambda>(range_start, previous_ranges).
          (let delay = min (now - rcvd_time) VARINT_MAX; first_range = largest - range_start
           in case (varint_size largest, varint_size delay, varint_size first_range) of
                (Some a, Some b, Some c) \<Rightarrow>
                  (let min_len = 1 + a + b + 1 + c
                   in if capacity < min_len then Inl (Ready ())
                      else
                        map_ok (\<lambda>ranges. \<lparr>ack_largest = largest, ack_delay = delay, ack_first_range = first_range,
                            ack_ranges = ranges, ack_ecn = None\<rparr>)
                          (ack_ranges_of (capacity - min_len) range_start 0 (rev previous_ranges)))
              | _ \<Rightarrow> Inl poll.Pending))"

text \<open>The frame as \<open>AckPackege::poll_dump\<close> sends it, the delay scaled by the exponent.\<close>

definition scale_delay :: "nat \<Rightarrow> ack_frame \<Rightarrow> ack_frame" where
  "scale_delay exponent f = f\<lparr>ack_delay := ack_delay f div 2 ^ exponent\<rparr>"

text \<open>
  The ranges of packet numbers an ACK frame names, as its receiver walks them; \<open>None\<close> when a
  subtraction underflows.
\<close>

fun scan_ranges :: "nat \<Rightarrow> (nat \<times> nat) list \<Rightarrow> (nat \<times> nat) list option" where
  "scan_ranges largest [] = Some []"
| "scan_ranges largest ((gap, len) # rest) =
     (case checked_sub largest (gap + 2) of
        None \<Rightarrow> None
      | Some right \<Rightarrow>
          (case checked_sub right len of
             None \<Rightarrow> None
           | Some left \<Rightarrow> map_option (Cons (left, right)) (scan_ranges left rest)))"

definition iter_ranges :: "ack_frame \<Rightarrow> (nat \<times> nat) list option" where
  "iter_ranges f =
     (case checked_sub (ack_largest f) (ack_first_range f) of
        None \<Rightarrow> None
      | Some left \<Rightarrow> map_option (Cons (left, ack_largest f)) (scan_ranges left (ack_ranges f)))"

section \<open>Ranges as sets\<close>

definition pn_set :: "pn_ranges \<Rightarrow> nat set" where
  "pn_set rs = (\<Union>(s, e) \<in> set rs. {s..<e})"

definition ranges_ok :: "pn_ranges \<Rightarrow> bool" where
  "ranges_ok rs \<longleftrightarrow> sorted_wrt (\<lambda>(_, e) (s, _). e < s) rs \<and> (\<forall>(s, e) \<in> set rs. s < e)"

lemma pn_set_simps [simp]: "pn_set [] = {}" "pn_set ((s, e) # rs) = {s..<e} \<union> pn_set rs"
  "pn_set (rs @ rs') = pn_set rs \<union> pn_set rs'"
  by (auto simp: pn_set_def)

lemma ranges_ok_simps [simp]:
  "ranges_ok []"
  "ranges_ok ((s, e) # rs) \<longleftrightarrow> s < e \<and> (\<forall>(s', e') \<in> set rs. e < s') \<and> ranges_ok rs"
  by (auto simp: ranges_ok_def)

lemma ranges_ok_append:
  "ranges_ok (rs @ rs') \<longleftrightarrow>
     ranges_ok rs \<and> ranges_ok rs' \<and> (\<forall>(_, e) \<in> set rs. \<forall>(s, _) \<in> set rs'. e < s)"
  unfolding ranges_ok_def sorted_wrt_append by (auto simp: case_prod_unfold)

text \<open>Both binary searches split the ranges at the packet number.\<close>

lemma ranges_split:
  assumes "ranges_ok rs"
  obtains pre post where "rs = pre @ post" and "partition_point (\<lambda>(_, e). e < pn) rs = length pre"
    and "\<forall>(s, e) \<in> set pre. e < pn" and "\<forall>(s, e) \<in> set post. pn \<le> e"
proof -
  let ?P = "\<lambda>(_::nat, e). e < pn"
  have "\<not> ?P x" if "x \<in> set (dropWhile ?P rs)" for x
  proof -
    have "dropWhile ?P rs \<noteq> []" using that by (metis empty_iff empty_set)
    then obtain y ys where y: "dropWhile ?P rs = y # ys" by (meson neq_Nil_conv)
    then have "\<not> ?P y" by (metis hd_dropWhile list.distinct(1) list.sel(1))
    moreover have "ranges_ok (y # ys)"
      using assms y by (metis ranges_ok_append takeWhile_dropWhile_id)
    ultimately show ?thesis using that y by (cases y) (fastforce simp: ranges_ok_def)
  qed
  then have post: "\<forall>(s, e) \<in> set (dropWhile ?P rs). pn \<le> e" by (simp add: case_prod_unfold not_less)
  have pre: "\<forall>(s, e) \<in> set (takeWhile ?P rs). e < pn" using set_takeWhileD [of _ ?P rs] by blast
  show ?thesis
    by (rule that [OF _ _ pre post]) (simp_all add: partition_point_def)
qed

lemma contains_iff:
  assumes "ranges_ok (rr_ranges r)"
  shows "ranges_contains r pn \<longleftrightarrow> pn \<in> pn_set (rr_ranges r)"
proof -
  obtain pre post where s: "rr_ranges r = pre @ post"
    "partition_point (\<lambda>(_, e). e < Suc pn) (rr_ranges r) = length pre"
    "\<forall>(s, e) \<in> set pre. e < Suc pn" "\<forall>(s, e) \<in> set post. Suc pn \<le> e"
    using ranges_split [OF assms, of "Suc pn"] by blast
  have ok: "ranges_ok post" using assms s(1) by (simp add: ranges_ok_append)
  have "pn \<notin> pn_set pre" using s(3) by (auto simp: pn_set_def)
  moreover have "(case post of [] \<Rightarrow> False | (s, e) # _ \<Rightarrow> s \<le> pn \<and> pn < e) \<longleftrightarrow> pn \<in> pn_set post"
    using ok s(4) by (cases post) (auto simp: pn_set_def, fastforce)
  ultimately show ?thesis
    using s(1,2) by (cases post) (auto simp: ranges_contains_def vec_get_def less_Suc_eq_le nth_append)
qed

lemma range_containing_Some:
  assumes "ranges_ok (rr_ranges r)" and "range_containing r pn = Some i"
  shows "i < length (rr_ranges r) \<and> fst (rr_ranges r ! i) \<le> pn \<and> pn < snd (rr_ranges r ! i)"
  using assms(2) by (auto simp: range_containing_def Let_def rust_std split: option.splits prod.splits if_splits)

lemma range_containing_None:
  "range_containing r pn = None \<longleftrightarrow> \<not> ranges_contains r pn"
  by (auto simp: range_containing_def ranges_contains_def Let_def split: option.splits)

lemma insert_pn_spec:
  assumes "ranges_ok rs" and "pn \<notin> pn_set rs"
  shows "ranges_ok (insert_pn pn rs) \<and> pn_set (insert_pn pn rs) = insert pn (pn_set rs) \<and>
    length (insert_pn pn rs) \<le> length rs + 1"
proof -
  obtain pre post where s: "rs = pre @ post"
    "partition_point (\<lambda>(_, e). e < pn) rs = length pre"
    "\<forall>(s, e) \<in> set pre. e < pn" "\<forall>(s, e) \<in> set post. pn \<le> e"
    using ranges_split [OF assms(1), of pn] by blast
  have ok: "ranges_ok pre" "ranges_ok post" "\<forall>(_, e) \<in> set pre. \<forall>(s, _) \<in> set post. e < s"
    using assms(1) s(1) by (auto simp: ranges_ok_append)
  show ?thesis
  proof (cases post)
    case Nil
    then have "insert_pn pn rs = pre @ [(pn, pn + 1)]"
      using s(1,2) by (simp add: insert_pn_def vec_insert_def)
    then show ?thesis using ok s Nil by (auto simp: ranges_ok_append)
  next
    case (Cons q post')
    obtain a b where q: "q = (a, b)" by force
    have ab: "a < b" "pn \<le> b" "\<forall>(s, e) \<in> set post'. b < s" using ok(2) s(4) Cons q by auto
    show ?thesis
    proof (cases "b = pn")
      case True
      show ?thesis
      proof (cases post')
        case Nil
        then have "insert_pn pn rs = pre @ [(a, pn + 1)]"
          using s(1,2) Cons q True by (simp add: insert_pn_def nth_append)
        then show ?thesis using ok s Cons q True Nil ab by (auto simp: ranges_ok_append)
      next
        case (Cons q2 post2)
        obtain c d where q2: "q2 = (c, d)" by force
        have i: "insert_pn pn rs =
          pre @ (if c \<le> pn + 1 then (a, max (pn + 1) d) # post2 else (a, pn + 1) # (c, d) # post2)"
          using s(1,2) \<open>post = q # post'\<close> q True Cons q2
          by (simp add: insert_pn_def nth_append vec_remove_def)
        have cd: "pn < c" "c < d" using ok(2) \<open>post = q # post'\<close> q True Cons q2 by auto
        show ?thesis
          using ok s \<open>post = q # post'\<close> q True Cons q2 ab cd i
          by (auto simp: ranges_ok_append max_def)
      qed
    next
      case False
      have "pn < a" using assms(2) s Cons q ab False by (auto simp: pn_set_def)
      then have i: "insert_pn pn rs = pre @ (if a = pn + 1 then (pn, b) # post' else (pn, pn + 1) # (a, b) # post')"
        using s(1,2) Cons q False by (auto simp: insert_pn_def nth_append vec_insert_def)
      show ?thesis
        using ok s Cons q ab False \<open>pn < a\<close> i by (auto simp: ranges_ok_append)
    qed
  qed
qed

lemma vec_remove_0 [simp]: "vec_remove 0 xs = tl xs"
  by (simp add: vec_remove_def drop_Suc)

section \<open>The journal and the history\<close>

text \<open>
  \<open>H\<close> is the set of the packet numbers that were ever recorded: each is in a range or below the
  retirement bound, and the ranges hold nothing else.
\<close>

definition journal_ok :: "nat set \<Rightarrow> rcvd_journal \<Rightarrow> bool" where
  "journal_ok H j \<longleftrightarrow>
     ranges_ok (rr_ranges (rj_packets j)) \<and>
     length (rr_ranges (rj_packets j)) \<le> MAX_TRACKED_ACK_RANGES \<and>
     (\<forall>pn \<in> pn_set (rr_ranges (rj_packets j)). rr_retired_before (rj_packets j) \<le> pn \<and> pn \<in> H) \<and>
     (\<forall>pn \<in> H. pn < rr_retired_before (rj_packets j) \<or> pn \<in> pn_set (rr_ranges (rj_packets j)))"

lemma empty_journal_ok: "journal_ok {} empty_journal"
  by (simp add: journal_ok_def empty_journal_def)

lemma decode_pn_Inr:
  assumes "journal_ok H j" and "decode_pn j p = Inr pn"
  shows "pn \<le> VARINT_MAX \<and> rr_retired_before (rj_packets j) \<le> pn \<and> pn \<notin> H"
  using assms contains_iff [of "rj_packets j"]
  by (fastforce simp: decode_pn_def journal_ok_def Let_def split: if_splits)

lemma on_authenticated_ok: "journal_ok H (on_authenticated pn j) = journal_ok H j"
  by (simp add: journal_ok_def on_authenticated_def)

lemma ranges_insert_fields:
  assumes "\<not> pn < rr_retired_before r" and "\<not> ranges_contains r pn"
  shows "rr_ranges (snd (ranges_insert pn t r)) =
      (if MAX_TRACKED_ACK_RANGES < length (insert_pn pn (rr_ranges r)) then tl (insert_pn pn (rr_ranges r))
       else insert_pn pn (rr_ranges r))"
    and "rr_retired_before (snd (ranges_insert pn t r)) =
      (if MAX_TRACKED_ACK_RANGES < length (insert_pn pn (rr_ranges r))
       then max (rr_retired_before r) (snd (hd (insert_pn pn (rr_ranges r)))) else rr_retired_before r)"
  using assms
  by (cases "insert_pn pn (rr_ranges r)"; simp add: ranges_insert_def Let_def split: option.splits prod.splits)+

lemma on_rcvd_pn_ok:
  assumes "journal_ok H j"
  shows "journal_ok (insert pn H) (on_rcvd_pn now pn j)"
proof -
  let ?r = "rj_packets j" and ?rs = "rr_ranges (rj_packets j)"
  have ok: "ranges_ok ?rs" using assms by (simp add: journal_ok_def)
  have f: "rj_packets (on_rcvd_pn now pn j) = snd (ranges_insert pn now ?r)"
    by (simp add: on_rcvd_pn_def on_authenticated_def)
  show ?thesis
  proof (cases "pn < rr_retired_before ?r \<or> ranges_contains ?r pn")
    case True
    then have "snd (ranges_insert pn now ?r) = ?r" by (simp add: ranges_insert_def)
    with assms True f contains_iff [OF ok] show ?thesis by (auto simp: journal_ok_def)
  next
    case False
    let ?ins = "insert_pn pn ?rs"
    have new: "pn \<notin> pn_set ?rs" using False contains_iff [OF ok] by simp
    note i = insert_pn_spec [OF ok new]
    note g = ranges_insert_fields [of pn ?r now]
    show ?thesis
    proof (cases "MAX_TRACKED_ACK_RANGES < length ?ins")
      case True
      obtain s e rest where c: "?ins = (s, e) # rest" using True by (cases ?ins) auto
      have gt: "e < q" if "q \<in> pn_set rest" for q
        using that i c by (fastforce simp: pn_set_def)
      have un: "{s..<e} \<union> pn_set rest = insert pn (pn_set ?rs)" using i c by simp
      have se: "s < e" "ranges_ok rest" "length rest \<le> MAX_TRACKED_ACK_RANGES"
        using i c assms by (auto simp: journal_ok_def)
      have "s \<in> insert pn (pn_set ?rs)" using un se(1) by (metis UnI1 atLeastLessThan_iff order_refl)
      then have "rr_retired_before ?r \<le> s" using False assms by (auto simp: journal_ok_def)
      with se(1) have re: "rr_ranges (snd (ranges_insert pn now ?r)) = rest"
        "rr_retired_before (snd (ranges_insert pn now ?r)) = e"
        using g False True c by auto
      have "e \<le> q \<and> q \<in> insert pn H" if "q \<in> pn_set rest" for q
        using that gt [OF that] un assms by (auto simp: journal_ok_def)
      moreover have "q < e \<or> q \<in> pn_set rest" if "q \<in> insert pn H" for q
      proof -
        have "q < rr_retired_before ?r \<or> q \<in> {s..<e} \<union> pn_set rest"
          unfolding un using that assms by (auto simp: journal_ok_def)
        then show ?thesis using \<open>rr_retired_before ?r \<le> s\<close> se(1) by auto
      qed
      ultimately show ?thesis using re se f by (auto simp: journal_ok_def)
    next
      case F: False
      then show ?thesis using g False i f assms by (auto simp: journal_ok_def)
    qed
  qed
qed

text \<open>A packet is received when its number is decoded, accepted and, once authenticated, recorded.\<close>

inductive journal_run :: "nat set \<Rightarrow> rcvd_journal \<Rightarrow> bool" where
  Start: "journal_run {} empty_journal"
| Authenticated: "journal_run H j \<Longrightarrow> journal_run H (on_authenticated pn j)"
| Received: "journal_run H j \<Longrightarrow> journal_run (insert pn H) (on_rcvd_pn now pn j)"

lemma journal_run_ok: "journal_run H j \<Longrightarrow> journal_ok H j"
  by (induction rule: journal_run.induct) (simp_all add: empty_journal_ok on_authenticated_ok on_rcvd_pn_ok)

section \<open>Acknowledgements name received packets\<close>

definition incl :: "nat \<times> nat \<Rightarrow> nat \<times> nat" where
  "incl = (\<lambda>(s, e). (s, e - 1))"

lemma range_count_size:
  assumes "count + 1 < 2 ^ 30"
  shows "\<exists>a. varint_size count = Some a \<and> varint_size (count + 1) = Some (a + range_count_size_increment count)"
  using assms by (auto simp: varint_size_def range_count_size_increment_def)

abbreviation range_sizes :: "(nat \<times> nat) list \<Rightarrow> nat option" where
  "range_sizes ranges \<equiv> sum_sizes (map (\<lambda>(gap, ack). sum_sizes [varint_size gap, varint_size ack]) ranges)"

lemma ack_ranges_of_spec:
  assumes "ranges_ok (rev prevs)" and "\<forall>(s, e) \<in> set prevs. e < start" and "start < 2 ^ 62"
    and "count + length prevs < 2 ^ 30"
  shows "\<exists>ranges c d sz. ack_ranges_of capacity start count prevs = Inr ranges \<and>
    scan_ranges start ranges = Some (map incl (take (length ranges) prevs)) \<and> length ranges \<le> length prevs \<and>
    (\<forall>(gap, ack) \<in> set ranges. gap < 2 ^ 62 \<and> ack < 2 ^ 62) \<and>
    varint_size count = Some c \<and> varint_size (count + length ranges) = Some d \<and>
    range_sizes ranges = Some sz \<and> d + sz \<le> c + capacity \<and>
    (20 * length prevs \<le> capacity \<longrightarrow> length ranges = length prevs)"
  using assms
proof (induction prevs arbitrary: capacity start count)
  case Nil
  then show ?case by (auto simp: varint_size_def)
next
  case (Cons p prevs)
  obtain s e where p: "p = (s, e)" by force
  have se: "s < e" "e < start" "\<forall>(s', e') \<in> set prevs. e' < s" "ranges_ok (rev prevs)"
    using Cons.prems p by (auto simp: ranges_ok_append)
  define gap ack where ga: "gap = start - (e + 1)" "ack = e - s - 1"
  have lt: "gap < 2 ^ 62" "ack < 2 ^ 62" "s < 2 ^ 62" using se Cons.prems(3) by (auto simp: ga)
  define g a where g: "g = length (varint_image gap)" "a = length (varint_image ack)"
  have vs: "varint_size gap = Some g" "varint_size ack = Some a" "g \<le> 8" "a \<le> 8"
    using lt varint_size_image varint_image_length(2) by (auto simp: g)
  let ?inc = "range_count_size_increment count"
  have inc: "?inc \<le> 4" by (simp add: range_count_size_increment_def)
  obtain c where c: "varint_size count = Some c" "varint_size (count + 1) = Some (c + ?inc)"
    using range_count_size [of count] Cons.prems(4) by auto
  obtain ranges c' d sz where ih: "ack_ranges_of (capacity - (?inc + g + a)) s (count + 1) prevs = Inr ranges"
    "scan_ranges s ranges = Some (map incl (take (length ranges) prevs))" "length ranges \<le> length prevs"
    "\<forall>(gap, ack) \<in> set ranges. gap < 2 ^ 62 \<and> ack < 2 ^ 62"
    "varint_size (count + 1) = Some c'" "varint_size (count + 1 + length ranges) = Some d"
    "range_sizes ranges = Some sz" "d + sz \<le> c' + (capacity - (?inc + g + a))"
    "20 * length prevs \<le> capacity - (?inc + g + a) \<Longrightarrow> length ranges = length prevs"
    using Cons.IH [of s "count + 1" "capacity - (?inc + g + a)"] se lt(3) Cons.prems(4) by auto
  have sub: "checked_sub start (e + 1) = Some gap" "checked_sub start (gap + 2) = Some (e - 1)"
    "checked_sub (e - 1) ack = Some s"
    using se by (auto simp: checked_sub_def ga)
  show ?case
  proof (cases "capacity < ?inc + g + a")
    case True
    then have "ack_ranges_of capacity start count (p # prevs) = Inr []"
      using vs sub(1) by (simp add: p ga(2))
    moreover have "\<not> 20 * length (p # prevs) \<le> capacity" using True vs inc by simp
    ultimately show ?thesis using c by auto
  next
    case False
    then have "ack_ranges_of capacity start count (p # prevs) = Inr ((gap, ack) # ranges)"
      using vs sub(1) ih(1) by (simp add: p ga(2))
    moreover have "scan_ranges start ((gap, ack) # ranges) = Some (map incl (take (length ((gap, ack) # ranges)) (p # prevs)))"
      using ih(2) sub(2,3) by (simp add: p incl_def del: One_nat_def)
    moreover have "range_sizes ((gap, ack) # ranges) = Some (g + a + sz)" using vs ih(7) by simp
    moreover have "varint_size (count + length ((gap, ack) # ranges)) = Some d" using ih(6) by simp
    moreover have "d + (g + a + sz) \<le> c + capacity" using ih(5,8) c False by simp
    moreover have "length ((gap, ack) # ranges) = length (p # prevs)" if "20 * length (p # prevs) \<le> capacity"
      using that ih(9) vs inc by simp
    moreover have "\<forall>(gap, ack) \<in> set ((gap, ack) # ranges). gap < 2 ^ 62 \<and> ack < 2 ^ 62" using ih(4) lt by simp
    moreover have "length ((gap, ack) # ranges) \<le> length (p # prevs)" using ih(3) by simp
    ultimately show ?thesis using c(1) by blast
  qed
qed

text \<open>What an acknowledgement names, as a set.\<close>

definition named :: "(nat \<times> nat) list \<Rightarrow> nat set" where
  "named rs = (\<Union>(l, r) \<in> set rs. {l..r})"

lemma named_incl:
  assumes "ranges_ok rs"
  shows "named (map incl rs) = pn_set rs"
proof -
  have "{s..e - 1} = {s..<e}" if "(s, e) \<in> set rs" for s e
    using that assms by (fastforce simp: ranges_ok_def)
  then show ?thesis by (force simp: named_def pn_set_def incl_def)
qed

lemma named_Cons [simp]: "named ((l, r) # rs) = {l..r} \<union> named rs"
  by (auto simp: named_def)

lemma named_mono: "set rs \<subseteq> set rs' \<Longrightarrow> named rs \<subseteq> named rs'"
  by (auto simp: named_def)

lemma varint_size_mono:
  assumes "x \<le> y" and "varint_size y = Some b"
  shows "\<exists>a. varint_size x = Some a \<and> a \<le> b"
  using assms by (auto simp: varint_size_def split: if_splits)

lemma scale_delay_fields [simp]:
  "ack_largest (scale_delay k f) = ack_largest f" "ack_first_range (scale_delay k f) = ack_first_range f"
  "ack_ranges (scale_delay k f) = ack_ranges f" "ack_ecn (scale_delay k f) = ack_ecn f"
  "ack_delay (scale_delay k f) = ack_delay f div 2 ^ k" "iter_ranges (scale_delay k f) = iter_ranges f"
  by (simp_all add: scale_delay_def iter_ranges_def split: option.split)

lemma nth_pn_set:
  assumes "i < length rs" and "rs ! i = (a, b)" and "ranges_ok rs"
  shows "{pn \<in> pn_set rs. pn < b} = {a..<b} \<union> pn_set (take i rs)"
    and "ranges_ok (take i rs)" and "\<forall>(s, e) \<in> set (take i rs). e < a"
proof -
  have s: "rs = take i rs @ (a, b) # drop (Suc i) rs"
    using id_take_nth_drop [OF assms(1)] assms(2) by simp
  then have ok: "ranges_ok (take i rs @ (a, b) # drop (Suc i) rs)" using assms(3) by simp
  have "\<not> pn < b" if "pn \<in> pn_set (drop (Suc i) rs)" for pn
    using that ok by (fastforce simp: ranges_ok_append pn_set_def)
  moreover have "pn < b" if "pn \<in> pn_set (take i rs)" for pn
    using that ok by (fastforce simp: ranges_ok_append pn_set_def)
  moreover have "pn_set rs = {a..<b} \<union> pn_set (take i rs) \<union> pn_set (drop (Suc i) rs)"
    using arg_cong [OF s, of pn_set] by auto
  ultimately show "{pn \<in> pn_set rs. pn < b} = {a..<b} \<union> pn_set (take i rs)" by auto
  show "ranges_ok (take i rs)" "\<forall>(s, e) \<in> set (take i rs). e < a"
    using ok by (auto simp: ranges_ok_append)
qed

text \<open>The frame built from a first range and the ranges before it.\<close>

lemma gen_ack_of_ranges:
  assumes "ranges_ok prevs" and "\<forall>(s, e) \<in> set prevs. e < start" and "start \<le> largest" and "largest < 2 ^ 62"
    and "length prevs \<le> 256" and "delay < 2 ^ 62"
    and "min_len = 1 + length (varint_image largest) + length (varint_image delay) + 1
      + length (varint_image (largest - start))" and "min_len \<le> capacity"
  shows "\<exists>ranges. ack_ranges_of (capacity - min_len) start 0 (rev prevs) = Inr ranges \<and>
    (let f = \<lparr>ack_largest = largest, ack_delay = delay, ack_first_range = largest - start,
          ack_ranges = ranges, ack_ecn = None\<rparr>
     in ack_wf f \<and> (\<exists>sz. ack_size f = Some sz \<and> sz \<le> capacity) \<and>
        (\<exists>n. iter_ranges f = Some ((start, largest) # map incl (take n (rev prevs))) \<and>
          (26 + 20 * 256 \<le> capacity \<longrightarrow> n = length prevs)))"
proof -
  obtain ranges c d sz where r: "ack_ranges_of (capacity - min_len) start 0 (rev prevs) = Inr ranges"
    "scan_ranges start ranges = Some (map incl (take (length ranges) (rev prevs)))" "length ranges \<le> length prevs"
    "\<forall>(gap, ack) \<in> set ranges. gap < 2 ^ 62 \<and> ack < 2 ^ 62" "varint_size 0 = Some c"
    "varint_size (length ranges) = Some d" "range_sizes ranges = Some sz" "d + sz \<le> c + (capacity - min_len)"
    "20 * length prevs \<le> capacity - min_len \<Longrightarrow> length ranges = length prevs"
    using ack_ranges_of_spec [of "rev prevs" start 0 "capacity - min_len"] assms(1-5) by auto
  have c: "c = 1" using r(5) by (simp add: varint_size_def)
  have m: "min_len \<le> 26" using assms(7) varint_image_length(2) [of largest] varint_image_length(2) [of delay]
    varint_image_length(2) [of "largest - start"] by simp
  have v: "varint_size largest = Some (length (varint_image largest))" "varint_size delay = Some (length (varint_image delay))"
    "varint_size (largest - start) = Some (length (varint_image (largest - start)))"
    using assms(4,6) by (auto intro!: varint_size_image)
  let ?f = "\<lparr>ack_largest = largest, ack_delay = delay, ack_first_range = largest - start,
    ack_ranges = ranges, ack_ecn = None\<rparr>"
  have "ack_wf ?f" using assms(4,5,6) r(3,4) by (simp add: ack_wf_def)
  moreover have "ack_size ?f = Some (min_len - 1 + d + sz)"
    using v r(6,7) assms(7) by (simp add: ack_size_def)
  moreover have "min_len - 1 + d + sz \<le> capacity" using r(8) c assms(7,8) by linarith
  moreover have "checked_sub largest (largest - start) = Some start" using assms(3) by (simp add: checked_sub_def)
  then have "iter_ranges ?f = Some ((start, largest) # map incl (take (length ranges) (rev prevs)))"
    using r(2) by (simp add: iter_ranges_def)
  moreover have "26 + 20 * 256 \<le> capacity \<longrightarrow> length ranges = length prevs" using r(9) m assms(5) by linarith
  ultimately show ?thesis using r(1) unfolding Let_def by blast
qed

lemma gen_ack_spec:
  assumes ok: "journal_ok H j" and H: "\<forall>pn \<in> H. pn \<le> VARINT_MAX" and l: "largest \<in> H"
  shows "(gen_ack_frame_util now largest t capacity j = Inl (Ready ()) \<and> capacity < 26) \<or>
    (\<exists>f rs. gen_ack_frame_util now largest t capacity j = Inr f \<and> ack_wf f \<and> ack_largest f = largest \<and>
      (\<exists>sz. ack_size f = Some sz \<and> sz \<le> capacity) \<and>
      iter_ranges f = Some rs \<and> named rs \<subseteq> H \<and> largest \<in> named rs \<and>
      (26 + 20 * 256 \<le> capacity \<longrightarrow>
        {pn \<in> H. rr_retired_before (rj_packets j) \<le> pn \<and> pn \<le> largest} \<subseteq> named rs))"
proof -
  let ?r = "rj_packets j" and ?rs = "rr_ranges (rj_packets j)"
  have rok: "ranges_ok ?rs" and len: "length ?rs \<le> 256"
    and inH: "\<forall>pn \<in> pn_set ?rs. rr_retired_before ?r \<le> pn \<and> pn \<in> H"
    and cov: "\<forall>pn \<in> H. pn < rr_retired_before ?r \<or> pn \<in> pn_set ?rs"
    using ok by (auto simp: journal_ok_def MAX_TRACKED_ACK_RANGES_def)
  have l62: "largest < 2 ^ 62" using H l by (auto simp: VARINT_MAX_def)
  obtain start prevs where sp:
    "(case range_containing ?r largest of Some i \<Rightarrow> Inr (fst (?rs ! i), take i ?rs)
      | None \<Rightarrow> if largest < rr_retired_before ?r then Inr (largest, []) else Inl (poll.Pending :: unit poll)) = Inr (start, prevs)"
    "ranges_ok prevs" "\<forall>(s, e) \<in> set prevs. e < start" "start \<le> largest" "length prevs \<le> 256"
    "{start..largest} \<union> pn_set prevs \<subseteq> H"
    "{pn \<in> H. rr_retired_before ?r \<le> pn \<and> pn \<le> largest} \<subseteq> {start..largest} \<union> pn_set prevs"
  proof (cases "range_containing ?r largest")
    case None
    then have "largest < rr_retired_before ?r"
      using l cov contains_iff [OF rok] by (auto simp: range_containing_None)
    then show ?thesis using None l by (intro that [of largest "[]"]) auto
  next
    case (Some i)
    obtain a b where ab: "?rs ! i = (a, b)" by force
    have i: "i < length ?rs" "a \<le> largest" "largest < b"
      using range_containing_Some [OF rok Some] ab by auto
    note n = nth_pn_set [OF i(1) ab rok]
    have sub: "{a..<b} \<union> pn_set (take i ?rs) \<subseteq> H" unfolding n(1) [symmetric] using inH by auto
    have "pn \<in> {a..largest} \<union> pn_set (take i ?rs)"
      if "pn \<in> H" "rr_retired_before ?r \<le> pn" "pn \<le> largest" for pn
    proof -
      have "pn \<in> {pn \<in> pn_set ?rs. pn < b}" using that cov i by auto
      then show ?thesis unfolding n(1) using that by auto
    qed
    then have "{pn \<in> H. rr_retired_before ?r \<le> pn \<and> pn \<le> largest} \<subseteq> {a..largest} \<union> pn_set (take i ?rs)"
      by blast
    moreover have "{a..largest} \<union> pn_set (take i ?rs) \<subseteq> H" using sub i by auto
    ultimately show ?thesis using Some ab i n(2,3) len by (intro that [of a "take i ?rs"]) auto
  qed
  define delay where "delay = min (now - t) VARINT_MAX"
  have d: "delay < 2 ^ 62" by (simp add: delay_def VARINT_MAX_def)
  define min_len where "min_len = 1 + length (varint_image largest) + length (varint_image delay) + 1
      + length (varint_image (largest - start))"
  have m: "min_len \<le> 26" using varint_image_length(2) [of largest] varint_image_length(2) [of delay]
    varint_image_length(2) [of "largest - start"] by (simp add: min_len_def)
  have v: "varint_size largest = Some (length (varint_image largest))" "varint_size delay = Some (length (varint_image delay))"
    "varint_size (largest - start) = Some (length (varint_image (largest - start)))"
    using l62 d by (auto intro!: varint_size_image)
  have g: "gen_ack_frame_util now largest t capacity j =
    (if capacity < min_len then Inl (Ready ())
     else map_ok (\<lambda>ranges. \<lparr>ack_largest = largest, ack_delay = delay, ack_first_range = largest - start,
            ack_ranges = ranges, ack_ecn = None\<rparr>) (ack_ranges_of (capacity - min_len) start 0 (rev prevs)))"
    unfolding gen_ack_frame_util_def sp(1) delay_def [symmetric] by (simp add: v Let_def min_len_def)
  show ?thesis
  proof (cases "capacity < min_len")
    case True
    then show ?thesis using g m by simp
  next
    case False
    let ?f = "\<lambda>ranges. \<lparr>ack_largest = largest, ack_delay = delay, ack_first_range = largest - start,
      ack_ranges = ranges, ack_ecn = None\<rparr>"
    obtain ranges n where r: "ack_ranges_of (capacity - min_len) start 0 (rev prevs) = Inr ranges"
      "ack_wf (?f ranges)" "\<exists>sz. ack_size (?f ranges) = Some sz \<and> sz \<le> capacity"
      "iter_ranges (?f ranges) = Some ((start, largest) # map incl (take n (rev prevs)))"
      "26 + 20 * 256 \<le> capacity \<longrightarrow> n = length prevs"
      using gen_ack_of_ranges [OF sp(2,3,4) l62 sp(5) d min_len_def, of capacity] False
      by (auto simp: Let_def)
    have "named (map incl (take n (rev prevs))) \<subseteq> named (map incl prevs)"
      by (intro named_mono) (auto dest: in_set_takeD)
    then have sub: "named (map incl (take n (rev prevs))) \<subseteq> pn_set prevs" using named_incl [OF sp(2)] by simp
    have full: "pn_set prevs \<subseteq> named (map incl (take n (rev prevs)))" if "26 + 20 * 256 \<le> capacity"
      using that r(5) named_incl [OF sp(2)] by (simp add: named_def)
    have "named ((start, largest) # map incl (take n (rev prevs))) \<subseteq> H" using sub sp(6) by auto
    moreover have "largest \<in> named ((start, largest) # map incl (take n (rev prevs)))" using sp(4) by simp
    moreover have "{pn \<in> H. rr_retired_before ?r \<le> pn \<and> pn \<le> largest}
        \<subseteq> named ((start, largest) # map incl (take n (rev prevs)))" if "26 + 20 * 256 \<le> capacity"
      using full [OF that] sp(7) by auto
    moreover have "gen_ack_frame_util now largest t capacity j = Inr (?f ranges)" using g False r(1) by simp
    ultimately show ?thesis using r(2,3,4) by (intro disjI2 exI [of _ "?f ranges"]) (auto simp del: named_Cons)
  qed
qed

section \<open>The received numbers as a set\<close>

text \<open>
  What the rest of the endpoint relies on is a set that only grows: membership, insertion, and a
  bound below which nothing is accepted. The duplicate check follows from these laws alone.
\<close>

locale replay_guard =
  fixes accepts :: "'j \<Rightarrow> nat \<Rightarrow> bool" and record_pn :: "nat \<Rightarrow> 'j \<Rightarrow> 'j"
    and inv :: "'j \<Rightarrow> bool"
  assumes record_inv: "inv j \<Longrightarrow> inv (record_pn pn j)"
    and record_rejects: "inv j \<Longrightarrow> \<not> accepts (record_pn pn j) pn"
    and record_keeps: "inv j \<Longrightarrow> \<not> accepts j pn \<Longrightarrow> \<not> accepts (record_pn pn' j) pn"
begin

lemma records_inv: "inv j \<Longrightarrow> inv (fold record_pn pns j)"
  by (induction pns arbitrary: j) (simp_all add: record_inv)

lemma records_keep: "inv j \<Longrightarrow> \<not> accepts j pn \<Longrightarrow> \<not> accepts (fold record_pn pns j) pn"
  by (induction pns arbitrary: j) (simp_all add: record_inv record_keeps)

lemma never_twice: "inv j \<Longrightarrow> pn \<in> set pns \<Longrightarrow> \<not> accepts (fold record_pn pns j) pn"
  by (induction pns arbitrary: j) (auto simp: record_inv record_rejects records_keep)

end

definition admits :: "rcvd_journal \<Rightarrow> nat \<Rightarrow> bool" where
  "admits j pn \<longleftrightarrow> \<not> pn < rr_retired_before (rj_packets j) \<and> \<not> ranges_contains (rj_packets j) pn"

lemma admits_iff:
  assumes "journal_ok H j"
  shows "admits j pn \<longleftrightarrow> rr_retired_before (rj_packets j) \<le> pn \<and> pn \<notin> H"
  using assms contains_iff [of "rj_packets j" pn] by (fastforce simp: admits_def journal_ok_def)

lemma retired_mono: "rr_retired_before (rj_packets j) \<le> rr_retired_before (rj_packets (on_rcvd_pn now pn j))"
  by (auto simp: on_rcvd_pn_def on_authenticated_def ranges_insert_def Let_def split: option.splits)

interpretation rj: replay_guard admits "on_rcvd_pn now" "\<lambda>j. \<exists>H. journal_ok H j" for now
proof unfold_locales
  show "\<exists>H. journal_ok H (on_rcvd_pn now pn j)" if "\<exists>H. journal_ok H j" for j pn
    using that on_rcvd_pn_ok by blast
  show "\<not> admits (on_rcvd_pn now pn j) pn" if "\<exists>H. journal_ok H j" for j pn
    using that on_rcvd_pn_ok admits_iff by blast
  show "\<not> admits (on_rcvd_pn now pn' j) pn" if "\<exists>H. journal_ok H j" "\<not> admits j pn" for j pn pn'
  proof -
    from that(1) obtain H where H: "journal_ok H j" ..
    show ?thesis
      using that(2) retired_mono [of j now pn'] unfolding admits_iff [OF H] admits_iff [OF on_rcvd_pn_ok [OF H]]
      by auto
  qed
qed

lemma decode_pn_admits: "decode_pn j p = Inr pn \<longleftrightarrow>
    pn = unat (decode p (word_of_nat (case rj_largest_authenticated j of None \<Rightarrow> 0 | Some largest \<Rightarrow> largest + 1))) \<and>
    pn \<le> VARINT_MAX \<and> admits j pn"
  by (auto simp: decode_pn_def Let_def admits_def)

lemma interval_in_range:
  assumes ok: "ranges_ok rs" and le: "start \<le> hi" and sub: "{start..hi} \<subseteq> pn_set rs"
  shows "\<exists>(s, e) \<in> set rs. s \<le> start \<and> hi < e"
proof -
  have "start \<in> pn_set rs" by (rule subsetD [OF sub]) (simp add: le)
  then obtain s e where se: "(s, e) \<in> set rs" "s \<le> start" "start < e" by (auto simp: pn_set_def)
  have "hi < e"
  proof (rule ccontr)
    assume "\<not> hi < e"
    then have "e \<in> pn_set rs" using se by (intro subsetD [OF sub]) simp
    then obtain s' e' where se': "(s', e') \<in> set rs" "s' \<le> e" "e < e'" by (auto simp: pn_set_def)
    obtain i k where ik: "i < length rs" "rs ! i = (s, e)" "k < length rs" "rs ! k = (s', e')"
      using se(1) se'(1) by (metis in_set_conv_nth)
    have w: "sorted_wrt (\<lambda>(_, e) (s, _). e < s) rs" "s < e" using ok se(1) by (auto simp: ranges_ok_def)
    consider "i < k" | "i = k" | "k < i" by linarith
    then show False
      using sorted_wrt_nth_less [OF w(1), of i k] sorted_wrt_nth_less [OF w(1), of k i] ik se' w(2)
      by cases auto
  qed
  then show ?thesis using se by blast
qed

lemma covers_range_iff:
  assumes "ranges_ok (rr_ranges (rj_packets j))"
  shows "covers_range j lo hi \<longleftrightarrow>
    {max lo (rr_retired_before (rj_packets j))..hi} \<subseteq> pn_set (rr_ranges (rj_packets j))"
proof -
  define start where "start = max lo (rr_retired_before (rj_packets j))"
  let ?rs = "rr_ranges (rj_packets j)"
  have "{start..hi} \<subseteq> pn_set ?rs" if "(s, e) \<in> set ?rs" "s \<le> start" "hi < e" for s e
  proof -
    have "{start..hi} \<subseteq> {s..<e}" using that by auto
    also have "\<dots> \<subseteq> pn_set ?rs" using that(1) by (auto simp: pn_set_def)
    finally show ?thesis .
  qed
  then have "hi < start \<or> (\<exists>(s, e) \<in> set ?rs. s \<le> start \<and> hi < e) \<longleftrightarrow> {start..hi} \<subseteq> pn_set ?rs"
    using interval_in_range [OF assms, of start hi] by (cases "hi < start") auto
  then show ?thesis by (simp add: covers_range_def start_def)
qed

section \<open>Examples\<close>

definition sample_journal :: rcvd_journal where
  "sample_journal = on_rcvd_pn 30 9 (on_rcvd_pn 20 6 (on_rcvd_pn 10 5 empty_journal))"

lemma sample_journal_run: "journal_run {9, 6, 5} sample_journal"
  unfolding sample_journal_def by (intro journal_run.intros)

lemma sample_journal_fields:
  "rj_largest_authenticated sample_journal = Some 9" "rr_retired_before (rj_packets sample_journal) = 0"
  by (simp_all add: sample_journal_def on_rcvd_pn_def on_authenticated_def empty_journal_def ranges_insert_def
      ranges_contains_def insert_pn_def partition_point_def vec_get_def vec_insert_def vec_remove_def
      MAX_TRACKED_ACK_RANGES_def Let_def)

section \<open>Properties\<close>

text \<open>
  C10. The bounded journal refines the history \<open>H\<close> of all packet numbers ever recorded: it holds at most
  256 ranges, and a decoded packet number is accepted exactly when it is in the legal range, not
  below the retirement bound and not in the history; the error names the first test that failed.
\<close>

theorem journal_refines_history:
  assumes "journal_run H j"
    and "pn = unat (decode p (word_of_nat (case rj_largest_authenticated j of None \<Rightarrow> 0 | Some l \<Rightarrow> l + 1)))"
  shows "length (rr_ranges (rj_packets j)) \<le> 256 \<and>
    decode_pn j p =
      (if VARINT_MAX < pn then Inl PnTooLarge
       else if pn < rr_retired_before (rj_packets j) then Inl PnTooOld
       else if pn \<in> H then Inl PnDuplicate
       else Inr pn)"
proof -
  have ok: "journal_ok H j" by (rule journal_run_ok [OF assms(1)])
  then have "ranges_contains (rj_packets j) pn \<longleftrightarrow> pn \<in> H" if "\<not> pn < rr_retired_before (rj_packets j)"
    using that admits_iff [OF ok, of pn] by (auto simp: admits_def)
  then show ?thesis
    using ok assms(2) by (simp add: decode_pn_def Let_def journal_ok_def MAX_TRACKED_ACK_RANGES_def)
qed

theorem journal_refines_history_witness:
  "length (rr_ranges (rj_packets sample_journal)) \<le> 256 \<and> decode_pn sample_journal (U16 6) = Inl PnDuplicate"
proof -
  note r = sample_journal_fields(2)
  have "unat (decode (U16 6) (word_of_nat 10)) = 6" by (simp add: decode_def)
  then show ?thesis
    using journal_refines_history [OF sample_journal_run refl, of "U16 6"] sample_journal_fields(1) r by (simp add: VARINT_MAX_def)
qed

text \<open>
  C8. No packet number is accepted a second time: whatever was recorded after it, a packet number
  that has been recorded once is refused, in every state of the journal.
\<close>

theorem packet_never_accepted_twice:
  assumes "journal_run H j" and "pn \<in> set pns"
  shows "decode_pn (fold (on_rcvd_pn now) pns j) p \<noteq> Inr pn"
  using rj.never_twice [of j pn pns now] assms journal_run_ok by (auto simp: decode_pn_admits)

theorem packet_never_accepted_twice_witness:
  "decode_pn (fold (on_rcvd_pn 0) [3, 1, 4, 1] sample_journal) (U8 1) \<noteq> Inr 1"
  by (rule packet_never_accepted_twice [OF sample_journal_run]) simp

text \<open>
  C27. For a packet that was received, any capacity of 26 bytes or more gives an ACK frame, also
  after its delay is scaled: it is well-formed, fits the capacity, its ranges can be walked without
  underflow, they include the packet and name packets of the history only; and with room for
  256 ranges they name every packet up to it that the journal has not retired.
\<close>

theorem ack_names_received:
  assumes "journal_run H j" and "\<forall>pn \<in> H. pn \<le> VARINT_MAX" and "largest \<in> H" and "26 \<le> capacity"
  shows "\<exists>f sz rs. gen_ack_frame_util now largest t capacity j = Inr f \<and>
    frame_wf (Ack (scale_delay k f)) \<and> frame_size (Ack (scale_delay k f)) = Some sz \<and> sz \<le> capacity \<and>
    iter_ranges (scale_delay k f) = Some rs \<and> largest \<in> named rs \<and> named rs \<subseteq> H \<and>
    (26 + 20 * 256 \<le> capacity \<longrightarrow>
      {pn \<in> H. rr_retired_before (rj_packets j) \<le> pn \<and> pn \<le> largest} \<subseteq> named rs)"
proof -
  obtain f sz rs where f: "gen_ack_frame_util now largest t capacity j = Inr f" "ack_wf f"
    "ack_size f = Some sz" "sz \<le> capacity" "iter_ranges f = Some rs" "named rs \<subseteq> H" "largest \<in> named rs"
    "26 + 20 * 256 \<le> capacity \<longrightarrow>
        {pn \<in> H. rr_retired_before (rj_packets j) \<le> pn \<and> pn \<le> largest} \<subseteq> named rs"
    using gen_ack_spec [OF journal_run_ok [OF assms(1)] assms(2,3), of now t capacity] assms(4) by auto
  have le: "ack_delay f div 2 ^ k \<le> ack_delay f" by (rule div_le_dividend)
  have "ack_delay f div 2 ^ k < 2 ^ 62"
    by (rule le_less_trans [OF le]) (use f(2) in \<open>simp add: ack_wf_def\<close>)
  then have wf: "ack_wf (scale_delay k f)" using f(2) by (simp add: ack_wf_def)
  have "\<exists>sz'. ack_size (scale_delay k f) = Some sz' \<and> sz' \<le> sz"
  proof -
    obtain b where b: "varint_size (ack_delay f) = Some b" using f(2) by (auto simp: ack_wf_def varint_size_image)
    obtain a where "varint_size (ack_delay f div 2 ^ k) = Some a" "a \<le> b" using varint_size_mono [OF le b] by auto
    then show ?thesis using f(3) b by (auto simp: ack_size_def sum_sizes_def split: if_splits)
  qed
  then show ?thesis using f wf by fastforce
qed

theorem ack_names_received_witness:
  "\<exists>f sz rs. gen_ack_frame_util 50 9 30 1200 sample_journal = Inr f \<and>
    frame_wf (Ack (scale_delay 3 f)) \<and> frame_size (Ack (scale_delay 3 f)) = Some sz \<and> sz \<le> 1200 \<and>
    iter_ranges (scale_delay 3 f) = Some rs \<and> 9 \<in> named rs \<and> named rs \<subseteq> {9, 6, 5}"
  using ack_names_received [OF sample_journal_run, of 9 1200 50 30 3] by (auto simp: VARINT_MAX_def)

text \<open>
  C28. \<open>covers_range\<close> answers exactly whether every packet of the interval that is not retired was
  received.
\<close>

theorem covers_range_exact:
  assumes "journal_run H j"
  shows "covers_range j lo hi \<longleftrightarrow> {max lo (rr_retired_before (rj_packets j))..hi} \<subseteq> H"
proof -
  have ok: "journal_ok H j" by (rule journal_run_ok [OF assms])
  then have "{max lo (rr_retired_before (rj_packets j))..hi} \<subseteq> pn_set (rr_ranges (rj_packets j)) \<longleftrightarrow>
      {max lo (rr_retired_before (rj_packets j))..hi} \<subseteq> H"
    by (fastforce simp: journal_ok_def)
  then show ?thesis using covers_range_iff ok by (simp add: journal_ok_def)
qed

theorem covers_range_exact_witness:
  "covers_range sample_journal 5 6 \<and> \<not> covers_range sample_journal 5 9"
proof -
  note r = sample_journal_fields(2)
  have "{5..6} \<subseteq> {9, 6, 5 :: nat}" by auto
  moreover have "7 \<in> {5..9 :: nat}" "7 \<notin> {9, 6, 5 :: nat}" by simp_all
  then have "\<not> {5..9} \<subseteq> {9, 6, 5 :: nat}" by blast
  ultimately show ?thesis
    unfolding covers_range_exact [OF sample_journal_run] r by simp
qed

end
