(* ===== verification/Wakers.thy ===== *)
theory Wakers
  imports Prelude
begin

text \<open>
  Task wake-ups, \<open>qbase/src/net/tx.rs\<close> and \<open>qbase/src/util/wakers.rs\<close>. A waker is named by a number;
  \<open>will_wake\<close> is equality of the names. An operation that wakes tasks returns the wakers it wakes.
  A subscription survives a wake-up in an \<open>ArcSendWakers\<close> and is consumed by it in a \<open>WakerGroup\<close>.
\<close>

type_synonym waker = nat
type_synonym wakers = "waker list"

section \<open>Persistent subscriptions: \<open>ArcSendWakers\<close>\<close>

definition register :: "waker \<Rightarrow> wakers \<Rightarrow> wakers" where
  "register w ws = (if \<exists>old \<in> set ws. old = w then ws else ws @ [w])"

definition unregister :: "waker \<Rightarrow> wakers \<Rightarrow> wakers" where
  "unregister w ws = filter (\<lambda>old. old \<noteq> w) ws"

definition drain :: "wakers \<Rightarrow> wakers \<times> wakers" where
  "drain ws = (ws, [])"

definition wake_all :: "wakers \<Rightarrow> waker list" where
  "wake_all ws = ws"

section \<open>Wake-once groups: \<open>WakerGroup\<close>\<close>

definition group_add :: "waker \<Rightarrow> wakers \<Rightarrow> wakers" where
  "group_add w ws = (if \<exists>old \<in> set ws. old = w then ws else ws @ [w])"

definition group_remove :: "waker \<Rightarrow> wakers \<Rightarrow> wakers" where
  "group_remove w ws = filter (\<lambda>old. old \<noteq> w) ws"

definition group_wake_all :: "wakers \<Rightarrow> waker list \<times> wakers" where
  "group_wake_all ws = (ws, [])"

text \<open>\<open>combine_with\<close>: the waker is in the group exactly while the poll is pending.\<close>

definition combine_with :: "waker \<Rightarrow> (wakers \<Rightarrow> 'a poll \<times> wakers) \<Rightarrow> wakers \<Rightarrow> 'a poll \<times> wakers" where
  "combine_with w f ws =
     (let (result, ws) = f (group_add w ws)
      in (result, case result of Ready _ \<Rightarrow> group_remove w ws | Pending \<Rightarrow> ws))"

section \<open>Facts\<close>

lemma set_register [simp]: "set (register w ws) = insert w (set ws)"
  by (auto simp: register_def)

lemma set_unregister [simp]: "set (unregister w ws) = set ws - {w}"
  by (auto simp: unregister_def)

lemma distinct_register: "distinct ws \<Longrightarrow> distinct (register w ws)"
  by (auto simp: register_def)

lemma distinct_unregister: "distinct ws \<Longrightarrow> distinct (unregister w ws)"
  by (simp add: unregister_def)

lemma group_add_register: "group_add = register"
  by (auto simp: group_add_def register_def fun_eq_iff)

lemma group_remove_unregister: "group_remove = unregister"
  by (auto simp: group_remove_def unregister_def fun_eq_iff)

end
