(* ===== verification/Limit.thy ===== *)
theory Limit
  imports Prelude
begin

text \<open>
  The contract that MAX_DATA, MAX_STREAM_DATA and MAX_STREAMS share: one endpoint uses up a
  quantity, the other advertises limits for it and enforces the largest. An advertised limit may be lost,
  delayed, repeated and reordered, so the user of the quantity only ever learns some of
  the limits that were advertised.
\<close>

locale limit_protocol =
  fixes used limit :: "'s \<Rightarrow> nat" and raise :: "nat \<Rightarrow> 's \<Rightarrow> 's" and s_step :: "'s \<Rightarrow> 's \<Rightarrow> bool"
    and enforced :: "'r \<Rightarrow> nat" and adverts :: "'r \<Rightarrow> nat set" and r_step :: "'r \<Rightarrow> 'r \<Rightarrow> bool"
  assumes raise_used: "used (raise v s) = used s"
    and raise_limit: "limit (raise v s) = max (limit s) v"
    and s_step_limit: "s_step s s' \<Longrightarrow> limit s' = limit s"
    and s_step_used: "s_step s s' \<Longrightarrow> used s \<le> limit s \<Longrightarrow> used s' \<le> limit s"
    and r_step_enforced: "r_step r r' \<Longrightarrow> enforced r \<le> enforced r'"
    and r_step_adverts: "r_step r r' \<Longrightarrow> v \<in> adverts r' \<Longrightarrow> v \<in> adverts r \<or> v \<le> enforced r'"
begin

definition conforms :: "'s \<Rightarrow> 'r \<Rightarrow> bool" where
  "conforms s r \<longleftrightarrow> used s \<le> limit s \<and> limit s \<le> enforced r \<and> (\<forall>v \<in> adverts r. v \<le> enforced r)"

lemma conforms_use: "conforms s r \<Longrightarrow> s_step s s' \<Longrightarrow> conforms s' r"
  using s_step_limit s_step_used by (simp add: conforms_def)

lemma conforms_learn: "conforms s r \<Longrightarrow> v \<in> adverts r \<Longrightarrow> conforms (raise v s) r"
  by (auto simp: conforms_def raise_used raise_limit)

lemma conforms_advertise: "conforms s r \<Longrightarrow> r_step r r' \<Longrightarrow> conforms s r'"
  using r_step_enforced r_step_adverts unfolding conforms_def by (meson order_trans)

lemma conforms_enforced: "conforms s r \<Longrightarrow> used s \<le> enforced r"
  by (simp add: conforms_def)

end

end
