(* ===== verification/Flow.thy ===== *)
theory Flow
  imports Frame Wakers Limit
begin

text \<open>
  Connection-level flow control, \<open>qbase/src/flow.rs\<close>: the sender's and the receiver's controller with all
  their operations, each \<open>Mutex\<close>-protected method one atomic step. Arithmetic that overflows or
  underflows and a failing \<open>expect\<close> are \<open>None\<close>. The brokers are the lists of frames handed to them; \<open>sc_woken\<close> logs
  the tasks woken.

  The second half runs both controllers against each other, with MAX_DATA frames that may be
  lost, delayed, repeated and reordered: the sender never breaks the receiver's limit, and the two never
  deadlock.
\<close>

section \<open>The sending side\<close>

record send_ctrl =
  sent_data :: nat
  snd_max_data :: nat
  flow_limited :: bool
  sc_broker :: "stream_ctl_frame list"
  sc_wakers :: wakers
  sc_woken :: "waker list"

definition new_send_ctrl :: "nat \<Rightarrow> send_ctrl" where
  "new_send_ctrl initial_max_data =
     \<lparr>sent_data = 0, snd_max_data = initial_max_data, flow_limited = False, sc_broker = [], sc_wakers = [],
      sc_woken = []\<rparr>"

definition sc_wake :: "send_ctrl \<Rightarrow> send_ctrl" where
  "sc_wake c = c\<lparr>sc_woken := sc_woken c @ wake_all (sc_wakers c)\<rparr>"

definition increase_limit :: "nat \<Rightarrow> send_ctrl \<Rightarrow> send_ctrl" where
  "increase_limit max_data c =
     (if snd_max_data c < max_data
      then sc_wake (c\<lparr>snd_max_data := max_data, flow_limited := False\<rparr>) else c)"

definition avaliable :: "send_ctrl \<Rightarrow> nat option" where
  "avaliable c = checked_sub (snd_max_data c) (sent_data c)"

definition commit :: "nat \<Rightarrow> send_ctrl \<Rightarrow> send_ctrl option" where
  "commit flow c =
     Option.bind (u64_add (sent_data c) flow) (\<lambda>sent.
     let c = c\<lparr>sent_data := sent\<rparr>
     in Option.bind (avaliable c) (\<lambda>a.
        if a = 0 \<and> \<not> flow_limited c then
          map_option (\<lambda>v. c\<lparr>flow_limited := True, sc_broker := sc_broker c @ [DataBlocked v]\<rparr>)
            (from_u64 (snd_max_data c))
        else Some c))"

definition return_back :: "nat \<Rightarrow> send_ctrl \<Rightarrow> send_ctrl option" where
  "return_back flow c =
     Option.bind (checked_sub (sent_data c) flow) (\<lambda>sent.
     let c = c\<lparr>sent_data := sent\<rparr>
     in map_option (\<lambda>a. if 0 < a then sc_wake c else c) (avaliable c))"

definition revise_max_data :: "bool \<Rightarrow> nat \<Rightarrow> send_ctrl \<Rightarrow> send_ctrl" where
  "revise_max_data zero_rtt_rejected max_data c =
     (let c = (if zero_rtt_rejected then c\<lparr>snd_max_data := 0, flow_limited := False\<rparr> else c)
      in increase_limit max_data c)"

text \<open>A \<open>Credit\<close> is the number of bytes that may still be sent under it.\<close>

definition credit :: "nat \<Rightarrow> send_ctrl \<Rightarrow> (nat \<times> send_ctrl) option" where
  "credit quota c =
     Option.bind (avaliable c) (\<lambda>a. map_option (Pair (min a quota)) (commit (min a quota) c))"

definition poll_credit :: "waker \<Rightarrow> nat \<Rightarrow> send_ctrl \<Rightarrow> (nat \<times> send_ctrl) option" where
  "poll_credit w quota c = credit quota (c\<lparr>sc_wakers := register w (sc_wakers c)\<rparr>)"

definition unregister_sender :: "waker \<Rightarrow> send_ctrl \<Rightarrow> send_ctrl" where
  "unregister_sender w c = c\<lparr>sc_wakers := unregister w (sc_wakers c)\<rparr>"

definition post_sent :: "nat \<Rightarrow> nat \<Rightarrow> nat option" where
  "post_sent amount available = checked_sub available amount"

definition drop_credit :: "nat \<Rightarrow> send_ctrl \<Rightarrow> send_ctrl option" where
  "drop_credit available c = (if available = 0 then Some c else return_back available c)"

definition recv_max_data :: "nat \<Rightarrow> send_ctrl \<Rightarrow> send_ctrl" where
  "recv_max_data max_data c = increase_limit max_data c"

section \<open>The receiving side\<close>

record recv_ctrl =
  rcvd_data :: nat
  rcv_max_data :: nat
  rcv_step :: nat
  rc_broker :: "stream_ctl_frame list"

definition new_recv_ctrl :: "nat \<Rightarrow> recv_ctrl" where
  "new_recv_ctrl initial_max_data =
     \<lparr>rcvd_data = 0, rcv_max_data = initial_max_data, rcv_step = initial_max_data div 2, rc_broker = []\<rparr>"

definition on_new_rcvd :: "frame_type \<Rightarrow> nat \<Rightarrow> recv_ctrl \<Rightarrow> (recv_ctrl \<times> (quic_error + nat)) option" where
  "on_new_rcvd ft amount c =
     Option.bind (u64_add (rcvd_data c) amount) (\<lambda>rcvd.
     let c = c\<lparr>rcvd_data := rcvd\<rparr>
     in if rcvd \<le> rcv_max_data c then
          Option.bind (u64_add rcvd (rcv_step c)) (\<lambda>reach.
          if rcv_max_data c \<le> reach then
            Option.bind (u64_add (rcv_max_data c) (rcv_step c)) (\<lambda>m.
            map_option (\<lambda>v. (c\<lparr>rcv_max_data := m, rc_broker := rc_broker c @ [MaxData v]\<rparr>, Inr amount))
              (from_u64 m))
          else Some (c, Inr amount))
        else Some (c, Inl \<lparr>qe_kind = FlowControl, qe_frame_type = V1Frame ft\<rparr>))"

text \<open>A DATA_BLOCKED frame of the peer changes nothing.\<close>

definition recv_data_blocked :: "nat \<Rightarrow> recv_ctrl \<Rightarrow> recv_ctrl" where
  "recv_data_blocked _ c = c"

section \<open>Both sides\<close>

record flow_controller =
  fc_sender :: send_ctrl
  fc_recver :: recv_ctrl

definition new_flow :: "nat \<Rightarrow> nat \<Rightarrow> flow_controller" where
  "new_flow peer_initial_max_data local_initial_max_data =
     \<lparr>fc_sender = new_send_ctrl peer_initial_max_data, fc_recver = new_recv_ctrl local_initial_max_data\<rparr>"

definition reset_send_window :: "nat \<Rightarrow> flow_controller \<Rightarrow> flow_controller" where
  "reset_send_window snd_wnd f = f\<lparr>fc_sender := increase_limit snd_wnd (fc_sender f)\<rparr>"

definition send_limit :: "nat \<Rightarrow> flow_controller \<Rightarrow> (nat \<times> flow_controller) option" where
  "send_limit quota f = map_option (\<lambda>(a, c). (a, f\<lparr>fc_sender := c\<rparr>)) (credit quota (fc_sender f))"

definition flow_on_new_rcvd ::
  "frame_type \<Rightarrow> nat \<Rightarrow> flow_controller \<Rightarrow> (flow_controller \<times> (quic_error + nat)) option" where
  "flow_on_new_rcvd ft amount f =
     map_option (\<lambda>(c, r). (f\<lparr>fc_recver := c\<rparr>, r)) (on_new_rcvd ft amount (fc_recver f))"

section \<open>One controller at a time\<close>

lemma increase_limit_fields [simp]:
  "sent_data (increase_limit v c) = sent_data c" "snd_max_data (increase_limit v c) = max (snd_max_data c) v"
  "sc_broker (increase_limit v c) = sc_broker c" "sc_wakers (increase_limit v c) = sc_wakers c"
  "flow_limited (increase_limit v c) \<longleftrightarrow> flow_limited c \<and> v \<le> snd_max_data c"
  by (auto simp: increase_limit_def sc_wake_def)

lemma increase_limit_wakes:
  "snd_max_data c < v \<Longrightarrow> sc_woken (increase_limit v c) = sc_woken c @ sc_wakers c"
  by (simp add: increase_limit_def sc_wake_def wake_all_def)

lemma credit_spec:
  assumes "sent_data c \<le> snd_max_data c" and "snd_max_data c < 2 ^ 62"
  shows "\<exists>c'. credit quota c = Some (min (snd_max_data c - sent_data c) quota, c') \<and>
    sent_data c' = sent_data c + min (snd_max_data c - sent_data c) quota \<and> snd_max_data c' = snd_max_data c \<and>
    sc_broker c' = sc_broker c @ (if sent_data c' = snd_max_data c \<and> \<not> flow_limited c then [DataBlocked (snd_max_data c)] else []) \<and>
    (flow_limited c' \<longleftrightarrow> flow_limited c \<or> sent_data c' = snd_max_data c)"
proof -
  define a where "a = min (snd_max_data c - sent_data c) quota"
  have "u64_add (sent_data c) a = Some (sent_data c + a)" using assms by (simp add: u64_add_def a_def)
  moreover have "checked_sub (snd_max_data c) (sent_data c) = Some (snd_max_data c - sent_data c)"
    "checked_sub (snd_max_data c) (sent_data c + a) = Some (snd_max_data c - (sent_data c + a))"
    using assms by (auto simp: checked_sub_def a_def)
  moreover have "snd_max_data c - (sent_data c + a) = 0 \<longleftrightarrow> sent_data c + a = snd_max_data c"
    using assms by (auto simp: a_def)
  ultimately show ?thesis
    using assms(2)
    by (cases "sent_data c + a = snd_max_data c \<and> \<not> flow_limited c")
      (auto simp: credit_def avaliable_def commit_def from_u64_def Let_def a_def [symmetric])
qed

lemma return_back_spec:
  assumes "flow \<le> sent_data c" and "sent_data c \<le> snd_max_data c"
  shows "\<exists>c'. return_back flow c = Some c' \<and> sent_data c' = sent_data c - flow \<and> snd_max_data c' = snd_max_data c \<and>
    sc_broker c' = sc_broker c \<and> flow_limited c' = flow_limited c \<and>
    (0 < snd_max_data c - sent_data c' \<longrightarrow> sc_woken c' = sc_woken c @ sc_wakers c)"
  using assms by (auto simp: return_back_def avaliable_def checked_sub_def sc_wake_def wake_all_def Let_def)

lemma on_new_rcvd_spec:
  assumes "rcv_max_data c + rcv_step c < 2 ^ 62" and "rcvd_data c + amount < 2 ^ 62"
  shows "\<exists>c'. on_new_rcvd ft amount c =
      Some (c', if rcvd_data c + amount \<le> rcv_max_data c then Inr amount
                else Inl \<lparr>qe_kind = FlowControl, qe_frame_type = V1Frame ft\<rparr>) \<and>
    rcvd_data c' = rcvd_data c + amount \<and> rcv_step c' = rcv_step c \<and>
    (if rcvd_data c + amount \<le> rcv_max_data c \<and> rcv_max_data c \<le> rcvd_data c + amount + rcv_step c
     then rcv_max_data c' = rcv_max_data c + rcv_step c \<and> rc_broker c' = rc_broker c @ [MaxData (rcv_max_data c')]
     else rcv_max_data c' = rcv_max_data c \<and> rc_broker c' = rc_broker c)"
  using assms by (simp add: on_new_rcvd_def u64_add_def from_u64_def Let_def)

section \<open>Two controllers and a network\<close>

text \<open>
  The sender with the credits it has out, the bytes it has put on the wire, and the receiver.
  \<open>Learn\<close> delivers any MAX_DATA frame that was ever sent, \<open>Deliver\<close> some of the bytes that are under way.
\<close>

record flow_sys =
  fs_sender :: send_ctrl
  fs_credits :: "nat list"
  fs_wire :: nat
  fs_recver :: recv_ctrl

definition flow_init :: "nat \<Rightarrow> flow_sys" where
  "flow_init initial_max_data =
     \<lparr>fs_sender = new_send_ctrl initial_max_data, fs_credits = [], fs_wire = 0,
      fs_recver = new_recv_ctrl initial_max_data\<rparr>"

inductive flow_step :: "flow_sys \<Rightarrow> flow_sys \<Rightarrow> bool" where
  Credit: "credit quota (fs_sender x) = Some (a, c) \<Longrightarrow>
    flow_step x (x\<lparr>fs_sender := c, fs_credits := fs_credits x @ [a]\<rparr>)"
| Send: "i < length (fs_credits x) \<Longrightarrow> post_sent amount (fs_credits x ! i) = Some a \<Longrightarrow>
    flow_step x (x\<lparr>fs_credits := (fs_credits x)[i := a], fs_wire := fs_wire x + amount\<rparr>)"
| Drop: "fs_credits x = pre @ a # post \<Longrightarrow> drop_credit a (fs_sender x) = Some c \<Longrightarrow>
    flow_step x (x\<lparr>fs_sender := c, fs_credits := pre @ post\<rparr>)"
| Learn: "MaxData v \<in> set (rc_broker (fs_recver x)) \<Longrightarrow>
    flow_step x (x\<lparr>fs_sender := recv_max_data v (fs_sender x)\<rparr>)"
| Deliver: "rcvd_data (fs_recver x) + amount \<le> fs_wire x \<Longrightarrow>
    on_new_rcvd ft amount (fs_recver x) = Some (r, res) \<Longrightarrow>
    flow_step x (x\<lparr>fs_recver := r\<rparr>)"

inductive flow_reach :: "nat \<Rightarrow> flow_sys \<Rightarrow> bool" for initial_max_data where
  Init: "flow_reach initial_max_data (flow_init initial_max_data)"
| Step: "flow_reach initial_max_data x \<Longrightarrow> flow_step x y \<Longrightarrow> flow_reach initial_max_data y"

inductive_cases flow_stepE: "flow_step x y"

text \<open>The two controllers follow the contract of advertised limits.\<close>

definition sender_uses :: "send_ctrl \<Rightarrow> send_ctrl \<Rightarrow> bool" where
  "sender_uses c c' \<longleftrightarrow> (\<exists>quota a. credit quota c = Some (a, c')) \<or> (\<exists>a. drop_credit a c = Some c')"

definition recver_accepts :: "recv_ctrl \<Rightarrow> recv_ctrl \<Rightarrow> bool" where
  "recver_accepts r r' \<longleftrightarrow> (\<exists>ft amount res. on_new_rcvd ft amount r = Some (r', res))"

abbreviation max_data_adverts :: "recv_ctrl \<Rightarrow> nat set" where
  "max_data_adverts r \<equiv> {v. MaxData v \<in> set (rc_broker r)}"

lemma recver_accepts_cases:
  assumes "recver_accepts r r'"
  obtains "rcv_max_data r' = rcv_max_data r" and "rc_broker r' = rc_broker r"
  | "rcv_max_data r' = rcv_max_data r + rcv_step r" and "rc_broker r' = rc_broker r @ [MaxData (rcv_max_data r')]"
  using assms
  by (auto simp: recver_accepts_def on_new_rcvd_def from_u64_def bind_eq_Some_conv Let_def rust_std split: if_splits)

lemma credit_uses:
  assumes "credit quota c = Some (a, c')"
  shows "snd_max_data c' = snd_max_data c \<and> sent_data c' \<le> snd_max_data c \<and> sent_data c' = sent_data c + a"
  using assms by (auto simp: credit_def commit_def avaliable_def from_u64_def
      bind_eq_Some_conv Let_def rust_std split: if_splits)

lemma drop_credit_uses:
  assumes "drop_credit a c = Some c'"
  shows "snd_max_data c' = snd_max_data c \<and> sent_data c = sent_data c' + a"
  using assms by (auto simp: drop_credit_def return_back_def avaliable_def sc_wake_def
      bind_eq_Some_conv Let_def rust_std split: if_splits)

interpretation fl: limit_protocol sent_data snd_max_data recv_max_data sender_uses
  rcv_max_data max_data_adverts recver_accepts
proof unfold_locales
  show "rcv_max_data r \<le> rcv_max_data r'" if "recver_accepts r r'" for r r'
    using that by (cases rule: recver_accepts_cases) auto
  show "v \<in> max_data_adverts r \<or> v \<le> rcv_max_data r'" if "recver_accepts r r'" "v \<in> max_data_adverts r'" for r r' v
    using that by (cases rule: recver_accepts_cases) auto
qed (auto simp: recv_max_data_def sender_uses_def dest!: credit_uses drop_credit_uses)

definition flow_inv :: "flow_sys \<Rightarrow> bool" where
  "flow_inv x \<longleftrightarrow>
     sent_data (fs_sender x) = fs_wire x + sum_list (fs_credits x) \<and>
     fl.conforms (fs_sender x) (fs_recver x) \<and>
     rcvd_data (fs_recver x) \<le> fs_wire x \<and>
     rcvd_data (fs_recver x) + rcv_step (fs_recver x) \<le> rcv_max_data (fs_recver x)"

lemma flow_init_inv: "flow_inv (flow_init m)"
  by (simp add: flow_inv_def flow_init_def new_send_ctrl_def new_recv_ctrl_def fl.conforms_def)

lemma on_new_rcvd_window:
  assumes "on_new_rcvd ft amount r = Some (r', res)" and "rcvd_data r + amount \<le> rcv_max_data r"
  shows "rcvd_data r' = rcvd_data r + amount \<and> rcvd_data r' + rcv_step r' \<le> rcv_max_data r' \<and> rcv_step r' = rcv_step r"
  using assms by (auto simp: on_new_rcvd_def from_u64_def bind_eq_Some_conv Let_def rust_std split: if_splits)

lemma sum_list_update_nat:
  assumes "i < length xs"
  shows "sum_list (xs[i := a]) + xs ! i = sum_list xs + (a :: nat)"
  using assms elem_le_sum_list [OF assms] by (simp add: sum_list_update)

lemma flow_step_inv:
  assumes "flow_step x y" and inv: "flow_inv x"
  shows "flow_inv y"
proof -
  note c = inv [unfolded flow_inv_def]
  from assms(1) show ?thesis
  proof (cases rule: flow_step.cases)
    case (Credit quota a s)
    then have "sender_uses (fs_sender x) s" by (auto simp: sender_uses_def)
    then show ?thesis using Credit(1) c credit_uses [OF Credit(2)] fl.conforms_use by (auto simp: flow_inv_def)
  next
    case (Send i amount a)
    have "amount + a = fs_credits x ! i" using Send(3) by (auto simp: post_sent_def rust_std)
    then show ?thesis using c Send(1,2) sum_list_update_nat [OF Send(2), of a] by (auto simp: flow_inv_def)
  next
    case (Drop pre a post s)
    then have "sender_uses (fs_sender x) s" by (auto simp: sender_uses_def)
    then show ?thesis using Drop(1,2) c drop_credit_uses [OF Drop(3)] fl.conforms_use by (auto simp: flow_inv_def)
  next
    case (Learn v)
    then show ?thesis using c fl.conforms_learn [of "fs_sender x" "fs_recver x" v]
      by (auto simp: flow_inv_def recv_max_data_def)
  next
    case (Deliver amount ft r res)
    have "fs_wire x \<le> rcv_max_data (fs_recver x)" using c fl.conforms_enforced by fastforce
    then have "rcvd_data (fs_recver x) + amount \<le> rcv_max_data (fs_recver x)" using Deliver(2) by linarith
    note w = on_new_rcvd_window [OF Deliver(3) this]
    have "recver_accepts (fs_recver x) r" using Deliver(3) by (auto simp: recver_accepts_def)
    then show ?thesis using c w Deliver(1,2) fl.conforms_advertise by (auto simp: flow_inv_def)
  qed
qed

lemma flow_reach_inv: "flow_reach m x \<Longrightarrow> flow_inv x"
  by (induction rule: flow_reach.induct) (simp_all add: flow_init_inv flow_step_inv)

lemma flow_inv_bounds:
  assumes "flow_inv x"
  shows "fs_wire x \<le> sent_data (fs_sender x)" "sent_data (fs_sender x) \<le> snd_max_data (fs_sender x)"
    "snd_max_data (fs_sender x) \<le> rcv_max_data (fs_recver x)" "rcvd_data (fs_recver x) \<le> fs_wire x"
  using assms by (auto simp: flow_inv_def fl.conforms_def)

text \<open>DATA_BLOCKED frames: at most one for each limit, and none above it.\<close>

definition blocked_at :: "send_ctrl \<Rightarrow> nat list" where
  "blocked_at c = List.map_filter (\<lambda>f. case f of DataBlocked v \<Rightarrow> Some v | _ \<Rightarrow> None) (sc_broker c)"

definition blocked_ok :: "send_ctrl \<Rightarrow> bool" where
  "blocked_ok c \<longleftrightarrow> sorted_wrt (<) (blocked_at c) \<and>
     (\<forall>v \<in> set (blocked_at c). v \<le> snd_max_data c \<and> (\<not> flow_limited c \<longrightarrow> v < snd_max_data c))"

lemma blocked_at_append:
  "sc_broker c' = sc_broker c @ [DataBlocked v] \<Longrightarrow> blocked_at c' = blocked_at c @ [v]"
  "sc_broker c' = sc_broker c \<Longrightarrow> blocked_at c' = blocked_at c"
  by (auto simp: blocked_at_def map_filter_simps map_filter_def)

lemma credit_blocked_ok:
  assumes "credit quota c = Some (a, c')" and "blocked_ok c"
  shows "blocked_ok c'"
proof -
  have "snd_max_data c' = snd_max_data c \<and>
    (sc_broker c' = sc_broker c \<and> flow_limited c' = flow_limited c \<or>
     sc_broker c' = sc_broker c @ [DataBlocked (snd_max_data c)] \<and> flow_limited c' \<and> \<not> flow_limited c)"
    using assms(1) by (auto simp: credit_def commit_def from_u64_def bind_eq_Some_conv Let_def split: if_splits)
  then show ?thesis
    using assms(2) blocked_at_append [of c' c] by (elim conjE disjE) (auto simp: blocked_ok_def sorted_wrt_append)
qed

lemma drop_credit_blocked_ok:
  assumes "drop_credit a c = Some c'" and "blocked_ok c"
  shows "blocked_ok c'"
proof -
  have "sc_broker c' = sc_broker c" "flow_limited c' = flow_limited c" "snd_max_data c' = snd_max_data c"
    using assms(1) by (auto simp: drop_credit_def return_back_def sc_wake_def bind_eq_Some_conv Let_def split: if_splits)
  then show ?thesis using assms(2) blocked_at_append(2) [of c' c] by (simp add: blocked_ok_def)
qed

lemma increase_limit_blocked_ok: "blocked_ok c \<Longrightarrow> blocked_ok (increase_limit v c)"
  using blocked_at_append(2) [of "increase_limit v c" c] by (auto simp: blocked_ok_def)

lemma flow_reach_blocked_ok: "flow_reach m x \<Longrightarrow> blocked_ok (fs_sender x)"
proof (induction rule: flow_reach.induct)
  case Init
  show ?case by (simp add: flow_init_def new_send_ctrl_def blocked_ok_def blocked_at_def)
next
  case (Step x y)
  from Step.hyps(2) Step.IH show ?case
    by cases (auto simp: recv_max_data_def intro: credit_blocked_ok drop_credit_blocked_ok increase_limit_blocked_ok)
qed

section \<open>Examples\<close>

text \<open>A sender with 100 bytes of credit takes 60, sends 50, returns 10, and the 50 bytes arrive.\<close>

definition sample_flow :: flow_sys where
  "sample_flow =
     \<lparr>fs_sender = \<lparr>sent_data = 50, snd_max_data = 100, flow_limited = False, sc_broker = [], sc_wakers = [], sc_woken = []\<rparr>,
      fs_credits = [], fs_wire = 50,
      fs_recver = \<lparr>rcvd_data = 50, rcv_max_data = 150, rcv_step = 50, rc_broker = [MaxData 150]\<rparr>\<rparr>"

lemma sample_flow_reach: "flow_reach 100 sample_flow"
proof -
  let ?s = "\<lambda>sent. \<lparr>sent_data = sent, snd_max_data = 100, flow_limited = False, sc_broker = [], sc_wakers = [], sc_woken = []\<rparr>"
  let ?x1 = "\<lparr>fs_sender = ?s 60, fs_credits = [60], fs_wire = 0, fs_recver = new_recv_ctrl 100\<rparr>"
  let ?x2 = "?x1\<lparr>fs_credits := [10], fs_wire := 50\<rparr>"
  let ?x3 = "?x2\<lparr>fs_sender := ?s 50, fs_credits := []\<rparr>"
  have "flow_step (flow_init 100) ?x1"
    using flow_step.Credit [of 60 "flow_init 100" 60 "?s 60"]
    by (simp add: flow_init_def new_send_ctrl_def credit_def avaliable_def commit_def checked_sub_def u64_add_def)
  moreover have "flow_step ?x1 ?x2"
    using flow_step.Send [of 0 ?x1 50 10] by (simp add: post_sent_def checked_sub_def)
  moreover have "flow_step ?x2 ?x3"
    using flow_step.Drop [of ?x2 "[]" 10 "[]" "?s 50"]
    by (simp add: drop_credit_def return_back_def avaliable_def checked_sub_def sc_wake_def wake_all_def)
  moreover have "flow_step ?x3 sample_flow"
    using flow_step.Deliver [of ?x3 50 TPing _ "Inr 50"]
    by (simp add: new_recv_ctrl_def on_new_rcvd_def u64_add_def from_u64_def sample_flow_def)
  ultimately show ?thesis by (meson flow_reach.intros)
qed

section \<open>Properties\<close>

text \<open>
  C7. Whatever the interleaving of credits, sends, returned credits, deliveries and lost, late or
  repeated MAX_DATA frames, a sender that sends under its credits stays within the receiver's limit:
  any bytes under way are accepted, and never refused with FLOW_CONTROL_ERROR. (The limit must be
  below the largest varint, where the receiver would panic.)
\<close>

theorem flow_sender_conforms:
  assumes "flow_reach m x" and "rcvd_data (fs_recver x) + amount \<le> fs_wire x"
    and "rcv_max_data (fs_recver x) + rcv_step (fs_recver x) < 2 ^ 62"
  shows "\<exists>r. on_new_rcvd ft amount (fs_recver x) = Some (r, Inr amount) \<and>
    rcvd_data r = rcvd_data (fs_recver x) + amount \<and> rcvd_data r + rcv_step r \<le> rcv_max_data r"
proof -
  note b = flow_inv_bounds [OF flow_reach_inv [OF assms(1)]]
  have le: "rcvd_data (fs_recver x) + amount \<le> rcv_max_data (fs_recver x)" using assms(2) b by linarith
  then have "rcvd_data (fs_recver x) + amount < 2 ^ 62" using assms(3) by linarith
  from on_new_rcvd_spec [OF assms(3) this, of ft] le obtain r
    where r: "on_new_rcvd ft amount (fs_recver x) = Some (r, Inr amount)" by auto
  from on_new_rcvd_window [OF r le] r show ?thesis by auto
qed

theorem flow_sender_conforms_witness:
  "\<exists>r. on_new_rcvd TPing 0 (fs_recver sample_flow) = Some (r, Inr 0) \<and>
    rcvd_data r = 50 \<and> rcvd_data r + rcv_step r \<le> rcv_max_data r"
  using flow_sender_conforms [OF sample_flow_reach, of 0 TPing] by (simp add: sample_flow_def)

text \<open>
  C29. Flow control does not deadlock: when everything that was sent has arrived, no credit is out and the
  newest limit has been learnt, the sender gets at least half the initial window (or all it asks
  for), in one call that does not panic.
\<close>

theorem flow_no_deadlock:
  assumes "flow_reach m x" and "fs_credits x = []" and "rcvd_data (fs_recver x) = fs_wire x"
    and "snd_max_data (fs_sender x) = rcv_max_data (fs_recver x)" and "rcv_max_data (fs_recver x) < 2 ^ 62"
  shows "\<exists>a c. credit quota (fs_sender x) = Some (a, c) \<and> min quota (m div 2) \<le> a \<and> a \<le> quota"
proof -
  have inv: "flow_inv x" by (rule flow_reach_inv [OF assms(1)])
  have step: "rcv_step (fs_recver x) = m div 2"
    using assms(1)
  proof (induction rule: flow_reach.induct)
    case Init
    show ?case by (simp add: flow_init_def new_recv_ctrl_def)
  next
    case (Step x y)
    from Step.hyps(2) Step.IH show ?case
      by cases (auto simp: on_new_rcvd_def from_u64_def bind_eq_Some_conv Let_def split: if_splits)
  qed
  have "sent_data (fs_sender x) + m div 2 \<le> snd_max_data (fs_sender x)"
    using inv assms(2-4) step by (simp add: flow_inv_def)
  moreover obtain c where "credit quota (fs_sender x) =
      Some (min (snd_max_data (fs_sender x) - sent_data (fs_sender x)) quota, c)"
    using credit_spec [of "fs_sender x" quota] flow_inv_bounds(2) [OF inv] assms(4,5) by auto
  ultimately show ?thesis by auto
qed

theorem flow_no_deadlock_witness:
  "\<exists>a c. credit 70 (fs_sender (sample_flow\<lparr>fs_sender := recv_max_data 150 (fs_sender sample_flow)\<rparr>)) = Some (a, c) \<and>
     50 \<le> a \<and> a \<le> 70"
proof -
  have "flow_reach 100 (sample_flow\<lparr>fs_sender := recv_max_data 150 (fs_sender sample_flow)\<rparr>)"
    by (rule flow_reach.Step [OF sample_flow_reach], rule flow_step.Learn) (simp add: sample_flow_def)
  from flow_no_deadlock [OF this, of 70] show ?thesis
    by (simp add: sample_flow_def recv_max_data_def)
qed



end
