(* ===== verification/Stream_Ids.thy ===== *)
theory Stream_Ids
  imports Frame_Codec Wakers Limit
begin

text \<open>
  Who may open which stream, \<open>qbase/src/sid/local_sid.rs\<close>, \<open>remote_sid.rs\<close> and \<open>handy.rs\<close>: the allocation of local
  stream identifiers under the peer's MAX_STREAMS, the acceptance of the peer's identifiers, and the
  two strategies that raise the peer's limit. An array indexed by direction is a function of the direction; a failing
  \<open>assert!\<close> or \<open>expect\<close> is \<open>None\<close>. The strategy is an argument: a record with the three callbacks of the trait
  \<open>ControlStreamsConcurrency\<close> over a state of its own.
\<close>

section \<open>Local identifiers\<close>

record local_sids =
  ls_role :: role
  ls_max :: "dir \<Rightarrow> nat"
  ls_unallocated :: "dir \<Rightarrow> nat"
  ls_wakers :: "dir \<Rightarrow> waker list"
  ls_blocked :: "stream_ctl_frame list"
  ls_tx_wakers :: wakers
  ls_woken :: "waker list"

definition per_dir :: "'a \<Rightarrow> 'a \<Rightarrow> dir \<Rightarrow> 'a" where
  "per_dir bi uni d = (case d of Bi \<Rightarrow> bi | Uni \<Rightarrow> uni)"

definition new_local_sids :: "role \<Rightarrow> nat \<Rightarrow> nat \<Rightarrow> wakers \<Rightarrow> local_sids" where
  "new_local_sids role max_bi max_uni tx_wakers =
     \<lparr>ls_role = role, ls_max = per_dir max_bi max_uni, ls_unallocated = per_dir 0 0, ls_wakers = per_dir [] [],
      ls_blocked = [], ls_tx_wakers = tx_wakers, ls_woken = []\<rparr>"

definition opened_streams :: "dir \<Rightarrow> local_sids \<Rightarrow> nat" where
  "opened_streams d s = ls_unallocated s d"

text \<open>The update of \<open>increase_limit\<close> behind its assertion.\<close>

definition raise_max_streams :: "dir \<Rightarrow> nat \<Rightarrow> local_sids \<Rightarrow> local_sids" where
  "raise_max_streams d val s =
     (if ls_max s d < val then
        s\<lparr>ls_woken := ls_woken s @ (if ls_max s d < ls_unallocated s d then wake_all (ls_tx_wakers s) else [])
            @ ls_wakers s d,
          ls_wakers := (ls_wakers s)(d := []),
          ls_max := (ls_max s)(d := val)\<rparr>
      else s)"

definition increase_sid_limit :: "dir \<Rightarrow> nat \<Rightarrow> local_sids \<Rightarrow> local_sids option" where
  "increase_sid_limit d val s = (if val \<le> MAX_STREAMS_LIMIT then Some (raise_max_streams d val s) else None)"

definition recv_max_streams_frame :: "dir \<times> nat \<Rightarrow> local_sids \<Rightarrow> local_sids option" where
  "recv_max_streams_frame f s = (case f of (d, val) \<Rightarrow> increase_sid_limit d val s)"

definition poll_alloc_sid ::
  "waker \<Rightarrow> dir \<Rightarrow> local_sids \<Rightarrow> ((64 word) option poll \<times> local_sids) option" where
  "poll_alloc_sid w d s =
     (let m = ls_max s d; unallocated = ls_unallocated s d
      in if MAX_STREAMS_LIMIT < unallocated then Some (Ready None, s)
         else if unallocated < m then
           map_option (\<lambda>sid. (Ready (Some sid), s\<lparr>ls_unallocated := (ls_unallocated s)(d := unallocated + 1)\<rparr>))
             (sid_new (ls_role s) d unallocated)
         else
           map_option (\<lambda>v. (Pending,
               s\<lparr>ls_wakers := (ls_wakers s)(d := ls_wakers s d @ [w]),
                 ls_blocked := ls_blocked s @ [StreamsBlocked d v]\<rparr>))
             (from_u64 m))"

definition on_sid_error :: "local_sids \<Rightarrow> local_sids" where
  "on_sid_error s =
     s\<lparr>ls_woken := ls_woken s @ ls_wakers s Bi @ ls_wakers s Uni, ls_wakers := (\<lambda>_. [])\<rparr>"

section \<open>Strategies\<close>

record 'c concurrency =
  cc_on_accept :: "dir \<Rightarrow> nat \<Rightarrow> 'c \<Rightarrow> (nat option \<times> 'c) option"
  cc_on_end :: "dir \<Rightarrow> nat \<Rightarrow> 'c \<Rightarrow> (nat option \<times> 'c) option"
  cc_on_blocked :: "dir \<Rightarrow> nat \<Rightarrow> 'c \<Rightarrow> (nat option \<times> 'c) option"

type_synonym consistent_state = "dir \<Rightarrow> nat"

definition consistent_new :: "nat \<Rightarrow> nat \<Rightarrow> consistent_state" where
  "consistent_new bi uni = per_dir bi uni"

definition consistent_on_accept :: "dir \<Rightarrow> nat \<Rightarrow> consistent_state \<Rightarrow> (nat option \<times> consistent_state) option" where
  "consistent_on_accept _ _ c = Some (None, c)"

definition consistent_on_end :: "dir \<Rightarrow> nat \<Rightarrow> consistent_state \<Rightarrow> (nat option \<times> consistent_state) option" where
  "consistent_on_end d _ c = map_option (\<lambda>new_limit. (Some new_limit, c(d := new_limit))) (u64_add (c d) 1)"

definition consistent_on_blocked :: "dir \<Rightarrow> nat \<Rightarrow> consistent_state \<Rightarrow> (nat option \<times> consistent_state) option" where
  "consistent_on_blocked _ _ c = Some (None, c)"

definition consistent :: "consistent_state concurrency" where
  "consistent =
     \<lparr>cc_on_accept = consistent_on_accept, cc_on_end = consistent_on_end, cc_on_blocked = consistent_on_blocked\<rparr>"

definition demand_on_accept :: "dir \<Rightarrow> nat \<Rightarrow> unit \<Rightarrow> (nat option \<times> unit) option" where
  "demand_on_accept _ _ c = Some (None, c)"

definition demand_on_end :: "dir \<Rightarrow> nat \<Rightarrow> unit \<Rightarrow> (nat option \<times> unit) option" where
  "demand_on_end _ _ c = Some (None, c)"

definition demand_on_blocked :: "dir \<Rightarrow> nat \<Rightarrow> unit \<Rightarrow> (nat option \<times> unit) option" where
  "demand_on_blocked _ max_streams c = map_option (\<lambda>v. (Some v, c)) (u64_add max_streams 1)"

definition demand :: "unit concurrency" where
  "demand = \<lparr>cc_on_accept = demand_on_accept, cc_on_end = demand_on_end, cc_on_blocked = demand_on_blocked\<rparr>"

section \<open>Remote identifiers\<close>

record 'c remote_sids =
  rs_role :: role
  rs_max :: "dir \<Rightarrow> nat"
  rs_unallocated :: "dir \<Rightarrow> 64 word"
  rs_ctrl :: 'c
  rs_max_tx :: "stream_ctl_frame list"

datatype accept_sid = OldSid | NewSid "64 word" "64 word"

definition new_remote_sids :: "role \<Rightarrow> nat \<Rightarrow> nat \<Rightarrow> 'c \<Rightarrow> 'c remote_sids option" where
  "new_remote_sids role max_bi max_uni ctrl =
     Option.bind (sid_new role Bi 0) (\<lambda>bi. map_option (\<lambda>uni.
       \<lparr>rs_role = role, rs_max = per_dir max_bi max_uni, rs_unallocated = per_dir bi uni, rs_ctrl = ctrl,
        rs_max_tx = []\<rparr>) (sid_new role Uni 0))"

text \<open>What every handler does with a strategy's answer: adopt the new limit and advertise it.\<close>

definition adopt_limit :: "dir \<Rightarrow> nat option \<times> 'c \<Rightarrow> 'c remote_sids \<Rightarrow> 'c remote_sids option" where
  "adopt_limit d answer s =
     (case answer of
        (None, c) \<Rightarrow> Some (s\<lparr>rs_ctrl := c\<rparr>)
      | (Some max_streams, c) \<Rightarrow>
          map_option (\<lambda>v. s\<lparr>rs_ctrl := c, rs_max := (rs_max s)(d := max_streams),
              rs_max_tx := rs_max_tx s @ [MaxStreams d v]\<rparr>) (from_u64 max_streams))"

definition try_accept_sid ::
  "'c concurrency \<Rightarrow> 64 word \<Rightarrow> 'c remote_sids \<Rightarrow> ((64 word \<times> nat + accept_sid) \<times> 'c remote_sids) option" where
  "try_accept_sid cc sid s =
     (let d = sid_dir sid
      in if sid_role sid \<noteq> rs_role s then None
         else if rs_max s d < sid_id sid then Some (Inl (sid, rs_max s d), s)
         else if sid < rs_unallocated s d then Some (Inr OldSid, s)
         else
           (let start = rs_unallocated s d;
                s = s\<lparr>rs_unallocated := (rs_unallocated s)(d := next_unchecked sid)\<rparr>
            in Option.bind (cc_on_accept cc d (sid_id sid) (rs_ctrl s)) (\<lambda>answer.
               map_option (Pair (Inr (NewSid start sid))) (adopt_limit d answer s))))"

definition on_end_of_stream :: "'c concurrency \<Rightarrow> 64 word \<Rightarrow> 'c remote_sids \<Rightarrow> 'c remote_sids option" where
  "on_end_of_stream cc sid s =
     (if sid_role sid \<noteq> rs_role s then Some s
      else Option.bind (cc_on_end cc (sid_dir sid) (sid_id sid) (rs_ctrl s)) (\<lambda>answer.
           adopt_limit (sid_dir sid) answer s))"

definition recv_streams_blocked_frame ::
  "'c concurrency \<Rightarrow> dir \<times> nat \<Rightarrow> 'c remote_sids \<Rightarrow> 'c remote_sids option" where
  "recv_streams_blocked_frame cc f s =
     (case f of (d, max_streams) \<Rightarrow>
        Option.bind (cc_on_blocked cc d max_streams (rs_ctrl s)) (\<lambda>answer. adopt_limit d answer s))"

text \<open>The iterator \<open>NeedCreate\<close>, run to its end.\<close>

partial_function (option) need_create :: "64 word \<Rightarrow> 64 word \<Rightarrow> (64 word) list option" where
  "need_create start end_sid =
     (if end_sid < start then Some [] else Option.bind (need_create (next_unchecked start) end_sid) (\<lambda>rest. Some (start # rest)))"

declare need_create.simps [code]

section \<open>Identifiers in order\<close>

text \<open>The stream with the given number, of a role and a direction.\<close>

definition sid_at :: "role \<Rightarrow> dir \<Rightarrow> nat \<Rightarrow> 64 word" where
  "sid_at r d i = word_of_nat (4 * i + 2 * of_bool (d = Uni) + of_bool (r = Server))"

lemma packed_digits:
  assumes "b < 2" and "c < (2::nat)"
  shows "(4 * i + 2 * b + c) mod 2 = c" "(4 * i + 2 * b + c) div 2 mod 2 = b" "(4 * i + 2 * b + c) div 4 = i"
proof -
  have e: "4 * i + 2 * b + c = c + (2 * i + b) * 2" "4 * i + 2 * b + c = (2 * b + c) + i * 4" by simp_all
  have d: "(4 * i + 2 * b + c) div 2 = b + i * 2" using e(1) assms(2) by simp
  show "(4 * i + 2 * b + c) mod 2 = c" unfolding e(1) mod_mult_self1 using assms(2) by simp
  show "(4 * i + 2 * b + c) div 2 mod 2 = b" unfolding d mod_mult_self1 using assms(1) by simp
  show "(4 * i + 2 * b + c) div 4 = i" unfolding e(2) using assms by simp
qed

lemma unat_sid_at:
  assumes "i < 2 ^ 61"
  shows "unat (sid_at r d i) = 4 * i + 2 * of_bool (d = Uni) + of_bool (r = Server)"
proof -
  have "4 * i + 2 * of_bool (d = Uni) + of_bool (r = Server) < 2 ^ 64"
    using assms by (cases d; cases r) simp_all
  then show ?thesis by (simp add: sid_at_def unat_of_nat del: of_nat_add of_nat_mult)
qed

lemma sid_new_at: "i \<le> MAX_STREAMS_LIMIT \<Longrightarrow> sid_new r d i = Some (sid_at r d i)"
proof -
  assume i: "i \<le> MAX_STREAMS_LIMIT"
  then obtain s where s: "sid_new r d i = Some s" by (auto simp: sid_new_def)
  have "i < 2 ^ 61" using i by (simp add: MAX_STREAMS_LIMIT_def)
  then have "unat s = unat (sid_at r d i)"
    using unat_sid_new [OF s] unat_sid_at by (cases d; cases r) simp_all
  then show ?thesis using s by (simp add: word_unat_eq_iff)
qed

lemma sid_at_fields:
  assumes "i < 2 ^ 61"
  shows "sid_role (sid_at r d i) = r" "sid_dir (sid_at r d i) = d" "sid_id (sid_at r d i) = i"
proof -
  note p = packed_digits [of "of_bool (d = Uni)" "of_bool (r = Server)" i]
  show "sid_role (sid_at r d i) = r"
    unfolding sid_fields unat_sid_at [OF assms] using p(1) by (cases r) simp_all
  show "sid_dir (sid_at r d i) = d"
    unfolding sid_fields unat_sid_at [OF assms] using p(2) by (cases d) simp_all
  show "sid_id (sid_at r d i) = i"
    unfolding sid_fields unat_sid_at [OF assms] using p(3) by simp
qed

lemma next_sid_at:
  assumes "i < 2 ^ 60"
  shows "next_unchecked (sid_at r d i) = sid_at r d (i + 1)"
  by (simp add: next_unchecked_def sid_at_def)

lemma sid_at_less:
  assumes "i < 2 ^ 61" and "j < 2 ^ 61"
  shows "sid_at r d i < sid_at r d j \<longleftrightarrow> i < j"
  using assms by (simp add: word_less_nat_alt unat_sid_at)

lemma sid_at_id:
  assumes "sid_role s = r" and "sid_dir s = d"
  shows "s = sid_at r d (sid_id s)"
proof -
  let ?n = "unat s"
  have "?n = 2 * (?n div 2) + ?n mod 2" "?n div 2 = 2 * (?n div 4) + ?n div 2 mod 2"
    using mult_div_mod_eq [of 2 ?n] mult_div_mod_eq [of 2 "?n div 2"] by (simp_all add: div_mult2_eq [symmetric])
  then have "?n = 4 * (?n div 4) + 2 * (?n div 2 mod 2) + ?n mod 2" by linarith
  moreover have "?n mod 2 = of_bool (r = Server)" "?n div 2 mod 2 = of_bool (d = Uni)"
    using assms by (auto simp: sid_fields split: if_splits)
  ultimately have "?n = 4 * (?n div 4) + 2 * of_bool (d = Uni) + of_bool (r = Server)" by simp
  then have "s = word_of_nat (4 * (?n div 4) + 2 * of_bool (d = Uni) + of_bool (r = Server))"
    by (metis of_nat_unat ucast_id)
  then show ?thesis by (simp add: sid_at_def sid_fields)
qed

lemma need_create_range:
  assumes "i \<le> j + 1" and "j < 2 ^ 60"
  shows "need_create (sid_at r d i) (sid_at r d j) = Some (map (sid_at r d) [i..<j + 1])"
  using assms
proof (induction "j + 1 - i" arbitrary: i)
  case 0
  then have "i = j + 1" by simp
  moreover have "sid_at r d j < sid_at r d (j + 1)" using 0 by (subst sid_at_less) auto
  ultimately show ?case by (subst need_create.simps) simp
next
  case (Suc n)
  then have "i \<le> j" by simp
  then have "\<not> sid_at r d j < sid_at r d i" using Suc.prems by (subst sid_at_less) auto
  moreover have "need_create (sid_at r d (i + 1)) (sid_at r d j) = Some (map (sid_at r d) [i + 1..<j + 1])"
    using Suc \<open>i \<le> j\<close> by (intro Suc.hyps(1)) auto
  ultimately show ?case
    using \<open>i \<le> j\<close> Suc.prems by (subst need_create.simps) (simp add: next_sid_at upt_rec [of i])
qed

section \<open>Local allocation\<close>

lemma poll_alloc_spec:
  assumes "ls_max s d < 2 ^ 62"
  shows "poll_alloc_sid w d s =
    (let i = ls_unallocated s d
     in if MAX_STREAMS_LIMIT < i then Some (Ready None, s)
        else if i < ls_max s d then
          Some (Ready (Some (sid_at (ls_role s) d i)), s\<lparr>ls_unallocated := (ls_unallocated s)(d := i + 1)\<rparr>)
        else Some (Pending, s\<lparr>ls_wakers := (ls_wakers s)(d := ls_wakers s d @ [w]),
                 ls_blocked := ls_blocked s @ [StreamsBlocked d (ls_max s d)]\<rparr>))"
  using assms by (auto simp: poll_alloc_sid_def Let_def sid_new_at from_u64_def not_less)

lemma raise_max_streams_fields [simp]:
  "ls_max (raise_max_streams d v s) d = max (ls_max s d) v"
  "ls_unallocated (raise_max_streams d v s) = ls_unallocated s"
  "ls_role (raise_max_streams d v s) = ls_role s"
  by (auto simp: raise_max_streams_def)

section \<open>Remote acceptance\<close>

text \<open>
  The identifiers of one direction are created in order: \<open>next\<close> is the number of the next one. A limit
  stays below \<open>2 ^ 60\<close>, so that identifiers do not overflow.
\<close>

definition remote_ok :: "dir \<Rightarrow> nat \<Rightarrow> 'c remote_sids \<Rightarrow> bool" where
  "remote_ok d next s \<longleftrightarrow> rs_unallocated s d = sid_at (rs_role s) d next \<and> next \<le> 2 ^ 60"

lemma adopt_limit_fields:
  assumes "adopt_limit d answer s = Some s'"
  shows "rs_role s' = rs_role s" "rs_unallocated s' = rs_unallocated s"
  using assms by (auto simp: adopt_limit_def split: prod.splits option.splits)

text \<open>What a sequence of frames of the peer creates, in order; errors create nothing.\<close>

fun accept_all :: "'c concurrency \<Rightarrow> (64 word) list \<Rightarrow> 'c remote_sids \<Rightarrow> ((64 word) list \<times> 'c remote_sids) option" where
  "accept_all cc [] s = Some ([], s)"
| "accept_all cc (sid # sids) s =
     Option.bind (try_accept_sid cc sid s) (\<lambda>(res, s).
     Option.bind (case res of Inr (NewSid start last_sid) \<Rightarrow> need_create start last_sid | _ \<Rightarrow> Some []) (\<lambda>created.
     map_option (apfst ((@) created)) (accept_all cc sids s)))"

lemma try_accept_cases:
  assumes "try_accept_sid cc sid s = Some (res, s')"
  obtains (Refused) "rs_max s (sid_dir sid) < sid_id sid" "res = Inl (sid, rs_max s (sid_dir sid))" "s' = s"
    | (Old) "sid_id sid \<le> rs_max s (sid_dir sid)" "sid < rs_unallocated s (sid_dir sid)" "res = Inr OldSid" "s' = s"
    | (New) answer where "sid_id sid \<le> rs_max s (sid_dir sid)" "\<not> sid < rs_unallocated s (sid_dir sid)"
      "res = Inr (NewSid (rs_unallocated s (sid_dir sid)) sid)"
      "cc_on_accept cc (sid_dir sid) (sid_id sid) (rs_ctrl s) = Some answer"
      "adopt_limit (sid_dir sid) answer
         (s\<lparr>rs_unallocated := (rs_unallocated s)(sid_dir sid := next_unchecked sid)\<rparr>) = Some s'"
proof (cases "rs_max s (sid_dir sid) < sid_id sid")
  case True
  then have "res = Inl (sid, rs_max s (sid_dir sid))" "s' = s"
    using assms by (auto simp: try_accept_sid_def Let_def split: if_splits)
  with True show ?thesis by (rule Refused)
next
  case le: False
  show ?thesis
  proof (cases "sid < rs_unallocated s (sid_dir sid)")
    case True
    then have "res = Inr OldSid" "s' = s"
      using assms le by (auto simp: try_accept_sid_def Let_def split: if_splits)
    then show ?thesis using le True by (intro Old) simp_all
  next
    case False
    then obtain answer where "cc_on_accept cc (sid_dir sid) (sid_id sid) (rs_ctrl s) = Some answer"
      "adopt_limit (sid_dir sid) answer
         (s\<lparr>rs_unallocated := (rs_unallocated s)(sid_dir sid := next_unchecked sid)\<rparr>) = Some s'"
      "res = Inr (NewSid (rs_unallocated s (sid_dir sid)) sid)"
      using assms le by (auto simp: try_accept_sid_def Let_def bind_eq_Some_conv split: if_splits)
    then show ?thesis using le False by (intro New) simp_all
  qed
qed

lemma try_accept_role: "try_accept_sid cc sid s = Some (res, s') \<Longrightarrow> sid_role sid = rs_role s"
  by (simp add: try_accept_sid_def Let_def split: if_splits)

lemma try_accept_step:
  assumes ok: "\<forall>d. remote_ok d (next d) s" and lim: "\<forall>d. rs_max s d < 2 ^ 60"
    and acc: "try_accept_sid cc sid s = Some (res, s')"
  shows "\<exists>m. next (sid_dir sid) \<le> m \<and> (\<forall>d. remote_ok d ((next(sid_dir sid := m)) d) s') \<and> rs_role s' = rs_role s \<and>
    (case res of Inr (NewSid start last_sid) \<Rightarrow> need_create start last_sid | _ \<Rightarrow> Some []) =
      Some (map (sid_at (rs_role s) (sid_dir sid)) [next (sid_dir sid)..<m])"
proof -
  define d i where "d = sid_dir sid" and "i = sid_id sid"
  have role: "sid_role sid = rs_role s" by (rule try_accept_role [OF acc])
  have sid: "sid = sid_at (rs_role s) d i" using sid_at_id role by (simp add: d_def i_def)
  have cur: "rs_unallocated s d = sid_at (rs_role s) d (next d)" "next d \<le> 2 ^ 60" using ok by (auto simp: remote_ok_def)
  from acc show ?thesis
  proof (cases rule: try_accept_cases)
    case Refused
    then show ?thesis using ok by (intro exI [of _ "next d"]) (auto simp: d_def [symmetric])
  next
    case Old
    then show ?thesis using ok by (intro exI [of _ "next d"]) (auto simp: d_def [symmetric])
  next
    case (New answer)
    have i: "i < 2 ^ 60" using New(1) lim le_less_trans unfolding i_def by blast
    have new: "rs_unallocated s' = (rs_unallocated s)(d := next_unchecked sid)" "rs_role s' = rs_role s"
      using adopt_limit_fields [OF New(5)] by (simp_all add: d_def)
    have "next d \<le> i" using i New(2) [folded d_def] cur sid_at_less [of i "next d" "rs_role s" d] by (simp add: sid [symmetric])
    moreover have "need_create (rs_unallocated s d) sid = Some (map (sid_at (rs_role s) d) [next d..<i + 1])"
      using need_create_range [of "next d" i "rs_role s" d] \<open>next d \<le> i\<close> i cur(1) sid by simp
    moreover have "next_unchecked sid = sid_at (rs_role s) d (i + 1)"
      using next_sid_at [OF i] sid by simp
    ultimately show ?thesis
      using ok new i New(3) by (intro exI [of _ "i + 1"]) (auto simp: remote_ok_def d_def [symmetric])
  qed
qed

lemma try_accept_limit:
  assumes "try_accept_sid cc sid s = Some (res, s')" and "\<forall>d. rs_max s d < 2 ^ 60"
    and "\<forall>d i c v c'. cc_on_accept cc d i c = Some (Some v, c') \<longrightarrow> v < 2 ^ 60"
  shows "\<forall>d. rs_max s' d < 2 ^ 60"
  using assms(1)
proof (cases rule: try_accept_cases)
  case (New answer)
  then show ?thesis
    using assms(2) assms(3) [rule_format, of "sid_dir sid" "sid_id sid" "rs_ctrl s"]
    by (auto simp: adopt_limit_def split: prod.splits option.splits)
qed (use assms(2) in auto)

lemma accept_all_created:
  assumes "accept_all cc sids s = Some (created, s')" and "\<forall>d. remote_ok d (next d) s" and "\<forall>d. rs_max s d < 2 ^ 60"
    and grants: "\<forall>d i c v c'. cc_on_accept cc d i c = Some (Some v, c') \<longrightarrow> v < 2 ^ 60"
  shows "\<exists>next'. (\<forall>d. next d \<le> next' d \<and> remote_ok d (next' d) s' \<and>
      filter (\<lambda>sid. sid_dir sid = d) created = map (sid_at (rs_role s) d) [next d..<next' d])"
  using assms(1-3)
proof (induction sids arbitrary: s created "next")
  case Nil
  then show ?case by (intro exI [of _ "next"]) auto
next
  case (Cons sid sids)
  let ?d = "sid_dir sid"
  obtain res t new rest where acc: "try_accept_sid cc sid s = Some (res, t)"
    "(case res of Inr (NewSid start last_sid) \<Rightarrow> need_create start last_sid | _ \<Rightarrow> Some []) = Some new"
    "accept_all cc sids t = Some (rest, s')" "created = new @ rest"
    using Cons.prems(1) by (auto simp: bind_eq_Some_conv)
  obtain m where m: "next ?d \<le> m" "\<forall>d. remote_ok d ((next(?d := m)) d) t" "rs_role t = rs_role s"
    "new = map (sid_at (rs_role s) ?d) [next ?d..<m]"
    using try_accept_step [OF Cons.prems(2,3) acc(1)] acc(2) by auto
  have lim: "\<forall>d. rs_max t d < 2 ^ 60"
    by (rule try_accept_limit [OF acc(1) Cons.prems(3)]) (rule grants)
  obtain next' where n: "\<forall>d. (next(?d := m)) d \<le> next' d \<and> remote_ok d (next' d) s' \<and>
      filter (\<lambda>sid. sid_dir sid = d) rest = map (sid_at (rs_role t) d) [(next(?d := m)) d..<next' d]"
    using Cons.IH [OF acc(3) m(2) lim] by blast
  have "m \<le> 2 ^ 60" using m(2) [rule_format, of ?d] by (simp add: remote_ok_def)
  then have dir: "sid_dir (sid_at (rs_role s) ?d i) = ?d" if "i < m" for i
    using that by (intro sid_at_fields) simp
  have "next d \<le> next' d \<and> remote_ok d (next' d) s' \<and>
      filter (\<lambda>sid. sid_dir sid = d) created = map (sid_at (rs_role s) d) [next d..<next' d]" for d
  proof (cases "d = ?d")
    case True
    have "filter (\<lambda>sid. sid_dir sid = d) new = new"
      using dir True unfolding m(4) by (auto simp: filter_map o_def intro!: filter_True)
    moreover have "[next d..<next' d] = [next d..<m] @ [m..<next' d]"
      using m(1) n True by (metis fun_upd_same le_Suc_ex upt_add_eq_append)
    ultimately show ?thesis using n [rule_format, of d] m True acc(4) by simp
  next
    case False
    have "filter (\<lambda>sid. sid_dir sid = d) new = []"
      using dir False unfolding m(4) by (auto simp: filter_empty_conv)
    then show ?thesis using n [rule_format, of d] m(3) False acc(4) by simp
  qed
  then show ?case by blast
qed

lemma new_remote_ok:
  assumes "new_remote_sids r bi uni c = Some s"
  shows "\<forall>d. remote_ok d 0 s" "rs_role s = r" "rs_max s = per_dir bi uni" "rs_ctrl s = c" "rs_max_tx s = []"
  using assms by (auto simp: new_remote_sids_def remote_ok_def per_dir_def sid_new_at MAX_STREAMS_LIMIT_def
      split: dir.splits)

section \<open>Opening streams against the peer's limit\<close>

definition sid_uses :: "local_sids \<Rightarrow> local_sids \<Rightarrow> bool" where
  "sid_uses s s' \<longleftrightarrow> (\<exists>w d x. poll_alloc_sid w d s = Some (x, s'))"

definition sid_grants :: "consistent_state remote_sids \<Rightarrow> consistent_state remote_sids \<Rightarrow> bool" where
  "sid_grants r r' \<longleftrightarrow> rs_ctrl r = rs_max r \<and>
     ((\<exists>sid res. try_accept_sid consistent sid r = Some (res, r')) \<or>
      (\<exists>sid. on_end_of_stream consistent sid r = Some r') \<or>
      (\<exists>f. recv_streams_blocked_frame consistent f r = Some r'))"

abbreviation max_streams_adverts :: "dir \<Rightarrow> 'c remote_sids \<Rightarrow> nat set" where
  "max_streams_adverts d r \<equiv> {v. MaxStreams d v \<in> set (rs_max_tx r)}"

lemma sid_uses_fields:
  assumes "poll_alloc_sid w d s = Some (x, s')"
  shows "ls_max s' = ls_max s \<and> ls_role s' = ls_role s \<and>
    (ls_unallocated s' = ls_unallocated s \<and> (\<forall>sid. x \<noteq> Ready (Some sid)) \<or>
     ls_unallocated s d < ls_max s d \<and> ls_unallocated s d \<le> MAX_STREAMS_LIMIT \<and>
     ls_unallocated s' = (ls_unallocated s)(d := ls_unallocated s d + 1) \<and>
     x = Ready (Some (sid_at (ls_role s) d (ls_unallocated s d))))"
  using assms by (auto simp: poll_alloc_sid_def Let_def sid_new_at from_u64_def not_less split: if_splits)

lemma sid_grants_cases:
  assumes "sid_grants r r'"
  obtains "rs_max r' = rs_max r" "rs_max_tx r' = rs_max_tx r" "rs_ctrl r' = rs_ctrl r" "rs_role r' = rs_role r"
    | d where "rs_max r' = (rs_max r)(d := rs_max r d + 1)" "rs_max_tx r' = rs_max_tx r @ [MaxStreams d (rs_max r d + 1)]"
      "rs_ctrl r' = rs_max r'" "rs_role r' = rs_role r"
proof -
  have sync: "rs_ctrl r = rs_max r" using assms by (simp add: sid_grants_def)
  consider sid res where "try_accept_sid consistent sid r = Some (res, r')"
    | sid where "on_end_of_stream consistent sid r = Some r'"
    | f where "recv_streams_blocked_frame consistent f r = Some r'"
    using assms by (auto simp: sid_grants_def)
  then have "(rs_max r' = rs_max r \<and> rs_max_tx r' = rs_max_tx r \<and> rs_ctrl r' = rs_ctrl r \<and> rs_role r' = rs_role r) \<or>
    (\<exists>d. rs_max r' = (rs_max r)(d := rs_max r d + 1) \<and> rs_max_tx r' = rs_max_tx r @ [MaxStreams d (rs_max r d + 1)] \<and>
      rs_ctrl r' = rs_max r' \<and> rs_role r' = rs_role r)"
  proof cases
    case (1 sid res)
    then show ?thesis
      by (cases rule: try_accept_cases) (auto simp: consistent_def consistent_on_accept_def adopt_limit_def)
  next
    case (2 sid)
    then show ?thesis
      using sync by (auto simp: on_end_of_stream_def consistent_def consistent_on_end_def adopt_limit_def
          from_u64_def rust_std bind_eq_Some_conv split: if_splits)
  next
    case (3 f)
    then show ?thesis
      by (auto simp: recv_streams_blocked_frame_def consistent_def consistent_on_blocked_def adopt_limit_def
          split: prod.splits)
  qed
  then show ?thesis using that by blast
qed

interpretation sl: limit_protocol "\<lambda>s. ls_unallocated s d" "\<lambda>s. ls_max s d" "raise_max_streams d" sid_uses
  "\<lambda>r. rs_max r d" "max_streams_adverts d" sid_grants for d
proof unfold_locales
  show "ls_max s' d = ls_max s d" if "sid_uses s s'" for s s'
    using that by (auto simp: sid_uses_def dest!: sid_uses_fields)
  show "ls_unallocated s' d \<le> ls_max s d" if "sid_uses s s'" "ls_unallocated s d \<le> ls_max s d" for s s'
    using that by (fastforce simp: sid_uses_def dest!: sid_uses_fields)
  show "rs_max r d \<le> rs_max r' d" if "sid_grants r r'" for r r'
    using that by (cases rule: sid_grants_cases) auto
  show "v \<in> max_streams_adverts d r \<or> v \<le> rs_max r' d" if "sid_grants r r'" "v \<in> max_streams_adverts d r'" for r r' v
    using that by (cases rule: sid_grants_cases) auto
qed simp_all

record sid_sys =
  si_local :: local_sids
  si_opened :: "(64 word) list"
  si_remote :: "consistent_state remote_sids"

inductive sid_reach :: "role \<Rightarrow> nat \<Rightarrow> nat \<Rightarrow> sid_sys \<Rightarrow> bool" for r bi uni where
  Init: "new_remote_sids r bi uni (consistent_new bi uni) = Some s \<Longrightarrow>
    sid_reach r bi uni \<lparr>si_local = new_local_sids r bi uni [], si_opened = [], si_remote = s\<rparr>"
| Open: "sid_reach r bi uni x \<Longrightarrow> poll_alloc_sid w d (si_local x) = Some (res, s) \<Longrightarrow>
    sid_reach r bi uni (x\<lparr>si_local := s,
      si_opened := si_opened x @ (case res of Ready (Some sid) \<Rightarrow> [sid] | _ \<Rightarrow> [])\<rparr>)"
| Learn: "sid_reach r bi uni x \<Longrightarrow> MaxStreams d v \<in> set (rs_max_tx (si_remote x)) \<Longrightarrow>
    recv_max_streams_frame (d, v) (si_local x) = Some s \<Longrightarrow> sid_reach r bi uni (x\<lparr>si_local := s\<rparr>)"
| Frame: "sid_reach r bi uni x \<Longrightarrow> sid \<in> set (si_opened x) \<Longrightarrow>
    try_accept_sid consistent sid (si_remote x) = Some (res, s) \<Longrightarrow> sid_reach r bi uni (x\<lparr>si_remote := s\<rparr>)"
| End: "sid_reach r bi uni x \<Longrightarrow> on_end_of_stream consistent sid (si_remote x) = Some s \<Longrightarrow>
    sid_reach r bi uni (x\<lparr>si_remote := s\<rparr>)"
| Blocked: "sid_reach r bi uni x \<Longrightarrow> recv_streams_blocked_frame consistent f (si_remote x) = Some s \<Longrightarrow>
    sid_reach r bi uni (x\<lparr>si_remote := s\<rparr>)"

definition sid_inv :: "role \<Rightarrow> sid_sys \<Rightarrow> bool" where
  "sid_inv r x \<longleftrightarrow>
     ls_role (si_local x) = r \<and> rs_role (si_remote x) = r \<and> rs_ctrl (si_remote x) = rs_max (si_remote x) \<and>
     (\<forall>d. sl.conforms d (si_local x) (si_remote x)) \<and>
     (\<forall>d. filter (\<lambda>sid. sid_dir sid = d) (si_opened x) = map (sid_at r d) [0..<ls_unallocated (si_local x) d] \<and>
       ls_unallocated (si_local x) d \<le> MAX_STREAMS_LIMIT + 1)"

lemma sid_inv_remote:
  assumes "sid_inv r x" and "sid_grants (si_remote x) s"
  shows "sid_inv r (x\<lparr>si_remote := s\<rparr>)"
  using assms(2) assms(1) sl.conforms_advertise [OF _ assms(2)]
  by (cases rule: sid_grants_cases) (auto simp: sid_inv_def)

lemma sid_reach_inv: "sid_reach r bi uni x \<Longrightarrow> sid_inv r x"
proof (induction rule: sid_reach.induct)
  case (Init s)
  then show ?case
    using new_remote_ok [OF Init]
    by (auto simp: sid_inv_def new_local_sids_def sl.conforms_def consistent_new_def per_dir_def split: dir.splits)
next
  case (Open x w d res s)
  note f = sid_uses_fields [OF Open.hyps(2)]
  have "sl.conforms d' s (si_remote x)" for d'
    using sl.conforms_use [of d' "si_local x" "si_remote x" s] Open by (auto simp: sid_inv_def sid_uses_def)
  moreover have "sid_dir (sid_at r d (ls_unallocated (si_local x) d)) = d"
    if "ls_unallocated (si_local x) d \<le> MAX_STREAMS_LIMIT"
    using that by (intro sid_at_fields) (simp add: MAX_STREAMS_LIMIT_def)
  ultimately show ?case
    using f Open.IH by (fastforce simp: sid_inv_def split: poll.splits option.splits)
next
  case (Learn x d v s)
  have s: "s = raise_max_streams d v (si_local x)"
    using Learn.hyps(3) by (auto simp: recv_max_streams_frame_def increase_sid_limit_def split: if_splits)
  have "sl.conforms d' s (si_remote x)" for d'
    using sl.conforms_learn [of d "si_local x" "si_remote x" v] Learn.hyps(2) Learn.IH s
    by (cases "d' = d") (auto simp: sid_inv_def sl.conforms_def raise_max_streams_def)
  then show ?case using Learn.IH s by (simp add: sid_inv_def)
next
  case (Frame x sid res s)
  then show ?case by (intro sid_inv_remote) (auto simp: sid_inv_def sid_grants_def)
next
  case (End x sid s)
  then show ?case by (intro sid_inv_remote) (auto simp: sid_inv_def sid_grants_def)
next
  case (Blocked x f s)
  then show ?case by (intro sid_inv_remote) (auto simp: sid_inv_def sid_grants_def simp del: split_paired_Ex)
qed

section \<open>Examples\<close>

definition sample_sids :: sid_sys where
  "sample_sids =
     \<lparr>si_local = \<lparr>ls_role = Client, ls_max = per_dir 2 0, ls_unallocated = (per_dir 0 0)(Bi := 1), ls_wakers = per_dir [] [],
        ls_blocked = [], ls_tx_wakers = [], ls_woken = []\<rparr>,
      si_opened = [0],
      si_remote = \<lparr>rs_role = Client, rs_max = per_dir 2 0, rs_unallocated = per_dir 0 2, rs_ctrl = per_dir 2 0,
        rs_max_tx = []\<rparr>\<rparr>"

lemma sample_remote_sids:
  "new_remote_sids Client 2 0 c = Some \<lparr>rs_role = Client, rs_max = per_dir 2 0, rs_unallocated = per_dir 0 2,
     rs_ctrl = c, rs_max_tx = []\<rparr>"
  by (simp add: new_remote_sids_def sid_new_def MAX_STREAMS_LIMIT_def)

lemma sample_sids_reach: "sid_reach Client 2 0 sample_sids"
  using sid_reach.Open [OF sid_reach.Init [OF sample_remote_sids], of 7 Bi "Ready (Some 0)"]
  by (simp add: poll_alloc_sid_def new_local_sids_def per_dir_def sid_new_def MAX_STREAMS_LIMIT_def
      sample_sids_def consistent_new_def)

section \<open>Properties\<close>

text \<open>
  C9. Whatever frames of the peer arrive in whatever order, with gaps and repetitions, the streams of
  each direction are created exactly once, in order and without gaps: stream 0, 1, 2 and so on.
\<close>

theorem streams_created_in_order:
  assumes "new_remote_sids r bi uni c = Some s" and "bi < 2 ^ 60" and "uni < 2 ^ 60"
    and "\<forall>d i c v c'. cc_on_accept cc d i c = Some (Some v, c') \<longrightarrow> v < 2 ^ 60"
    and "accept_all cc sids s = Some (created, s')"
  shows "\<exists>n. filter (\<lambda>sid. sid_dir sid = d) created = map (sid_at r d) [0..<n]"
proof -
  note n = new_remote_ok [OF assms(1)]
  have "\<forall>d. rs_max s d < 2 ^ 60" using assms(2,3) n(3) by (simp add: per_dir_def split: dir.split)
  then obtain next' where "\<forall>d. filter (\<lambda>sid. sid_dir sid = d) created = map (sid_at (rs_role s) d) [0..<next' d]"
    using accept_all_created [OF assms(5) n(1) _ assms(4)] by blast
  then show ?thesis using n(2) by blast
qed

theorem streams_created_in_order_witness:
  "\<exists>n. filter (\<lambda>sid. sid_dir sid = Bi) [0, 4, 8] = map (sid_at Client Bi) [0..<n]"
proof -
  let ?s = "\<lparr>rs_role = Client, rs_max = per_dir 2 0, rs_unallocated = per_dir (0 :: 64 word) 2, rs_ctrl = (),
     rs_max_tx = []\<rparr>"
  have "need_create 0 8 = Some [0, 4, 8]"
    by (simp add: need_create.simps [of 0] need_create.simps [of 4] need_create.simps [of 8]
        need_create.simps [of 12] next_unchecked_def)
  then have "accept_all demand [8, 4] ?s = Some ([0, 4, 8], ?s\<lparr>rs_unallocated := (per_dir 0 2)(Bi := 12)\<rparr>)"
    by (simp add: try_accept_sid_def demand_def demand_on_accept_def adopt_limit_def sid_role_def sid_dir_def
        sid_id_def per_dir_def next_unchecked_def)
  from streams_created_in_order [OF sample_remote_sids [of "()"] _ _ _ this, of Bi] show ?thesis
    by (simp add: demand_def demand_on_accept_def)
qed



text \<open>
  C32. The check of the peer's limit is one too weak: a peer that may open \<open>bi\<close> bidirectional streams, with the numbers
  below \<open>bi\<close>, can open the one with the number \<open>bi\<close> as well.
\<close>

theorem stream_limit_off_by_one:
  assumes "new_remote_sids r bi uni c = Some s" and "bi < 2 ^ 60"
    and "\<And>d i c. cc_on_accept cc d i c = Some (None, c)"
  shows "\<exists>s'. try_accept_sid cc (sid_at r Bi bi) s = Some (Inr (NewSid (sid_at r Bi 0) (sid_at r Bi bi)), s')"
proof -
  note n = new_remote_ok [OF assms(1)]
  have "\<not> sid_at r Bi bi < sid_at r Bi 0" using sid_at_less [of bi 0 r Bi] assms(2) by simp
  moreover have "rs_unallocated s Bi = sid_at r Bi 0" using n(1,2) by (simp add: remote_ok_def)
  ultimately show ?thesis
    using n(2,3) assms(2,3) sid_at_fields [of bi r Bi]
    by (simp add: try_accept_sid_def Let_def per_dir_def adopt_limit_def)
qed

theorem stream_limit_off_by_one_witness:
  "\<exists>s'. try_accept_sid demand 8 \<lparr>rs_role = Client, rs_max = per_dir 2 0, rs_unallocated = per_dir 0 2, rs_ctrl = (),
     rs_max_tx = []\<rparr> = Some (Inr (NewSid 0 8), s')"
  using stream_limit_off_by_one [OF sample_remote_sids [of "()"], of demand]
  by (simp add: demand_def demand_on_accept_def sid_at_def)

end
