(* ===== verification/Recver.thy ===== *)
theory Recver
  imports Recv_Buf Frame Wakers
begin

text \<open>
  The receiving part of a stream: the state machine of \<open>qrecovery/src/recv/recver.rs\<close>, driven by the protocol
  through \<open>Incoming\<close> (\<open>recv/incoming.rs\<close>) and by the application through \<open>Reader\<close> (\<open>recv/reader.rs\<close>). A handler returns its
  result, the new state, the control frames handed to the broker and the wakers it wakes; \<open>None\<close> is a panic (or a
  receive loop that does not end). A connection error is a value of the type parameter. The qlog events are left out.
\<close>

section \<open>The states\<close>

record recv_st =
  rv_stream_id :: "64 word"
  rv_rcvbuf :: recv_buf
  rv_read_waker :: "waker option"
  rv_stop_state :: "nat option"
  rv_largest :: nat
  rv_max_stream_data :: nat

record size_known =
  sk_stream_id :: "64 word"
  sk_rcvbuf :: recv_buf
  sk_read_waker :: "waker option"
  sk_stop_state :: "nat option"
  sk_final_size :: nat

record data_rcvd =
  dr_stream_id :: "64 word"
  dr_rcvbuf :: recv_buf

record reset_stream_error =
  re_app_err :: nat
  re_final_size :: nat

definition reset_error_of :: "reset_stream_frame \<Rightarrow> reset_stream_error" where
  "reset_error_of f = \<lparr>re_app_err = rs_app_err f, re_final_size = rs_final_size f\<rparr>"

datatype recver =
    Recv recv_st
  | SizeKnown size_known
  | DataRcvd data_rcvd
  | ResetRcvd reset_stream_frame
  | DataRead
  | ResetRead reset_stream_error

definition final_size_error :: "frame_type \<Rightarrow> quic_error" where
  "final_size_error ft = \<lparr>qe_kind = FinalSize, qe_frame_type = V1Frame ft\<rparr>"

definition flow_control_error :: "frame_type \<Rightarrow> quic_error" where
  "flow_control_error ft = \<lparr>qe_kind = FlowControl, qe_frame_type = V1Frame ft\<rparr>"

definition is_fin :: "stream_frame \<Rightarrow> bool" where
  "is_fin f \<longleftrightarrow> sf_fin_bit f = Yes"

section \<open>\<open>Recv\<close>\<close>

definition new_recv :: "64 word \<Rightarrow> nat \<Rightarrow> recv_st" where
  "new_recv sid buf_size =
     \<lparr>rv_stream_id = sid, rv_rcvbuf = empty_buf, rv_read_waker = None, rv_stop_state = None, rv_largest = 0,
      rv_max_stream_data = buf_size\<rparr>"

text \<open>The window update after a read: the new limit and its MAX_STREAM_DATA frame.\<close>

definition update_window :: "recv_st \<Rightarrow> recv_st \<times> stream_ctl_frame list" where
  "update_window r =
     (let threshold = 1000000; n = nread (rv_rcvbuf r)
      in if rv_max_stream_data r < n + threshold then
           (let m = min (n + threshold * 2) VARINT_MAX
            in if rv_max_stream_data r < m
               then (r\<lparr>rv_max_stream_data := m\<rparr>, [MaxStreamData \<lparr>msd_stream_id = rv_stream_id r, msd_max = m\<rparr>])
               else (r, []))
         else (r, []))"

definition recv_poll_read :: "waker \<Rightarrow> nat \<Rightarrow> recv_st \<Rightarrow> byte list poll \<times> recv_st \<times> stream_ctl_frame list" where
  "recv_poll_read w room r =
     (if \<not> is_readable (rv_rcvbuf r) then (Pending, r\<lparr>rv_read_waker := Some w\<rparr>, [])
      else
        (let (out, b) = try_read room (rv_rcvbuf r)
         in (Ready out, update_window (r\<lparr>rv_rcvbuf := b\<rparr>))))"

definition recv_poll_next ::
  "waker \<Rightarrow> recv_st \<Rightarrow> (byte list poll \<times> recv_st \<times> stream_ctl_frame list) option" where
  "recv_poll_next w r =
     (if \<not> is_readable (rv_rcvbuf r) then Some (Pending, r\<lparr>rv_read_waker := Some w\<rparr>, [])
      else
        (case try_next (rv_rcvbuf r) of
           (None, _) \<Rightarrow> None
         | (Some data, b) \<Rightarrow> Some (Ready data, update_window (r\<lparr>rv_rcvbuf := b\<rparr>))))"

definition recv_stop :: "nat \<Rightarrow> recv_st \<Rightarrow> (recv_st \<times> stream_ctl_frame list) option" where
  "recv_stop err_code r =
     (case rv_stop_state r of
        Some _ \<Rightarrow> Some (r, [])
      | None \<Rightarrow>
          map_option (\<lambda>v. (r\<lparr>rv_stop_state := Some err_code\<rparr>,
              [StopSending \<lparr>ss_stream_id = rv_stream_id r, ss_app_err = v\<rparr>])) (from_u64 err_code))"

definition recv_wake_reader :: "recv_st \<Rightarrow> recv_st \<times> waker list" where
  "recv_wake_reader r =
     (case rv_read_waker r of Some w \<Rightarrow> (r\<lparr>rv_read_waker := None\<rparr>, [w]) | None \<Rightarrow> (r, []))"

definition determin_size :: "stream_frame \<Rightarrow> recv_st \<Rightarrow> (quic_error + size_known) \<times> recv_st \<times> waker list" where
  "determin_size f r =
     (let (r, woken) = recv_wake_reader r;
          final_size = sf_offset f + sf_length f
      in if final_size < largest_offset (rv_rcvbuf r) then (Inl (final_size_error (stream_type f)), r, woken)
         else
           (Inr \<lparr>sk_stream_id = rv_stream_id r, sk_rcvbuf = rv_rcvbuf r, sk_read_waker = rv_read_waker r,
               sk_stop_state = rv_stop_state r, sk_final_size = final_size\<rparr>,
            r\<lparr>rv_rcvbuf := empty_buf, rv_stop_state := None, rv_read_waker := None\<rparr>, woken))"

definition recv_frame ::
  "stream_frame \<Rightarrow> byte list \<Rightarrow> recv_st \<Rightarrow> ((quic_error + nat) \<times> recv_st \<times> waker list) option" where
  "recv_frame f body r =
     (let data_start = sf_offset f; data_end = data_start + length body
      in if rv_max_stream_data r < data_end then Some (Inl (flow_control_error (stream_type f)), r, [])
         else
           map_option (\<lambda>(fresh, b).
             let r = r\<lparr>rv_rcvbuf := b, rv_largest := max (rv_largest r) data_end\<rparr>;
                 (r, woken) = (if is_readable b then recv_wake_reader r else (r, []))
             in (Inr fresh, r, woken)) (recv data_start body (rv_rcvbuf r)))"

definition recv_recv_reset :: "reset_stream_frame \<Rightarrow> recv_st \<Rightarrow> (quic_error + nat) \<times> recv_st \<times> waker list" where
  "recv_recv_reset f r =
     (if rs_final_size f < rv_largest r then (Inl (final_size_error TResetStream), r, [])
      else (Inr (rs_final_size f - rv_largest r), recv_wake_reader r))"

section \<open>\<open>SizeKnown\<close>\<close>

definition sk_wake_reader :: "size_known \<Rightarrow> size_known \<times> waker list" where
  "sk_wake_reader r =
     (case sk_read_waker r of Some w \<Rightarrow> (r\<lparr>sk_read_waker := None\<rparr>, [w]) | None \<Rightarrow> (r, []))"

definition sk_recv ::
  "stream_frame \<Rightarrow> byte list \<Rightarrow> size_known \<Rightarrow> ((quic_error + nat) \<times> size_known \<times> waker list) option" where
  "sk_recv f data r =
     (let data_start = sf_offset f; data_end = data_start + length data
      in if sk_final_size r < data_end then Some (Inl (final_size_error (stream_type f)), r, [])
         else if is_fin f \<and> data_end \<noteq> sk_final_size r then Some (Inl (final_size_error (stream_type f)), r, [])
         else
           map_option (\<lambda>(fresh, b).
             let r = r\<lparr>sk_rcvbuf := b\<rparr>;
                 (r, woken) = (if is_readable b then sk_wake_reader r else (r, []))
             in (Inr fresh, r, woken)) (recv data_start data (sk_rcvbuf r)))"

definition sk_is_all_rcvd :: "size_known \<Rightarrow> bool" where
  "sk_is_all_rcvd r \<longleftrightarrow> nread (sk_rcvbuf r) + available (sk_rcvbuf r) = sk_final_size r"

definition sk_poll_read :: "waker \<Rightarrow> nat \<Rightarrow> size_known \<Rightarrow> byte list poll \<times> size_known" where
  "sk_poll_read w room r =
     (if \<not> is_readable (sk_rcvbuf r) then (Pending, r\<lparr>sk_read_waker := Some w\<rparr>)
      else (let (out, b) = try_read room (sk_rcvbuf r) in (Ready out, r\<lparr>sk_rcvbuf := b\<rparr>)))"

definition sk_poll_next :: "waker \<Rightarrow> size_known \<Rightarrow> (byte list poll \<times> size_known) option" where
  "sk_poll_next w r =
     (if \<not> is_readable (sk_rcvbuf r) then Some (Pending, r\<lparr>sk_read_waker := Some w\<rparr>)
      else
        (case try_next (sk_rcvbuf r) of
           (None, _) \<Rightarrow> None
         | (Some data, b) \<Rightarrow> Some (Ready data, r\<lparr>sk_rcvbuf := b\<rparr>)))"

definition sk_recv_reset :: "reset_stream_frame \<Rightarrow> size_known \<Rightarrow> (quic_error + unit) \<times> size_known \<times> waker list" where
  "sk_recv_reset f r =
     (if rs_final_size f \<noteq> sk_final_size r then (Inl (final_size_error TResetStream), r, [])
      else (Inr (), sk_wake_reader r))"

definition sk_stop :: "nat \<Rightarrow> size_known \<Rightarrow> (size_known \<times> stream_ctl_frame list) option" where
  "sk_stop err_code r =
     (case sk_stop_state r of
        Some _ \<Rightarrow> Some (r, [])
      | None \<Rightarrow>
          map_option (\<lambda>v. (r\<lparr>sk_stop_state := Some err_code\<rparr>,
              [StopSending \<lparr>ss_stream_id = sk_stream_id r, ss_app_err = v\<rparr>])) (from_u64 err_code))"

definition sk_upgrade :: "size_known \<Rightarrow> data_rcvd \<times> waker list" where
  "sk_upgrade r =
     (let (r, woken) = sk_wake_reader r
      in (\<lparr>dr_stream_id = sk_stream_id r, dr_rcvbuf = sk_rcvbuf r\<rparr>, woken))"

section \<open>\<open>DataRcvd\<close>\<close>

definition dr_poll_read :: "nat \<Rightarrow> data_rcvd \<Rightarrow> byte list \<times> data_rcvd" where
  "dr_poll_read room r = (let (out, b) = try_read room (dr_rcvbuf r) in (out, r\<lparr>dr_rcvbuf := b\<rparr>))"

definition dr_poll_next :: "data_rcvd \<Rightarrow> byte list option \<times> data_rcvd" where
  "dr_poll_next r = (let (out, b) = try_next (dr_rcvbuf r) in (out, r\<lparr>dr_rcvbuf := b\<rparr>))"

definition is_all_read :: "data_rcvd \<Rightarrow> bool" where
  "is_all_read r \<longleftrightarrow> Recv_Buf.is_empty (dr_rcvbuf r)"

section \<open>The protocol's handle: \<open>Incoming\<close>\<close>

type_synonym 'e arc_recver = "'e + recver"

definition new_recver :: "64 word \<Rightarrow> nat \<Rightarrow> 'e arc_recver" where
  "new_recver sid buf_size = Inr (Recv (new_recv sid buf_size))"

text \<open>The step from \<open>SizeKnown\<close> to \<open>DataRcvd\<close> that ends both branches of \<open>recv_data\<close>.\<close>

definition settle :: "size_known \<Rightarrow> bool \<times> recver \<times> waker list" where
  "settle sk =
     (if sk_is_all_rcvd sk then (let (d, woken) = sk_upgrade sk in (True, DataRcvd d, woken))
      else (False, SizeKnown sk, []))"

definition incoming_recv_data ::
  "stream_frame \<Rightarrow> byte list \<Rightarrow> 'e arc_recver \<Rightarrow> ((quic_error + bool \<times> nat) \<times> 'e arc_recver \<times> waker list) option" where
  "incoming_recv_data f body s =
     (case s of
        Inr (Recv r) \<Rightarrow>
          if is_fin f then
            (case determin_size f r of
               (Inl e, r, woken) \<Rightarrow> Some (Inl e, Inr (Recv r), woken)
             | (Inr sk, r, woken) \<Rightarrow>
                 map_option (\<lambda>(res, sk, woken').
                   case res of
                     Inl e \<Rightarrow> (Inl e, Inr (Recv r), woken @ woken')
                   | Inr fresh \<Rightarrow>
                       (let (done, st, woken'') = settle sk
                        in (Inr (done, fresh), Inr st, woken @ woken' @ woken''))) (sk_recv f body sk))
          else
            map_option (\<lambda>(res, r, woken). (map_sum id (Pair False) res, Inr (Recv r), woken)) (recv_frame f body r)
      | Inr (SizeKnown sk) \<Rightarrow>
          map_option (\<lambda>(res, sk, woken).
            case res of
              Inl e \<Rightarrow> (Inl e, Inr (SizeKnown sk), woken)
            | Inr fresh \<Rightarrow>
                (let (done, st, woken') = settle sk in (Inr (done, fresh), Inr st, woken @ woken'))) (sk_recv f body sk)
      | _ \<Rightarrow> Some (Inr (False, 0), s, []))"

definition incoming_recv_reset ::
  "reset_stream_frame \<Rightarrow> 'e arc_recver \<Rightarrow> ((quic_error + nat) \<times> 'e arc_recver \<times> waker list) option" where
  "incoming_recv_reset f s =
     (case s of
        Inl _ \<Rightarrow> Some (Inr 0, s, [])
      | Inr (Recv r) \<Rightarrow>
          (case recv_recv_reset f r of
             (Inl e, r, woken) \<Rightarrow> Some (Inl e, Inr (Recv r), woken)
           | (Inr fresh, _, woken) \<Rightarrow> Some (Inr fresh, Inr (ResetRcvd f), woken))
      | Inr (SizeKnown sk) \<Rightarrow>
          (case sk_recv_reset f sk of
             (Inl e, sk, woken) \<Rightarrow> Some (Inl e, Inr (SizeKnown sk), woken)
           | (Inr _, _, woken) \<Rightarrow> Some (Inr 0, Inr (ResetRcvd f), woken))
      | _ \<Rightarrow> None)"

definition incoming_on_error :: "'e \<Rightarrow> 'e arc_recver \<Rightarrow> 'e arc_recver \<times> waker list" where
  "incoming_on_error err s =
     (case s of
        Inr (Recv r) \<Rightarrow> (Inl err, snd (recv_wake_reader r))
      | Inr (SizeKnown sk) \<Rightarrow> (Inl err, snd (sk_wake_reader sk))
      | _ \<Rightarrow> (s, []))"

section \<open>The application's handle: \<open>Reader\<close>\<close>

datatype 'e stream_error = Connection 'e | Reset reset_stream_error | Finished

definition reader_poll_read ::
  "waker \<Rightarrow> nat \<Rightarrow> 'e arc_recver \<Rightarrow> ('e stream_error + byte list) poll \<times> 'e arc_recver \<times> stream_ctl_frame list" where
  "reader_poll_read w room s =
     (case s of
        Inl e \<Rightarrow> (Ready (Inl (Connection e)), s, [])
      | Inr (Recv r) \<Rightarrow>
          (let (res, r, frames) = recv_poll_read w room r in (map_poll Inr res, Inr (Recv r), frames))
      | Inr (SizeKnown sk) \<Rightarrow>
          (let (res, sk) = sk_poll_read w room sk in (map_poll Inr res, Inr (SizeKnown sk), []))
      | Inr (DataRcvd d) \<Rightarrow>
          (let (out, d) = dr_poll_read room d
           in (Ready (Inr out), Inr (if is_all_read d then DataRead else DataRcvd d), []))
      | Inr DataRead \<Rightarrow> (Ready (Inr []), s, [])
      | Inr (ResetRcvd f) \<Rightarrow>
          (Ready (Inl (Reset (reset_error_of f))), Inr (ResetRead (reset_error_of f)), [])
      | Inr (ResetRead e) \<Rightarrow> (Ready (Inl (Reset e)), s, []))"

definition reader_poll_next ::
  "waker \<Rightarrow> 'e arc_recver \<Rightarrow>
     (('e stream_error + byte list) option poll \<times> 'e arc_recver \<times> stream_ctl_frame list) option" where
  "reader_poll_next w s =
     (case s of
        Inl e \<Rightarrow> Some (Ready (Some (Inl (Connection e))), s, [])
      | Inr (Recv r) \<Rightarrow>
          map_option (\<lambda>(res, r, frames). (map_poll (Some \<circ> Inr) res, Inr (Recv r), frames)) (recv_poll_next w r)
      | Inr (SizeKnown sk) \<Rightarrow>
          map_option (\<lambda>(res, sk). (map_poll (Some \<circ> Inr) res, Inr (SizeKnown sk), [])) (sk_poll_next w sk)
      | Inr (DataRcvd d) \<Rightarrow>
          (case dr_poll_next d of
             (None, d) \<Rightarrow> Some (Ready None, Inr (DataRcvd d), [])
           | (Some data, d) \<Rightarrow>
               Some (Ready (Some (Inr data)), Inr (if is_all_read d then DataRead else DataRcvd d), []))
      | Inr DataRead \<Rightarrow> Some (Ready None, s, [])
      | Inr (ResetRcvd f) \<Rightarrow>
          Some (Ready (Some (Inl (Reset (reset_error_of f)))), Inr (ResetRead (reset_error_of f)), [])
      | Inr (ResetRead e) \<Rightarrow> Some (Ready (Some (Inl (Reset e))), s, []))"

definition reader_stop :: "nat \<Rightarrow> 'e arc_recver \<Rightarrow> ('e arc_recver \<times> stream_ctl_frame list) option" where
  "reader_stop error_code s =
     (case s of
        Inr (Recv r) \<Rightarrow> map_option (apfst (Inr \<circ> Recv)) (recv_stop error_code r)
      | Inr (SizeKnown sk) \<Rightarrow> map_option (apfst (Inr \<circ> SizeKnown)) (sk_stop error_code sk)
      | _ \<Rightarrow> Some (s, []))"

section \<open>One stream, its frames and its reader\<close>

text \<open>
  \<open>W\<close> is what the peer sends on the stream. A frame carries a slice of it, and the FIN bit only at its end.
\<close>

definition stream_part :: "byte list \<Rightarrow> stream_frame \<Rightarrow> byte list \<Rightarrow> bool" where
  "stream_part W f body \<longleftrightarrow> slice_of W (sf_offset f) body \<and> sf_length f = length body \<and>
     (is_fin f \<longrightarrow> sf_offset f + length body = length W)"

inductive reading :: "byte list \<Rightarrow> 'e arc_recver \<Rightarrow> byte list \<Rightarrow> bool" for W where
  Start: "reading W (new_recver sid buf_size) []"
| Frame: "reading W s out \<Longrightarrow> stream_part W f body \<Longrightarrow> incoming_recv_data f body s = Some (res, s', woken) \<Longrightarrow>
    reading W s' out"
| Read: "reading W s out \<Longrightarrow> reader_poll_read w room s = (res, s', frames) \<Longrightarrow>
    reading W s' (out @ (case res of Ready (Inr bs) \<Rightarrow> bs | _ \<Rightarrow> []))"
| Next: "reading W s out \<Longrightarrow> reader_poll_next w s = Some (res, s', frames) \<Longrightarrow>
    reading W s' (out @ (case res of Ready (Some (Inr bs)) \<Rightarrow> bs | _ \<Rightarrow> []))"
| Stop: "reading W s out \<Longrightarrow> reader_stop err s = Some (s', frames) \<Longrightarrow> reading W s' out"
| Reset: "reading W s out \<Longrightarrow> incoming_recv_reset f s = Some (res, s', woken) \<Longrightarrow> reading W s' out"
| Error: "reading W s out \<Longrightarrow> incoming_on_error e s = (s', woken) \<Longrightarrow> reading W s' out"

section \<open>The invariant\<close>

definition buf_view :: "byte list \<Rightarrow> recv_buf \<Rightarrow> byte list \<Rightarrow> bool" where
  "buf_view W b out \<longleftrightarrow> rb.agrees W b \<and> largest_offset b \<le> length W \<and> out = take (nread b) W"

fun recver_inv :: "byte list \<Rightarrow> byte list \<Rightarrow> 'e arc_recver \<Rightarrow> bool" where
  "recver_inv W out (Inr (Recv r)) \<longleftrightarrow> buf_view W (rv_rcvbuf r) out"
| "recver_inv W out (Inr (SizeKnown sk)) \<longleftrightarrow>
     buf_view W (sk_rcvbuf sk) out \<and> sk_final_size sk = length W \<and> \<not> sk_is_all_rcvd sk"
| "recver_inv W out (Inr (DataRcvd d)) \<longleftrightarrow>
     buf_view W (dr_rcvbuf d) out \<and> nread (dr_rcvbuf d) + available (dr_rcvbuf d) = length W"
| "recver_inv W out (Inr DataRead) \<longleftrightarrow> out = W"
| "recver_inv W out _ \<longleftrightarrow> prefix out W"

lemma buf_view_prefix: "buf_view W b out \<Longrightarrow> prefix out W"
  by (auto simp: buf_view_def take_is_prefix)

lemma recver_inv_prefix: "recver_inv W out s \<Longrightarrow> prefix out W"
  by (cases "(W, out, s)" rule: recver_inv.cases) (auto dest: buf_view_prefix)

lemma buf_view_empty: "buf_view W empty_buf []"
  using rb.start_agrees(1) by (simp add: buf_view_def empty_buf_def)

lemma recv_view:
  assumes "buf_view W b out" and "slice_of W offset data"
  shows "\<exists>fresh b'. recv offset data b = Some (fresh, b') \<and> buf_view W b' out"
proof -
  have ok: "buf_ok b" using assms(1) by (simp add: buf_view_def rb.agrees_def)
  from recv_refines [OF ok, of offset data] obtain fresh b' where
    r: "recv offset data b = Some (fresh, b')" "nread b' = nread b"
    "largest_offset b' = (if data = [] then largest_offset b else max (largest_offset b) (offset + length data))"
    by blast
  moreover have "rb.agrees W b'"
    using rb.put_agrees(1) [OF _ assms(2) r(1)] assms(1) by (simp add: buf_view_def)
  ultimately show ?thesis using assms by (auto simp: buf_view_def slice_of_def)
qed

lemma try_read_view:
  assumes "buf_view W b out" and "try_read room b = (bs, b')"
  shows "buf_view W b' (out @ bs)" and "nread b' + available b' = nread b + available b"
    and "length bs = min room (available b)"
proof -
  have ok: "buf_ok b" using assms(1) by (simp add: buf_view_def rb.agrees_def)
  note s = try_read_spec [OF ok assms(2)]
  have ag: "rb.agrees W b" using assms(1) by (simp add: buf_view_def)
  note g = rb.get_agrees [OF ag assms(2)]
  show "length bs = min room (available b)" using s by simp
  have n: "nread b' = nread b + length bs" using s by simp
  have "take (nread b + length bs) W = take (nread b) W @ bs"
    using g(2) by (auto simp: slice_of_def take_add)
  then show "buf_view W b' (out @ bs)" using assms(1) g(1) s by (simp add: buf_view_def)
  have ok': "buf_ok b'" using s by simp
  have "available b' = available b - length bs"
  proof (rule antisym)
    show "available b' \<le> available b - length bs"
    proof (rule ccontr)
      assume "\<not> ?thesis"
      then have lt: "available b - length bs < available b'" by simp
      from available_run(1) [OF ok' this] have "lookup (segments b') (nread b + available b) \<noteq> None"
        using n s by (simp add: add.assoc)
      then show False using s available_run(2) [OF ok] by (auto split: if_splits)
    qed
    show "available b - length bs \<le> available b'"
    proof (rule ccontr)
      assume "\<not> ?thesis"
      then have "lookup (segments b) (nread b + (length bs + available b')) \<noteq> None"
        using available_run(1) [OF ok, of "length bs + available b'"] by simp
      then show False using available_run(2) [OF ok'] s by (auto simp: add.assoc split: if_splits)
    qed
  qed
  then show "nread b' + available b' = nread b + available b" using n s by simp
qed

lemma try_next_view:
  assumes "buf_view W b out" and "is_readable b"
  obtains bs b' where "try_next b = (Some bs, b')" "buf_view W b' (out @ bs)"
    "nread b' + available b' = nread b + available b" "bs \<noteq> []"
proof -
  have ok: "buf_ok b" using assms(1) by (simp add: buf_view_def rb.agrees_def)
  then have "available b \<noteq> 0" using available_iff_readable assms(2) by simp
  then obtain bs b' where r: "try_next b = (Some bs, b')" "bs \<noteq> []" "try_read (length bs) b = (bs, b')"
    using try_next_spec [OF ok] by auto
  from try_read_view [OF assms(1) r(3)] r show ?thesis by (intro that)
qed

lemma not_readable_available:
  "buf_view W b out \<Longrightarrow> \<not> is_readable b \<Longrightarrow> available b = 0"
  using available_iff_readable by (auto simp: buf_view_def rb.agrees_def)

lemma all_read_view:
  assumes "buf_view W b out" and "nread b + available b = length W" and "Recv_Buf.is_empty b"
  shows "out = W"
  using assms by (simp add: buf_view_def Recv_Buf.is_empty_def available_def)

section \<open>Every handler keeps the invariant\<close>

lemma recv_wake_buf [simp]:
  "rv_rcvbuf (fst (recv_wake_reader r)) = rv_rcvbuf r" "rv_max_stream_data (fst (recv_wake_reader r)) = rv_max_stream_data r"
  by (auto simp: recv_wake_reader_def split: option.splits)

lemma sk_wake_buf [simp]:
  "sk_rcvbuf (fst (sk_wake_reader r)) = sk_rcvbuf r" "sk_final_size (fst (sk_wake_reader r)) = sk_final_size r"
  by (auto simp: sk_wake_reader_def split: option.splits)

lemma update_window_buf [simp]: "rv_rcvbuf (fst (update_window r)) = rv_rcvbuf r"
  by (auto simp: update_window_def Let_def)

lemma settle_inv:
  assumes "buf_view W (sk_rcvbuf sk) out" and "sk_final_size sk = length W"
  obtains fin st woken where "settle sk = (fin, st, woken)" "recver_inv W out (Inr st)"
proof -
  let ?d = "\<lparr>dr_stream_id = sk_stream_id (fst (sk_wake_reader sk)), dr_rcvbuf = sk_rcvbuf sk\<rparr>"
  have "settle sk = (if sk_is_all_rcvd sk then (True, DataRcvd ?d, snd (sk_wake_reader sk)) else (False, SizeKnown sk, []))"
    by (simp add: settle_def sk_upgrade_def Let_def case_prod_unfold)
  moreover have "recver_inv W out (Inr (if sk_is_all_rcvd sk then DataRcvd ?d else SizeKnown sk))"
    using assms by (auto simp: sk_is_all_rcvd_def)
  ultimately show ?thesis using that by (cases "sk_is_all_rcvd sk") auto
qed

lemma sk_recv_inv:
  assumes "buf_view W (sk_rcvbuf sk) out" and "sk_final_size sk = length W" and "stream_part W f body"
  obtains fresh sk' woken where "sk_recv f body sk = Some (Inr fresh, sk', woken)"
    "buf_view W (sk_rcvbuf sk') out" "sk_final_size sk' = length W"
proof -
  from assms(3) have p: "slice_of W (sf_offset f) body" "is_fin f \<Longrightarrow> sf_offset f + length body = length W"
    "sf_offset f + length body \<le> length W"
    by (auto simp: stream_part_def slice_of_def)
  obtain fresh b where b: "recv (sf_offset f) body (sk_rcvbuf sk) = Some (fresh, b)" "buf_view W b out"
    using recv_view [OF assms(1) p(1)] by blast
  let ?sk = "if is_readable b then sk_wake_reader (sk\<lparr>sk_rcvbuf := b\<rparr>) else (sk\<lparr>sk_rcvbuf := b\<rparr>, [])"
  have "sk_recv f body sk = Some (Inr fresh, ?sk)"
    using assms(2) p b by (simp add: sk_recv_def Let_def case_prod_unfold)
  then show ?thesis using that [of fresh "fst ?sk" "snd ?sk"] b assms(2) by auto
qed

lemma recv_frame_inv:
  assumes "buf_view W (rv_rcvbuf r) out" and "slice_of W (sf_offset f) body"
  obtains res r' woken where "recv_frame f body r = Some (res, r', woken)" "buf_view W (rv_rcvbuf r') out"
    "sf_offset f + length body \<le> rv_max_stream_data r \<Longrightarrow> \<exists>fresh. res = Inr fresh"
proof -
  obtain fresh b where b: "recv (sf_offset f) body (rv_rcvbuf r) = Some (fresh, b)" "buf_view W b out"
    using recv_view [OF assms] by blast
  let ?r = "r\<lparr>rv_rcvbuf := b, rv_largest := max (rv_largest r) (sf_offset f + length body)\<rparr>"
  let ?w = "if is_readable b then recv_wake_reader ?r else (?r, [])"
  have "recv_frame f body r =
    (if rv_max_stream_data r < sf_offset f + length body then Some (Inl (flow_control_error (stream_type f)), r, [])
     else Some (Inr fresh, ?w))"
    using b by (simp add: recv_frame_def Let_def case_prod_unfold)
  then show ?thesis
    using that [of "if rv_max_stream_data r < sf_offset f + length body then Inl (flow_control_error (stream_type f)) else Inr fresh"
        "if rv_max_stream_data r < sf_offset f + length body then r else fst ?w"
        "if rv_max_stream_data r < sf_offset f + length body then [] else snd ?w"] b assms(1) by auto
qed

lemma determin_size_inv:
  assumes "buf_view W (rv_rcvbuf r) out" and "stream_part W f body" and "is_fin f"
  obtains sk r' woken where "determin_size f r = (Inr sk, r', woken)" "buf_view W (sk_rcvbuf sk) out"
    "sk_final_size sk = length W"
proof -
  have "sf_offset f + sf_length f = length W" using assms(2,3) by (simp add: stream_part_def)
  then show ?thesis
    using assms(1) that by (simp add: determin_size_def Let_def case_prod_unfold buf_view_def)
qed

lemma recv_data_inv:
  fixes s :: "'e arc_recver"
  assumes "recver_inv W out s" and "stream_part W f body"
  obtains res s' woken where "incoming_recv_data f body s = Some (res, s', woken)" "recver_inv W out s'"
    "(\<And>r. s = Inr (Recv r) \<Longrightarrow> \<not> is_fin f \<Longrightarrow> sf_offset f + length body \<le> rv_max_stream_data r) \<Longrightarrow>
       \<exists>fin fresh. res = Inr (fin, fresh)"
proof (cases "(W, out, s)" rule: recver_inv.cases)
  case (1 _ _ r)
  then have v: "buf_view W (rv_rcvbuf r) out" and s: "s = Inr (Recv r)" using assms(1) by auto
  show ?thesis
  proof (cases "is_fin f")
    case True
    obtain sk r' w1 where d: "determin_size f r = (Inr sk, r', w1)" "buf_view W (sk_rcvbuf sk) out"
      "sk_final_size sk = length W" by (rule determin_size_inv [OF v assms(2) True])
    obtain fresh sk' w2 where k: "sk_recv f body sk = Some (Inr fresh, sk', w2)" "buf_view W (sk_rcvbuf sk') out"
      "sk_final_size sk' = length W" by (rule sk_recv_inv [OF d(2,3) assms(2)])
    obtain fin st w3 where t: "settle sk' = (fin, st, w3)" "recver_inv W out (Inr st :: 'e arc_recver)" by (rule settle_inv [OF k(2,3)])
    have "incoming_recv_data f body s = Some (Inr (fin, fresh), Inr st, w1 @ w2 @ w3)"
      using True d(1) k(1) t(1) s by (simp add: incoming_recv_data_def)
    then show ?thesis using t(2) by (intro that) auto
  next
    case False
    have "slice_of W (sf_offset f) body" using assms(2) by (simp add: stream_part_def)
    from recv_frame_inv [OF v this] obtain res r' w where
      r: "recv_frame f body r = Some (res, r', w)" "buf_view W (rv_rcvbuf r') out"
      "sf_offset f + length body \<le> rv_max_stream_data r \<Longrightarrow> \<exists>fresh. res = Inr fresh" by blast
    have "incoming_recv_data f body s = Some (map_sum id (Pair False) res, Inr (Recv r'), w)"
      using False r(1) s by (simp add: incoming_recv_data_def)
    then show ?thesis using r(2,3) s False by (intro that) auto
  qed
next
  case (2 _ _ sk)
  then have v: "buf_view W (sk_rcvbuf sk) out" "sk_final_size sk = length W" and s: "s = Inr (SizeKnown sk)"
    using assms(1) by auto
  obtain fresh sk' w2 where k: "sk_recv f body sk = Some (Inr fresh, sk', w2)" "buf_view W (sk_rcvbuf sk') out"
    "sk_final_size sk' = length W" by (rule sk_recv_inv [OF v assms(2)])
  obtain fin st w3 where t: "settle sk' = (fin, st, w3)" "recver_inv W out (Inr st :: 'e arc_recver)" by (rule settle_inv [OF k(2,3)])
  have "incoming_recv_data f body s = Some (Inr (fin, fresh), Inr st, w2 @ w3)"
    using k(1) t(1) s by (simp add: incoming_recv_data_def)
  then show ?thesis using t(2) by (intro that) auto
qed (use assms(1) in \<open>auto simp: incoming_recv_data_def intro: that\<close>)

lemma poll_read_inv:
  assumes "recver_inv W out s" and "reader_poll_read w room s = (res, s', frames)"
  shows "recver_inv W (out @ (case res of Ready (Inr bs) \<Rightarrow> bs | _ \<Rightarrow> [])) s'"
proof (cases "(W, out, s)" rule: recver_inv.cases)
  case (1 _ _ r)
  then have v: "buf_view W (rv_rcvbuf r) out" and s: "s = Inr (Recv r)" using assms(1) by auto
  obtain bs b where tr: "try_read room (rv_rcvbuf r) = (bs, b)" by force
  have "recver_inv W (out @ bs) (Inr (Recv (fst (update_window (r\<lparr>rv_rcvbuf := b\<rparr>)))))"
    using try_read_view(1) [OF v tr] by simp
  then show ?thesis
    using assms(2) v s tr by (auto simp: reader_poll_read_def recv_poll_read_def case_prod_unfold split: if_splits)
next
  case (2 _ _ sk)
  then have v: "buf_view W (sk_rcvbuf sk) out" "sk_final_size sk = length W" "\<not> sk_is_all_rcvd sk" and s: "s = Inr (SizeKnown sk)"
    using assms(1) by auto
  obtain bs b where tr: "try_read room (sk_rcvbuf sk) = (bs, b)" by force
  show ?thesis
    using assms(2) v s tr try_read_view [OF v(1) tr]
    by (auto simp: reader_poll_read_def sk_poll_read_def sk_is_all_rcvd_def split: if_splits)
next
  case (3 _ _ d)
  then have v: "buf_view W (dr_rcvbuf d) out" "nread (dr_rcvbuf d) + available (dr_rcvbuf d) = length W"
    and s: "s = Inr (DataRcvd d)" using assms(1) by auto
  obtain bs b where tr: "try_read room (dr_rcvbuf d) = (bs, b)" by force
  note t = try_read_view [OF v(1) tr]
  have "out @ bs = W" if "Recv_Buf.is_empty b" using all_read_view [OF t(1) _ that] t(2) v(2) by simp
  then show ?thesis
    using assms(2) v(2) s tr t(1,2)
    by (auto simp: reader_poll_read_def dr_poll_read_def is_all_read_def split: if_splits)
qed (use assms in \<open>auto simp: reader_poll_read_def\<close>)

lemma poll_next_inv:
  assumes "recver_inv W out s" 
  obtains res s' frames where "reader_poll_next w s = Some (res, s', frames)"
    "recver_inv W (out @ (case res of Ready (Some (Inr bs)) \<Rightarrow> bs | _ \<Rightarrow> [])) s'"
proof (cases "(W, out, s)" rule: recver_inv.cases)
  case (1 _ _ r)
  then have v: "buf_view W (rv_rcvbuf r) out" and s: "s = Inr (Recv r)" using assms(1) by auto
  show ?thesis
  proof (cases "is_readable (rv_rcvbuf r)")
    case True
    obtain bs b where n: "try_next (rv_rcvbuf r) = (Some bs, b)" "buf_view W b (out @ bs)"
      by (rule try_next_view [OF v True])
    let ?u = "update_window (r\<lparr>rv_rcvbuf := b\<rparr>)"
    have "reader_poll_next w s = Some (Ready (Some (Inr bs)), Inr (Recv (fst ?u)), snd ?u)"
      using True n(1) s by (simp add: reader_poll_next_def recv_poll_next_def case_prod_unfold)
    then show ?thesis using n(2) by (intro that) auto
  next
    case False
    then show ?thesis using v s by (intro that) (auto simp: reader_poll_next_def recv_poll_next_def)
  qed
next
  case (2 _ _ sk)
  then have v: "buf_view W (sk_rcvbuf sk) out" "sk_final_size sk = length W" "\<not> sk_is_all_rcvd sk" and s: "s = Inr (SizeKnown sk)"
    using assms(1) by auto
  show ?thesis
  proof (cases "is_readable (sk_rcvbuf sk)")
    case True
    obtain bs b where n: "try_next (sk_rcvbuf sk) = (Some bs, b)" "buf_view W b (out @ bs)"
      "nread b + available b = nread (sk_rcvbuf sk) + available (sk_rcvbuf sk)"
      by (rule try_next_view [OF v(1) True])
    have "reader_poll_next w s = Some (Ready (Some (Inr bs)), Inr (SizeKnown (sk\<lparr>sk_rcvbuf := b\<rparr>)), [])"
      using True n(1) s by (simp add: reader_poll_next_def sk_poll_next_def)
    then show ?thesis using n(2,3) v by (intro that) (auto simp: sk_is_all_rcvd_def)
  next
    case False
    then show ?thesis using v s
      by (intro that) (auto simp: reader_poll_next_def sk_poll_next_def sk_is_all_rcvd_def)
  qed
next
  case (3 _ _ d)
  then have v: "buf_view W (dr_rcvbuf d) out" "nread (dr_rcvbuf d) + available (dr_rcvbuf d) = length W"
    and s: "s = Inr (DataRcvd d)" using assms(1) by auto
  show ?thesis
  proof (cases "is_readable (dr_rcvbuf d)")
    case True
    obtain bs b where n: "try_next (dr_rcvbuf d) = (Some bs, b)" "buf_view W b (out @ bs)"
      "nread b + available b = nread (dr_rcvbuf d) + available (dr_rcvbuf d)"
      by (rule try_next_view [OF v(1) True])
    have "reader_poll_next w s = Some (Ready (Some (Inr bs)),
        Inr (if Recv_Buf.is_empty b then DataRead else DataRcvd (d\<lparr>dr_rcvbuf := b\<rparr>)), [])"
      using n(1) s by (simp add: reader_poll_next_def dr_poll_next_def is_all_read_def)
    moreover have "out @ bs = W" if "Recv_Buf.is_empty b" using all_read_view [OF n(2) _ that] n(3) v(2) by simp
    ultimately show ?thesis using n(2,3) v(2) by (intro that) auto
  next
    case False
    then show ?thesis using v s
      by (intro that) (auto simp: reader_poll_next_def dr_poll_next_def try_next_def)
  qed
qed (use assms in \<open>auto simp: reader_poll_next_def intro: that\<close>)

lemma reader_stop_inv: "recver_inv W out s \<Longrightarrow> reader_stop err s = Some (s', frames) \<Longrightarrow> recver_inv W out s'"
  by (cases "(W, out, s)" rule: recver_inv.cases)
    (auto simp: reader_stop_def recv_stop_def sk_stop_def sk_is_all_rcvd_def from_u64_def split: option.splits if_splits)

lemma recv_reset_inv:
  "recver_inv W out s \<Longrightarrow> incoming_recv_reset f s = Some (res, s', woken) \<Longrightarrow> recver_inv W out s'"
  by (cases "(W, out, s)" rule: recver_inv.cases)
    (auto simp: incoming_recv_reset_def recv_recv_reset_def sk_recv_reset_def case_prod_unfold
      dest: buf_view_prefix split: if_splits)

lemma on_error_inv: "recver_inv W out s \<Longrightarrow> incoming_on_error e s = (s', woken) \<Longrightarrow> recver_inv W out s'"
  by (cases "(W, out, s)" rule: recver_inv.cases) (auto simp: incoming_on_error_def dest: buf_view_prefix)

lemma reading_inv: "reading W s out \<Longrightarrow> recver_inv W out s"
proof (induction rule: reading.induct)
  case (Start sid buf_size)
  show ?case by (simp add: new_recver_def new_recv_def buf_view_empty)
next
  case (Frame s out f body res s' woken)
  obtain res2 s2 w2 where "incoming_recv_data f body s = Some (res2, s2, w2)" "recver_inv W out s2"
    by (rule recv_data_inv [OF Frame.IH Frame.hyps(2)])
  then show ?case using Frame.hyps(3) by simp
next
  case (Read s out w room res s' frames)
  then show ?case using poll_read_inv by blast
next
  case (Next s out w res s' frames)
  obtain res2 s2 f2 where "reader_poll_next w s = Some (res2, s2, f2)"
    "recver_inv W (out @ (case res2 of Ready (Some (Inr bs)) \<Rightarrow> bs | _ \<Rightarrow> [])) s2"
    by (rule poll_next_inv [OF Next.IH, of w])
  then show ?case using Next.hyps(2) by simp
qed (blast intro: reader_stop_inv recv_reset_inv on_error_inv)+

section \<open>Examples\<close>

text \<open>A stream of three bytes: the last one with FIN first, then a read, then the other two.\<close>

definition sample_fin :: stream_frame where
  "sample_fin = \<lparr>sf_id = 4, sf_offset = 2, sf_length = 1, sf_len_bit = Explicit, sf_fin_bit = Yes\<rparr>"

definition sample_head :: stream_frame where
  "sample_head = \<lparr>sf_id = 4, sf_offset = 0, sf_length = 2, sf_len_bit = Explicit, sf_fin_bit = No\<rparr>"

definition sample_size_known :: "unit arc_recver" where
  "sample_size_known = Inr (SizeKnown \<lparr>sk_stream_id = 4, sk_rcvbuf =
     \<lparr>nread = 0, largest_offset = 3, segments = [\<lparr>seg_offset = 2, seg_data = [7]\<rparr>]\<rparr>, sk_read_waker = None,
     sk_stop_state = None, sk_final_size = 3\<rparr>)"

definition sample_data_rcvd :: "unit arc_recver" where
  "sample_data_rcvd = Inr (DataRcvd \<lparr>dr_stream_id = 4, dr_rcvbuf =
     \<lparr>nread = 0, largest_offset = 3, segments = [\<lparr>seg_offset = 0, seg_data = [5, 6]\<rparr>, \<lparr>seg_offset = 2, seg_data = [7]\<rparr>]\<rparr>\<rparr>)"

lemmas recver_eval =
  incoming_recv_data_def new_recver_def new_recv_def determin_size_def recv_wake_reader_def sk_recv_def settle_def
  sk_is_all_rcvd_def sk_upgrade_def sk_wake_reader_def is_fin_def recv_def recv_loop.simps recv_step_def
  binary_search_by_key_def partition_point_def empty_buf_def is_readable_def available_def seg_end_def vec_insert_def

lemma sample_size_known_step:
  "incoming_recv_data sample_fin [7] (new_recver 4 100) = Some (Inr (False, 3), sample_size_known, [])"
  by (simp add: sample_fin_def sample_size_known_def recver_eval)

lemma sample_data_rcvd_step:
  "incoming_recv_data sample_head [5, 6] sample_size_known = Some (Inr (True, 0), sample_data_rcvd, [])"
  by (simp add: sample_head_def sample_size_known_def sample_data_rcvd_def recver_eval)

lemma sample_reading:
  "reading [5, 6, 7] sample_size_known []" "reading [5, 6, 7] sample_data_rcvd []"
proof -
  have "stream_part [5, 6, 7] sample_fin [7]"
    by (simp add: stream_part_def sample_fin_def slice_of_def)
  then show k: "reading [5, 6, 7] sample_size_known []"
    using reading.Frame [OF reading.Start _ sample_size_known_step] by simp
  have "stream_part [5, 6, 7] sample_head [5, 6]"
    by (simp add: stream_part_def sample_head_def slice_of_def is_fin_def)
  then show "reading [5, 6, 7] sample_data_rcvd []"
    using reading.Frame [OF k _ sample_data_rcvd_step] by simp
qed

section \<open>Properties\<close>

text \<open>
  C2. Whatever frames of the stream arrive in whatever order, and whatever the reader, resets,
  stops and connection errors do in between, what the application has read is a prefix of the
  stream; and a read into a buffer with room answers \<open>end of stream\<close> (no bytes) only when the whole
  stream was read.
\<close>

theorem stream_eof_only_when_complete:
  assumes "reading W s out" and "0 < room" and "reader_poll_read w room s = (res, s', frames)"
  shows "prefix out W \<and> (res = Ready (Inr []) \<longrightarrow> out = W)"
proof -
  have inv: "recver_inv W out s" by (rule reading_inv [OF assms(1)])
  have "out = W" if r: "res = Ready (Inr [])"
  proof (cases "(W, out, s)" rule: recver_inv.cases)
    case (1 _ _ st)
    then have v: "buf_view W (rv_rcvbuf st) out" using inv by auto
    obtain bs b where tr: "try_read room (rv_rcvbuf st) = (bs, b)" by force
    from 1 r assms(3) tr have "is_readable (rv_rcvbuf st)" "bs = []"
      by (auto simp: reader_poll_read_def recv_poll_read_def case_prod_unfold split: if_splits)
    with try_read_view(3) [OF v tr] assms(2) v available_iff_readable show ?thesis
      by (auto simp: buf_view_def rb.agrees_def)
  next
    case (2 _ _ sk)
    then have v: "buf_view W (sk_rcvbuf sk) out" using inv by auto
    obtain bs b where tr: "try_read room (sk_rcvbuf sk) = (bs, b)" by force
    from 2 r assms(3) tr have "is_readable (sk_rcvbuf sk)" "bs = []"
      by (auto simp: reader_poll_read_def sk_poll_read_def case_prod_unfold split: if_splits)
    with try_read_view(3) [OF v tr] assms(2) v available_iff_readable show ?thesis
      by (auto simp: buf_view_def rb.agrees_def)
  next
    case (3 _ _ d)
    then have v: "buf_view W (dr_rcvbuf d) out" "nread (dr_rcvbuf d) + available (dr_rcvbuf d) = length W"
      using inv by auto
    obtain bs b where tr: "try_read room (dr_rcvbuf d) = (bs, b)" by force
    from 3 r assms(3) tr have "bs = []" by (auto simp: reader_poll_read_def dr_poll_read_def)
    with try_read_view(3) [OF v(1) tr] assms(2) v show ?thesis by (auto simp: buf_view_def)
  qed (use inv r assms(3) in \<open>auto simp: reader_poll_read_def\<close>)
  then show ?thesis using recver_inv_prefix [OF inv] by blast
qed

theorem stream_eof_only_when_complete_witness:
  "\<exists>res s' frames. reader_poll_read 1 8 sample_size_known = (res, s', frames) \<and> prefix [] [5, 6, 7 :: byte] \<and>
     res \<noteq> Ready (Inr [])"
proof -
  obtain res s' frames where r: "reader_poll_read 1 8 sample_size_known = (res, s', frames)" by (metis prod_cases3)
  from stream_eof_only_when_complete [OF sample_reading(1) _ r] r show ?thesis by auto
qed

text \<open>
  C33. A peer that keeps to the stream and to its limit is never accused: its frames are processed
  without panic, without FLOW_CONTROL_ERROR and without FINAL_SIZE_ERROR, in every state, after FIN and
  after every reordering.
\<close>

theorem conforming_frames_accepted:
  assumes "reading W s out" and "stream_part W f body"
    and "\<And>r. s = Inr (Recv r) \<Longrightarrow> \<not> is_fin f \<Longrightarrow> sf_offset f + length body \<le> rv_max_stream_data r"
  shows "\<exists>fin fresh s' woken. incoming_recv_data f body s = Some (Inr (fin, fresh), s', woken)"
proof -
  obtain res s' woken where "incoming_recv_data f body s = Some (res, s', woken)" "\<exists>fin fresh. res = Inr (fin, fresh)"
    by (rule recv_data_inv [OF reading_inv [OF assms(1)] assms(2)]) (use assms(3) in blast)
  then show ?thesis by auto
qed

theorem conforming_frames_accepted_witness:
  "\<exists>fin fresh s' woken. incoming_recv_data sample_head [5, 6] sample_size_known = Some (Inr (fin, fresh), s', woken)"
  using conforming_frames_accepted [OF sample_reading(1), of sample_head "[5, 6]"]
  by (simp add: stream_part_def sample_head_def slice_of_def is_fin_def sample_size_known_def)

text \<open>
  C34. Nothing is lost: once the FIN is known, as long as the stream is not complete some byte of it is really missing,
  and when it is complete one read with enough room returns all the rest and closes the stream.
\<close>

theorem complete_stream_is_delivered:
  assumes "reading W s out"
  shows "case s of
      Inr (SizeKnown sk) \<Rightarrow> (\<exists>p < length W. \<not> rb.has (sk_rcvbuf sk) p)
    | Inr (DataRcvd d) \<Rightarrow> (\<forall>w room. length W \<le> room \<longrightarrow>
        (\<exists>bs. reader_poll_read w room s = (Ready (Inr bs), Inr DataRead, []) \<and> out @ bs = W))
    | _ \<Rightarrow> True"
proof (cases "(W, out, s)" rule: recver_inv.cases)
  case (2 _ _ sk)
  have inv: "buf_view W (sk_rcvbuf sk) out" "sk_final_size sk = length W" "\<not> sk_is_all_rcvd sk"
    using reading_inv [OF assms] 2 by auto
  let ?b = "sk_rcvbuf sk"
  have ok: "buf_ok ?b" and ag: "rb.agrees W ?b" using inv(1) by (auto simp: buf_view_def rb.agrees_def)
  have "nread ?b + available ?b < length W"
  proof (rule ccontr)
    assume "\<not> ?thesis"
    then have ge: "length W < nread ?b + available ?b" using inv(2,3) by (simp add: sk_is_all_rcvd_def)
    then have "0 < available ?b" using ag by (cases "available ?b") (auto simp: rb.agrees_def)
    then have "lookup (segments ?b) (nread ?b + (available ?b - 1)) \<noteq> None" by (intro available_run(1) [OF ok]) simp
    then obtain y where "lookup (segments ?b) (nread ?b + (available ?b - 1)) = Some y" by auto
    then have "nread ?b + (available ?b - 1) < length W" using ag unfolding rb.agrees_def by blast
    then show False using ge by linarith
  qed
  moreover have "\<not> rb.has ?b (nread ?b + available ?b)" using available_run(2) [OF ok] by (simp add: rb.has_def)
  ultimately show ?thesis using 2 by auto
next
  case (3 _ _ d)
  have inv: "buf_view W (dr_rcvbuf d) out" "nread (dr_rcvbuf d) + available (dr_rcvbuf d) = length W"
    using reading_inv [OF assms] 3 by auto
  have "\<exists>bs. reader_poll_read w room s = (Ready (Inr bs), Inr DataRead, []) \<and> out @ bs = W"
    if "length W \<le> room" for w room
  proof -
    obtain bs b where tr: "try_read room (dr_rcvbuf d) = (bs, b)" by force
    note v = try_read_view [OF inv(1) tr]
    have ok: "buf_ok b" using v(1) by (simp add: buf_view_def rb.agrees_def)
    have n: "nread b = length W" using v(1,3) inv that try_read_spec [OF _ tr]
      by (auto simp: buf_view_def rb.agrees_def)
    have "segments b = []"
    proof (rule ccontr)
      assume "segments b \<noteq> []"
      then obtain g gs where g: "segments b = g # gs" by (cases "segments b") auto
      then have "nread b \<le> seg_offset g" "seg_data g \<noteq> []" using ok by (auto simp: buf_ok_def segs_ok_Cons)
      then have "lookup (segments b) (seg_offset g) \<noteq> None" using g by (simp add: seg_end_def)
      then show False using v(1) n \<open>nread b \<le> seg_offset g\<close> by (fastforce simp: buf_view_def rb.agrees_def)
    qed
    moreover have "out @ bs = W" using v(1) n by (simp add: buf_view_def)
    ultimately show ?thesis
      using 3 tr by (simp add: reader_poll_read_def dr_poll_read_def is_all_read_def Recv_Buf.is_empty_def)
  qed
  then show ?thesis using 3 by simp
qed simp_all

theorem complete_stream_is_delivered_witness:
  "\<exists>bs. reader_poll_read 1 3 sample_data_rcvd = (Ready (Inr bs), Inr DataRead, []) \<and> [] @ bs = [5, 6, 7]"
  using complete_stream_is_delivered [OF sample_reading(2)] by (simp add: sample_data_rcvd_def)



text \<open>
  C36. The stream's own limit is not applied to a frame that carries FIN: a receiver with any limit \<open>n\<close> takes \<open>n + 1\<close>
  bytes in one such frame, which without FIN it refuses with FLOW_CONTROL_ERROR.
\<close>

theorem fin_escapes_stream_limit:
  assumes "length body = n + 1" and "sf_offset f = 0" and "sf_length f = n + 1" and "is_fin f"
  shows "(\<exists>fin fresh s woken. incoming_recv_data f body (new_recver sid n :: 'e arc_recver) = Some (Inr (fin, fresh), Inr s, woken)) \<and>
    incoming_recv_data (f\<lparr>sf_fin_bit := No\<rparr>) body (new_recver sid n :: 'e arc_recver) =
      Some (Inl (flow_control_error (stream_type (f\<lparr>sf_fin_bit := No\<rparr>))), new_recver sid n, [])"
proof
  have p: "stream_part body f body" using assms by (simp add: stream_part_def slice_of_def)
  let ?r = "new_recv sid n"
  have v: "buf_view body (rv_rcvbuf ?r) []" by (simp add: new_recv_def buf_view_empty)
  obtain sk r' w1 where d: "determin_size f ?r = (Inr sk, r', w1)" "buf_view body (sk_rcvbuf sk) []"
    "sk_final_size sk = length body" by (rule determin_size_inv [OF v p assms(4)])
  obtain fresh sk' w2 where k: "sk_recv f body sk = Some (Inr fresh, sk', w2)" by (rule sk_recv_inv [OF d(2,3) p])
  show "\<exists>fin fresh s woken. incoming_recv_data f body (new_recver sid n :: 'e arc_recver) = Some (Inr (fin, fresh), Inr s, woken)"
    using d(1) k assms(4) by (auto simp: incoming_recv_data_def new_recver_def Let_def case_prod_unfold)
  show "incoming_recv_data (f\<lparr>sf_fin_bit := No\<rparr>) body (new_recver sid n :: 'e arc_recver) =
      Some (Inl (flow_control_error (stream_type (f\<lparr>sf_fin_bit := No\<rparr>))), new_recver sid n, [])"
    using assms by (simp add: incoming_recv_data_def new_recver_def new_recv_def recv_frame_def is_fin_def)
qed

theorem fin_escapes_stream_limit_witness:
  "\<exists>fin fresh s woken. incoming_recv_data (sample_fin\<lparr>sf_offset := 0\<rparr>) [7] (new_recver 4 0 :: unit arc_recver) =
     Some (Inr (fin, fresh), Inr s, woken)"
  using fin_escapes_stream_limit [of "[7]" 0 "sample_fin\<lparr>sf_offset := 0\<rparr>" 4, where ?'e = unit]
  by (simp add: sample_fin_def is_fin_def)

end
