(* ===== verification/Packet_Buffer.thy ===== *)
theory Packet_Buffer
  imports Packet_Frames Packet_Number Wakers
begin

text \<open>
  Assembling a packet, \<open>qbase/src/packet/assemble.rs\<close>: a packet buffer bounds what may be written by the datagram, by the
  congestion credit and by the tag that sealing appends, keeps the metadata of the packet and the recovery
  descriptors of its frames; sources of frames are polled in the order of their priority.

  A buffer \<open>B\<close> is its content and its room, as in \<open>Wire\<close>. A poll that fails with an error returns \<open>Ready (Inl e)\<close>; \<open>None\<close>
  is a panic of a writer.
\<close>

section \<open>Recovery descriptors\<close>

datatype reliable_frame =
    RNewToken "byte list"
  | RNewConnectionId new_connection_id_frame
  | RRetireConnectionId nat
  | RHandshakeDone
  | RAddAddress add_address_frame
  | RRemoveAddress nat
  | RPunchMeNow punch_me_now_frame
  | RPunchDone punch_done_frame
  | RStreamCtl stream_ctl_frame

datatype guaranteed_frame = GStream stream_frame | GCrypto crypto_frame | GReliable reliable_frame

fun guaranteed_of :: "frame \<Rightarrow> guaranteed_frame option" where
  "guaranteed_of (Stream f _) = Some (GStream f)"
| "guaranteed_of (Crypto f _) = Some (GCrypto f)"
| "guaranteed_of (NewToken t) = Some (GReliable (RNewToken t))"
| "guaranteed_of (NewConnectionId f) = Some (GReliable (RNewConnectionId f))"
| "guaranteed_of (RetireConnectionId s) = Some (GReliable (RRetireConnectionId s))"
| "guaranteed_of HandshakeDone = Some (GReliable RHandshakeDone)"
| "guaranteed_of (AddAddress f) = Some (GReliable (RAddAddress f))"
| "guaranteed_of (RemoveAddress s) = Some (GReliable (RRemoveAddress s))"
| "guaranteed_of (PunchMeNow f) = Some (GReliable (RPunchMeNow f))"
| "guaranteed_of (PunchDone f) = Some (GReliable (RPunchDone f))"
| "guaranteed_of (StreamCtl f) = Some (GReliable (RStreamCtl f))"
| "guaranteed_of _ = None"

fun frame_of_reliable :: "reliable_frame \<Rightarrow> frame" where
  "frame_of_reliable (RNewToken t) = NewToken t"
| "frame_of_reliable (RNewConnectionId f) = NewConnectionId f"
| "frame_of_reliable (RRetireConnectionId s) = RetireConnectionId s"
| "frame_of_reliable RHandshakeDone = HandshakeDone"
| "frame_of_reliable (RAddAddress f) = AddAddress f"
| "frame_of_reliable (RRemoveAddress s) = RemoveAddress s"
| "frame_of_reliable (RPunchMeNow f) = PunchMeNow f"
| "frame_of_reliable (RPunchDone f) = PunchDone f"
| "frame_of_reliable (RStreamCtl f) = StreamCtl f"

section \<open>Metadata\<close>

datatype epoch = EpochInitial | EpochHandshake | EpochData

definition epoch_of_type :: "packet_type \<Rightarrow> epoch option" where
  "epoch_of_type p =
     (case p of
        V1 Initial \<Rightarrow> Some EpochInitial
      | V1 Handshake \<Rightarrow> Some EpochHandshake
      | V1 ZeroRtt \<Rightarrow> Some EpochData
      | OneRtt _ \<Rightarrow> Some EpochData
      | _ \<Rightarrow> None)"

record metadata =
  md_pn :: nat
  md_pktlen :: nat
  md_pktype :: packet_type
  md_nframes :: nat
  md_content :: packet_content
  md_in_flight :: bool
  md_ack :: "nat option"

definition md_epoch :: "metadata \<Rightarrow> epoch option" where
  "md_epoch m = epoch_of_type (md_pktype m)"

definition new_metadata :: "packet_type \<Rightarrow> metadata" where
  "new_metadata p = \<lparr>md_pn = 0, md_pktlen = 0, md_pktype = p, md_nframes = 0, md_content = NonAckElicitingContent,
     md_in_flight = False, md_ack = None\<rparr>"

definition cc_free :: "frame_type \<Rightarrow> bool" where
  "cc_free ft \<longleftrightarrow> contain_spec (frame_specs ft) CongestionControlFree"

definition md_record :: "frame \<Rightarrow> metadata \<Rightarrow> metadata" where
  "md_record f m =
     (let ty = type_of_frame f;
          m = m\<lparr>md_nframes := md_nframes m + 1, md_content := add_type (md_content m) ty,
                md_in_flight := (md_in_flight m \<or> \<not> cc_free ty)\<rparr>
      in case f of
           Ack a \<Rightarrow> m\<lparr>md_ack := Some (case md_ack m of None \<Rightarrow> ack_largest a | Some l \<Rightarrow> max l (ack_largest a))\<rparr>
         | _ \<Rightarrow> m)"

section \<open>The packet buffer\<close>

record packet_buffer =
  pb_buffer :: buffer
  pb_credit :: nat
  pb_frames :: "guaranteed_frame list"
  pb_tag_len :: nat
  pb_nwrote :: nat
  pb_end :: nat
  pb_meta :: metadata
  pb_min_size :: nat
  pb_validation_min_size :: nat
  pb_pn_offset :: nat
  pb_finished :: bool

definition saturating_add :: "nat \<Rightarrow> nat \<Rightarrow> nat" where
  "saturating_add a b = min (a + b) (2 ^ 64 - 1)"

definition new_packet_buffer ::
  "buffer \<Rightarrow> nat \<Rightarrow> guaranteed_frame list \<Rightarrow> packet_type \<Rightarrow> nat \<Rightarrow> nat \<Rightarrow> packet_buffer" where
  "new_packet_buffer buf credit frames p nwrote tag_len =
     \<lparr>pb_buffer = buf, pb_credit = credit, pb_frames = frames, pb_tag_len = tag_len, pb_nwrote = nwrote,
      pb_end = saturating_add nwrote (snd buf) - tag_len, pb_meta = new_metadata p, pb_min_size = 0,
      pb_validation_min_size = 0, pb_pn_offset = 0, pb_finished = False\<rparr>"

definition scope :: "nat \<Rightarrow> packet_buffer \<Rightarrow> packet_buffer" where
  "scope n b = b\<lparr>pb_validation_min_size := n\<rparr>"

definition pb_remaining :: "packet_buffer \<Rightarrow> nat" where
  "pb_remaining b = min (pb_end b - pb_nwrote b) (snd (pb_buffer b))"

text \<open>Writing through the buffer: a writer sees the room that is left, and what it writes advances both buffers.\<close>

definition pb_write :: "writer \<Rightarrow> packet_buffer \<Rightarrow> packet_buffer option" where
  "pb_write w b =
     map_option (\<lambda>(s, _). b\<lparr>pb_buffer := (fst (pb_buffer b) @ s, snd (pb_buffer b) - length s),
                          pb_nwrote := pb_nwrote b + length s\<rparr>)
       (w ([], pb_remaining b))"

text \<open>What \<open>begin\<close> uses of a header: its size, its type and its writer.\<close>

record header_ops =
  hd_size :: nat
  hd_type :: packet_type
  hd_put :: writer

definition is_long :: "packet_type \<Rightarrow> bool" where
  "is_long p \<longleftrightarrow> (case p of OneRtt _ \<Rightarrow> False | _ \<Rightarrow> True)"

definition pb_begin :: "header_ops \<Rightarrow> packet_number \<Rightarrow> packet_buffer \<Rightarrow> (bool \<times> packet_buffer) option" where
  "pb_begin h pn b =
     (let long = is_long (hd_type h);
          b = b\<lparr>pb_meta := (pb_meta b)\<lparr>md_pktype := hd_type h\<rparr>,
                pb_pn_offset := hd_size h + (if long then 2 else 0)\<rparr>;
          b = b\<lparr>pb_min_size := pb_pn_offset b + 4 + 16\<rparr>
      in if pb_remaining b < pb_pn_offset b + pn_size pn \<or>
            saturating_add (pb_nwrote b) (snd (pb_buffer b)) < pb_min_size b
         then Some (False, b)
         else map_option (Pair True)
                (pb_write (puts (hd_put h # (if long then [put_uint 2 0] else []) @ [put_slice (put_packet_number pn)])) b))"

definition for_frame :: "frame_type \<Rightarrow> packet_buffer \<Rightarrow> packet_buffer" where
  "for_frame ft b =
     (if \<not> belongs_to ft (md_pktype (pb_meta b)) \<or> pb_finished b then b\<lparr>pb_end := pb_nwrote b\<rparr>
      else
        (let limit = saturating_add (pb_nwrote b) (snd (pb_buffer b));
             limit = (if md_in_flight (pb_meta b) \<or> \<not> cc_free ft then min limit (pb_credit b) else limit);
             min_size = pb_min_size b;
             min_size = (if ft = TPathChallenge \<or> ft = TPathResponse then max min_size (pb_validation_min_size b)
                         else min_size)
         in b\<lparr>pb_end := (if limit < min_size then pb_nwrote b else limit - pb_tag_len b)\<rparr>))"

text \<open>What the type of a written frame asks of the packet.\<close>

definition pb_mark :: "frame_type \<Rightarrow> packet_buffer \<Rightarrow> packet_buffer" where
  "pb_mark ft b =
     (case ft of
        TPathChallenge \<Rightarrow> b\<lparr>pb_min_size := max (pb_min_size b) (pb_validation_min_size b)\<rparr>
      | TPathResponse \<Rightarrow> b\<lparr>pb_min_size := max (pb_min_size b) (pb_validation_min_size b)\<rparr>
      | TConnectionClose _ \<Rightarrow> b\<lparr>pb_finished := True\<rparr>
      | TStream _ len _ \<Rightarrow> if len = Omit then b\<lparr>pb_finished := True\<rparr> else b
      | TDatagram flag \<Rightarrow> if flag = 0 then b\<lparr>pb_finished := True\<rparr> else b
      | _ \<Rightarrow> b)"

definition pb_record :: "frame \<Rightarrow> packet_buffer \<Rightarrow> packet_buffer" where
  "pb_record f b =
     (let b = pb_mark (type_of_frame f) (b\<lparr>pb_meta := md_record f (pb_meta b)\<rparr>)
      in case guaranteed_of f of None \<Rightarrow> b | Some g \<Rightarrow> b\<lparr>pb_frames := pb_frames b @ [g]\<rparr>)"

definition pb_finish :: "packet_buffer \<Rightarrow> packet_buffer" where
  "pb_finish b = b\<lparr>pb_finished := True\<rparr>"

definition can_fit :: "nat \<Rightarrow> packet_buffer \<Rightarrow> bool" where
  "can_fit n b \<longleftrightarrow> n \<le> pb_remaining b \<and>
     (pb_min_size b \<le> saturating_add (saturating_add (pb_nwrote b) n) (pb_tag_len b) \<or> pb_min_size b \<le> pb_credit b)"

section \<open>Frames as sources\<close>

definition wrong_type_error :: quic_error where
  "wrong_type_error = \<lparr>qe_kind = Internal, qe_frame_type = V1Frame TPadding\<rparr>"

text \<open>A frame, with its data where it carries data; the record keeps the frame without the data.\<close>

fun without_data :: "frame \<Rightarrow> frame" where
  "without_data (Stream f _) = Stream f []"
| "without_data (Crypto f _) = Crypto f []"
| "without_data (Datagram f _) = Datagram f []"
| "without_data f = f"

definition frame_dump :: "frame \<Rightarrow> packet_buffer \<Rightarrow> ((quic_error + nat) poll \<times> packet_buffer) option" where
  "frame_dump f b =
     (if \<not> belongs_to (type_of_frame f) (md_pktype (pb_meta b)) then Some (Ready (Inl wrong_type_error), b)
      else
        (let b = for_frame (type_of_frame f) b
         in Option.bind (frame_size f) (\<lambda>n.
            if \<not> can_fit (saturating_add n (length (frame_data f))) b then Some (Ready (Inr 0), b)
            else map_option (\<lambda>b. (Ready (Inr 1), pb_record (without_data f) b)) (pb_write (put_frame f) b))))"

section \<open>Polling sources\<close>

text \<open>A source, over the state that all sources share.\<close>

record 's source =
  so_content :: "'s \<Rightarrow> packet_content"
  so_belongs :: "'s \<Rightarrow> packet_type \<Rightarrow> bool"
  so_priority :: "'s \<Rightarrow> nat"
  so_dump :: "'s \<Rightarrow> packet_buffer \<Rightarrow> ((quic_error + nat) poll \<times> 's \<times> packet_buffer) option"

fun content_rank :: "packet_content \<Rightarrow> nat" where
  "content_rank NonAckElicitingContent = 0"
| "content_rank JustPing = 1"
| "content_rank EffectivePayload = 2"

instantiation packet_content :: linorder
begin

definition less_eq_packet_content :: "packet_content \<Rightarrow> packet_content \<Rightarrow> bool" where
  "less_eq_packet_content c d \<longleftrightarrow> content_rank c \<le> content_rank d"

definition less_packet_content :: "packet_content \<Rightarrow> packet_content \<Rightarrow> bool" where
  "less_packet_content c d \<longleftrightarrow> content_rank c < content_rank d"

instance
proof
  fix x y :: packet_content
  show "x \<le> y \<Longrightarrow> y \<le> x \<Longrightarrow> x = y" by (cases x; cases y) (simp_all add: less_eq_packet_content_def)
qed (auto simp: less_eq_packet_content_def less_packet_content_def)

end

text \<open>A frame to be sent once: \<open>Option\<close> of a source.\<close>

definition once_dump :: "frame option \<Rightarrow> packet_buffer \<Rightarrow> ((quic_error + nat) poll \<times> frame option \<times> packet_buffer) option" where
  "once_dump f b =
     (case f of
        None \<Rightarrow> Some (Pending, None, b)
      | Some fr \<Rightarrow>
          map_option (\<lambda>(res, b). (res, case res of Ready (Inr n) \<Rightarrow> if 0 < n then None else f | _ \<Rightarrow> f, b))
            (frame_dump fr b))"

text \<open>A source restricted to one packet number space.\<close>

definition in_epoch :: "epoch \<Rightarrow> 's source \<Rightarrow> 's source" where
  "in_epoch e so = so\<lparr>so_belongs := \<lambda>s p. epoch_of_type p = Some e \<and> so_belongs so s p\<rparr>"

fun poll_sources ::
  "packet_content \<Rightarrow> 's source list \<Rightarrow> (quic_error + nat) poll \<Rightarrow> 's \<Rightarrow> packet_buffer \<Rightarrow>
   ((quic_error + nat) poll \<times> 's \<times> packet_buffer) option" where
  "poll_sources c [] res s b = Some (res, s, b)"
| "poll_sources c (so # sos) res s b =
     (if pb_finished b then Some (res, s, b)
      else if so_belongs so s (md_pktype (pb_meta b)) \<and> so_content so s \<le> c then
        Option.bind (so_dump so s b) (\<lambda>(r, s, b).
          case r of
            Ready (Inl e) \<Rightarrow> Some (Ready (Inl e), s, b)
          | Ready (Inr _) \<Rightarrow> poll_sources c sos (Ready (Inr 0)) s b
          | Pending \<Rightarrow> poll_sources c sos res s b)
      else poll_sources c sos res s b)"

definition assemble ::
  "packet_content \<Rightarrow> 's source list \<Rightarrow> 's \<Rightarrow> packet_buffer \<Rightarrow>
   ((quic_error + nat) poll \<times> 's \<times> packet_buffer) option" where
  "assemble c sources s b =
     (if pb_finished b then Some (Ready (Inr 0), s, b)
      else
        (let start = md_nframes (pb_meta b);
             sources = sort_key (\<lambda>so. - int (so_priority so s)) sources
         in map_option (\<lambda>(res, s, b).
              (case res of
                 Ready (Inl e) \<Rightarrow> Ready (Inl e)
               | _ \<Rightarrow> if start < md_nframes (pb_meta b) then Ready (Inr (md_nframes (pb_meta b) - start)) else res, s, b))
              (poll_sources c sources Pending s b)))"

section \<open>What a packet buffer holds\<close>

declare belongs_to.simps [simp del]

text \<open>
  A buffer of \<open>cap\<close> bytes that began with the bytes \<open>H\<close> and the descriptors \<open>gs\<close>, and into which the frames \<open>fs\<close>
  were written: the content, the descriptors and the metadata are those of \<open>fs\<close>; the packet with its tag stays within
  the datagram, and within the congestion credit as soon as one of its frames counts.
\<close>

definition ack_bound :: "frame list \<Rightarrow> nat option" where
  "ack_bound fs = foldl (\<lambda>m f. case f of
     Ack a \<Rightarrow> Some (case m of None \<Rightarrow> ack_largest a | Some l \<Rightarrow> max l (ack_largest a)) | _ \<Rightarrow> m) None fs"

definition pb_holds :: "byte list \<Rightarrow> nat \<Rightarrow> guaranteed_frame list \<Rightarrow> frame list \<Rightarrow> packet_buffer \<Rightarrow> bool" where
  "pb_holds H cap gs fs b \<longleftrightarrow>
     fst (pb_buffer b) = H @ frames_image fs \<and> pb_nwrote b = length (fst (pb_buffer b)) \<and> pb_nwrote b + snd (pb_buffer b) = cap \<and> cap < 2 ^ 32 \<and>
     (\<forall>f \<in> set fs. frame_wf f \<and> belongs_to (type_of_frame f) (md_pktype (pb_meta b))) \<and>
     delimited_all fs \<and> (\<not> pb_finished b \<longrightarrow> (\<forall>f \<in> set fs. delimited f)) \<and>
     pb_frames b = gs @ List.map_filter guaranteed_of fs \<and>
     (md_in_flight (pb_meta b) \<longleftrightarrow> (\<exists>f \<in> set fs. \<not> cc_free (type_of_frame f))) \<and>
     md_content (pb_meta b) = foldl (\<lambda>c f. add_type c (type_of_frame f)) NonAckElicitingContent fs \<and>
     md_ack (pb_meta b) = ack_bound fs \<and> (md_nframes (pb_meta b) = 0 \<longleftrightarrow> fs = []) \<and>
     (fs \<noteq> [] \<longrightarrow> pb_nwrote b + pb_tag_len b \<le> cap) \<and>
     (md_in_flight (pb_meta b) \<longrightarrow> pb_nwrote b + pb_tag_len b \<le> pb_credit b)"

text \<open>The room that \<open>for_frame\<close> leaves: a frame of this type within it keeps the packet within its limits.\<close>

definition room_for :: "frame_type \<Rightarrow> packet_buffer \<Rightarrow> bool" where
  "room_for ft b \<longleftrightarrow> (0 < pb_remaining b \<longrightarrow>
     belongs_to ft (md_pktype (pb_meta b)) \<and> \<not> pb_finished b \<and>
     pb_nwrote b + pb_remaining b + pb_tag_len b \<le> pb_nwrote b + snd (pb_buffer b) \<and>
     (md_in_flight (pb_meta b) \<or> \<not> cc_free ft \<longrightarrow>
       pb_nwrote b + pb_remaining b + pb_tag_len b \<le> pb_credit b \<and> pb_min_size b \<le> pb_credit b))"

lemma for_frame_fields [simp]:
  "pb_buffer (for_frame ft b) = pb_buffer b" "pb_nwrote (for_frame ft b) = pb_nwrote b"
  "pb_meta (for_frame ft b) = pb_meta b" "pb_finished (for_frame ft b) = pb_finished b"
  "pb_frames (for_frame ft b) = pb_frames b" "pb_tag_len (for_frame ft b) = pb_tag_len b"
  "pb_credit (for_frame ft b) = pb_credit b" "pb_min_size (for_frame ft b) = pb_min_size b"
  "pb_validation_min_size (for_frame ft b) = pb_validation_min_size b"
  by (simp_all add: for_frame_def Let_def)

lemma pb_holds_for_frame [simp]: "pb_holds H cap gs fs (for_frame ft b) \<longleftrightarrow> pb_holds H cap gs fs b"
  by (simp add: pb_holds_def)

lemma for_frame_room:
  assumes "pb_holds H cap gs fs b"
  shows "room_for ft (for_frame ft b)"
proof -
  have "pb_nwrote b + snd (pb_buffer b) < 2 ^ 32" using assms by (auto simp: pb_holds_def)
  then have sat: "saturating_add (pb_nwrote b) (snd (pb_buffer b)) = pb_nwrote b + snd (pb_buffer b)"
    by (simp add: saturating_add_def)
  define L where "L = (if md_in_flight (pb_meta b) \<or> \<not> cc_free ft
    then min (pb_nwrote b + snd (pb_buffer b)) (pb_credit b) else pb_nwrote b + snd (pb_buffer b))"
  define m where "m = (if ft = TPathChallenge \<or> ft = TPathResponse
    then max (pb_min_size b) (pb_validation_min_size b) else pb_min_size b)"
  show ?thesis
  proof (cases "belongs_to ft (md_pktype (pb_meta b)) \<and> \<not> pb_finished b")
    case True
    then have e: "pb_end (for_frame ft b) = (if L < m then pb_nwrote b else L - pb_tag_len b)"
      by (simp add: for_frame_def sat L_def m_def Let_def)
    have "m \<le> L \<and> pb_nwrote b + pb_remaining (for_frame ft b) + pb_tag_len b \<le> L" if "0 < pb_remaining (for_frame ft b)"
      using that e by (auto simp: pb_remaining_def min_def split: if_splits)
    moreover have "L \<le> pb_nwrote b + snd (pb_buffer b)" "pb_min_size b \<le> m" by (simp_all add: L_def m_def)
    moreover have "L \<le> pb_credit b" if "md_in_flight (pb_meta b) \<or> \<not> cc_free ft" using that by (simp add: L_def)
    ultimately show ?thesis
      unfolding room_for_def for_frame_fields using True by (meson le_trans)
  qed (auto simp: room_for_def for_frame_def pb_remaining_def)
qed

lemma without_data_simps [simp]:
  "type_of_frame (without_data f) = type_of_frame f" "guaranteed_of (without_data f) = guaranteed_of f"
  by (cases f; simp)+

lemma md_record_simps [simp]:
  "md_pktype (md_record f m) = md_pktype m" "md_nframes (md_record f m) = md_nframes m + 1"
  "md_content (md_record f m) = add_type (md_content m) (type_of_frame f)"
  "md_in_flight (md_record f m) \<longleftrightarrow> md_in_flight m \<or> \<not> cc_free (type_of_frame f)"
  by (simp_all add: md_record_def Let_def split: frame.splits)

lemma pb_mark_fields [simp]:
  "pb_buffer (pb_mark ft b) = pb_buffer b" "pb_nwrote (pb_mark ft b) = pb_nwrote b"
  "pb_meta (pb_mark ft b) = pb_meta b" "pb_tag_len (pb_mark ft b) = pb_tag_len b"
  "pb_credit (pb_mark ft b) = pb_credit b" "pb_end (pb_mark ft b) = pb_end b" "pb_frames (pb_mark ft b) = pb_frames b"
  by (cases ft; simp add: pb_mark_def)+

lemma pb_mark_finished:
  "pb_finished (pb_mark ft b) \<longleftrightarrow> pb_finished b \<or>
     (case ft of TConnectionClose _ \<Rightarrow> True | TStream _ len _ \<Rightarrow> len = Omit | TDatagram flag \<Rightarrow> flag = 0 | _ \<Rightarrow> False)"
  by (cases ft) (simp_all add: pb_mark_def)

lemma pb_record_fields [simp]:
  "pb_buffer (pb_record f b) = pb_buffer b" "pb_nwrote (pb_record f b) = pb_nwrote b"
  "pb_meta (pb_record f b) = md_record f (pb_meta b)" "pb_tag_len (pb_record f b) = pb_tag_len b"
  "pb_credit (pb_record f b) = pb_credit b" "pb_end (pb_record f b) = pb_end b"
  "pb_frames (pb_record f b) = pb_frames b @ (case guaranteed_of f of None \<Rightarrow> [] | Some g \<Rightarrow> [g])"
  by (cases "guaranteed_of f"; simp add: pb_record_def Let_def)+

lemma delimited_type:
  "delimited f \<longleftrightarrow> (case type_of_frame f of TStream _ len _ \<Rightarrow> len = Explicit | TDatagram flag \<Rightarrow> flag \<noteq> 0 | _ \<Rightarrow> True)"
proof (cases f)
  case (Close c)
  then show ?thesis by (cases c) simp_all
next
  case (StreamCtl c)
  then show ?thesis by (cases c) simp_all
qed (simp_all add: stream_type_def datagram_type_def ack_type_def)

lemma pb_record_finished: "\<not> pb_finished (pb_record (without_data f) b) \<Longrightarrow> delimited f \<and> \<not> pb_finished b"
proof -
  let ?m = "pb_mark (type_of_frame f) (b\<lparr>pb_meta := md_record (without_data f) (pb_meta b)\<rparr>)"
  assume "\<not> pb_finished (pb_record (without_data f) b)"
  then have "\<not> pb_finished ?m" by (cases "guaranteed_of f") (simp_all add: pb_record_def Let_def)
  then have "\<not> pb_finished b \<and> \<not> (case type_of_frame f of TConnectionClose _ \<Rightarrow> True | TStream _ len _ \<Rightarrow> len = Omit
    | TDatagram flag \<Rightarrow> flag = 0 | _ \<Rightarrow> False)" by (simp add: pb_mark_finished)
  moreover have "len = Explicit \<longleftrightarrow> len \<noteq> Omit" for len by (cases len) auto
  ultimately show ?thesis unfolding delimited_type by (cases "type_of_frame f") simp_all
qed

lemma delimited_all_snoc: "\<forall>f \<in> set fs. delimited f \<Longrightarrow> delimited_all (fs @ [f])"
proof (induction fs)
  case (Cons g fs)
  then show ?case by (cases "fs @ [f]") auto
qed simp

lemma ack_bound_snoc: "md_ack m = ack_bound fs \<Longrightarrow> md_ack (md_record (without_data f) m) = ack_bound (fs @ [f])"
  by (cases f) (simp_all add: md_record_def ack_bound_def Let_def)

lemma pb_write_emits:
  assumes "emits w s" and "length s \<le> pb_remaining b"
  shows "pb_write w b = Some (b\<lparr>pb_buffer := (fst (pb_buffer b) @ s, snd (pb_buffer b) - length s),
    pb_nwrote := pb_nwrote b + length s\<rparr>)"
  using assms by (simp add: pb_write_def emits_def)

lemma map_filter_snoc: "List.map_filter g (xs @ [x]) = List.map_filter g xs @ (case g x of None \<Rightarrow> [] | Some y \<Rightarrow> [y])"
  by (simp add: List.map_filter_def split: option.splits)

lemma pb_holds_put:
  assumes h: "pb_holds H cap gs fs b" and room: "room_for (type_of_frame f) b" and wf: "frame_wf f"
    and fits: "length (frame_image f) \<le> pb_remaining b"
  obtains b' where "pb_write (put_frame f) b = Some b'" "pb_holds H cap gs (fs @ [f]) (pb_record (without_data f) b')"
    "pb_nwrote b' = pb_nwrote b + length (frame_image f)" "snd (pb_buffer b') = snd (pb_buffer b) - length (frame_image f)"
    "pb_end b' = pb_end b"
proof -
  let ?s = "frame_image f"
  let ?b = "b\<lparr>pb_buffer := (fst (pb_buffer b) @ ?s, snd (pb_buffer b) - length ?s), pb_nwrote := pb_nwrote b + length ?s\<rparr>"
  have w: "pb_write (put_frame f) b = Some ?b" by (rule pb_write_emits [OF frame_emits [OF wf] fits])
  have pos: "0 < pb_remaining b" using fits frame_image_nonempty [of f] by (cases "pb_remaining b") auto
  have r: "belongs_to (type_of_frame f) (md_pktype (pb_meta b))" "\<not> pb_finished b"
    "pb_nwrote b + pb_remaining b + pb_tag_len b \<le> pb_nwrote b + snd (pb_buffer b)"
    "md_in_flight (pb_meta b) \<or> \<not> cc_free (type_of_frame f) \<Longrightarrow> pb_nwrote b + pb_remaining b + pb_tag_len b \<le> pb_credit b"
    using room pos unfolding room_for_def by blast+
  have s: "length ?s \<le> snd (pb_buffer b)" using fits by (simp add: pb_remaining_def)
  have n: "pb_nwrote b + snd (pb_buffer b) = cap" "pb_nwrote b = length (fst (pb_buffer b))" "cap < 2 ^ 32"
    using h unfolding pb_holds_def by blast+
  have "pb_holds H cap gs (fs @ [f]) (pb_record (without_data f) ?b)"
    unfolding pb_holds_def
  proof (intro conjI impI)
    show "fst (pb_buffer (pb_record (without_data f) ?b)) = H @ frames_image (fs @ [f])"
      using h by (simp add: pb_holds_def frames_image_def)
    show "pb_nwrote (pb_record (without_data f) ?b) = length (fst (pb_buffer (pb_record (without_data f) ?b)))"
      using n by simp
    show "pb_nwrote (pb_record (without_data f) ?b) + snd (pb_buffer (pb_record (without_data f) ?b)) = cap" "cap < 2 ^ 32"
      using n s by simp_all
    show "\<forall>g \<in> set (fs @ [f]). frame_wf g \<and> belongs_to (type_of_frame g) (md_pktype (pb_meta (pb_record (without_data f) ?b)))"
      using h wf r(1) by (simp add: pb_holds_def)
    show "delimited_all (fs @ [f])" using h r(2) by (intro delimited_all_snoc) (simp add: pb_holds_def)
    show "\<forall>g \<in> set (fs @ [f]). delimited g" if "\<not> pb_finished (pb_record (without_data f) ?b)"
      using pb_record_finished [OF that] h r(2) by (simp add: pb_holds_def)
    show "pb_frames (pb_record (without_data f) ?b) = gs @ List.map_filter guaranteed_of (fs @ [f])"
      using h by (simp add: pb_holds_def map_filter_snoc)
    show "md_in_flight (pb_meta (pb_record (without_data f) ?b)) \<longleftrightarrow> (\<exists>g \<in> set (fs @ [f]). \<not> cc_free (type_of_frame g))"
      using h by (auto simp: pb_holds_def)
    show "md_content (pb_meta (pb_record (without_data f) ?b)) =
        foldl (\<lambda>c f. add_type c (type_of_frame f)) NonAckElicitingContent (fs @ [f])"
      using h by (simp add: pb_holds_def)
    show "md_ack (pb_meta (pb_record (without_data f) ?b)) = ack_bound (fs @ [f])"
      using h by (simp add: pb_holds_def ack_bound_snoc)
    show "md_nframes (pb_meta (pb_record (without_data f) ?b)) = 0 \<longleftrightarrow> fs @ [f] = []" by simp
    show "pb_nwrote (pb_record (without_data f) ?b) + pb_tag_len (pb_record (without_data f) ?b) \<le> cap"
      using n r(3) fits by simp
    show "pb_nwrote (pb_record (without_data f) ?b) + pb_tag_len (pb_record (without_data f) ?b) \<le>
        pb_credit (pb_record (without_data f) ?b)" if "md_in_flight (pb_meta (pb_record (without_data f) ?b))"
      using that r(4) fits by simp
  qed
  then show ?thesis by (intro that [OF w]) simp_all
qed

text \<open>A frame that is dumped is written whole or not at all.\<close>

lemma frame_dump_holds:
  assumes h: "pb_holds H cap gs fs b" and wf: "frame_wf f" and exact: "size_exact f"
  obtains (wrong) "frame_dump f b = Some (Ready (Inl wrong_type_error), b)"
    "\<not> belongs_to (type_of_frame f) (md_pktype (pb_meta b))"
  | (full) b' where "frame_dump f b = Some (Ready (Inr 0), b')" "pb_holds H cap gs fs b'"
    "belongs_to (type_of_frame f) (md_pktype (pb_meta b))" "md_nframes (pb_meta b') = md_nframes (pb_meta b)"
  | (written) b' where "frame_dump f b = Some (Ready (Inr 1), b')" "pb_holds H cap gs (fs @ [f]) b'"
    "belongs_to (type_of_frame f) (md_pktype (pb_meta b))" "md_nframes (pb_meta b') = md_nframes (pb_meta b) + 1"
proof (cases "belongs_to (type_of_frame f) (md_pktype (pb_meta b))")
  case False
  then show ?thesis by (intro wrong) (simp_all add: frame_dump_def)
next
  case True
  obtain k where k: "frame_size f = Some k" "k + length (frame_data f) = length (frame_image f)"
    using frame_size_image [OF wf exact] by auto
  let ?b = "for_frame (type_of_frame f) b"
  have h': "pb_holds H cap gs fs ?b" using h by simp
  show ?thesis
  proof (cases "can_fit (saturating_add k (length (frame_data f))) ?b")
    case False
    then have "frame_dump f b = Some (Ready (Inr 0), ?b)" using True k by (simp add: frame_dump_def)
    from full [OF this h' True] show ?thesis by simp
  next
    case c: True
    then have le: "saturating_add k (length (frame_data f)) \<le> pb_remaining ?b" by (simp add: can_fit_def)
    have "pb_remaining ?b < 2 ^ 32" using h by (auto simp: pb_holds_def pb_remaining_def min_def)
    then have "length (frame_image f) \<le> pb_remaining ?b" using le k(2) by (auto simp: saturating_add_def min_def split: if_splits)
    from pb_holds_put [OF h' for_frame_room [OF h] wf this] obtain b' where
      b': "pb_write (put_frame f) ?b = Some b'" "pb_holds H cap gs (fs @ [f]) (pb_record (without_data f) b')" by blast
    have "pb_meta b' = pb_meta b" using b'(1) by (auto simp: pb_write_def)
    moreover have "frame_dump f b = Some (Ready (Inr 1), pb_record (without_data f) b')" using True k c b' by (simp add: frame_dump_def)
    ultimately show ?thesis using written [OF _ b'(2) True] by simp
  qed
qed

section \<open>Padding and STREAM frames\<close>

text \<open>Padding is a run of zero bytes, recorded as one frame.\<close>

lemma padding_image: "frames_image (replicate k Padding) = replicate k 0"
  by (induction k) (simp_all add: frames_image_def frame_image_def type_image_def varint_image_def varint_bytes_def varint_prefix_def
      be_bytes.simps)

lemma padding_content: "foldl (\<lambda>c f. add_type c (type_of_frame f)) c (replicate k Padding) = c"
  by (induction k) (simp_all add: add_type_def contain_non_eliciting)

lemma padding_ack: "ack_bound (fs @ replicate k Padding) = ack_bound fs"
proof -
  have "foldl (\<lambda>m f. case f of Ack a \<Rightarrow> Some (case m of None \<Rightarrow> ack_largest a | Some l \<Rightarrow> max l (ack_largest a)) | _ \<Rightarrow> m)
    m (replicate k Padding) = m" for m by (induction k) simp_all
  then show ?thesis by (simp add: ack_bound_def)
qed

lemma map_filter_padding: "List.map_filter guaranteed_of (replicate k Padding) = []"
  by (simp add: List.map_filter_def)

lemma padding_counts: "\<not> cc_free TPadding"
  by (simp add: cc_free_def contain_spec_def frame_specs_def)

lemma delimited_all_all: "\<forall>f \<in> set fs. delimited f \<Longrightarrow> delimited_all fs"
  by (induction fs rule: delimited_all.induct) auto

lemma pb_holds_padding:
  assumes h: "pb_holds H cap gs fs b" and room: "room_for TPadding b" and k: "0 < k" "k \<le> pb_remaining b"
  obtains b' where "pb_write (put_slice (replicate k 0)) b = Some b'" "pb_holds H cap gs (fs @ replicate k Padding) (pb_record Padding b')"
    "pb_nwrote b' = pb_nwrote b + k" "snd (pb_buffer b') = snd (pb_buffer b) - k" "pb_min_size b' = pb_min_size b"
    "pb_credit b' = pb_credit b" "pb_tag_len b' = pb_tag_len b" "pb_finished b' = pb_finished b" "pb_meta b' = pb_meta b"
proof -
  let ?s = "replicate k 0 :: byte list"
  let ?b = "b\<lparr>pb_buffer := (fst (pb_buffer b) @ ?s, snd (pb_buffer b) - length ?s), pb_nwrote := pb_nwrote b + length ?s\<rparr>"
  have w: "pb_write (put_slice ?s) b = Some ?b" by (rule pb_write_emits [OF emits_put_slice]) (use k in simp)
  have pos: "0 < pb_remaining b" using k by simp
  have r: "belongs_to TPadding (md_pktype (pb_meta b))" "\<not> pb_finished b"
    "pb_nwrote b + pb_remaining b + pb_tag_len b \<le> pb_nwrote b + snd (pb_buffer b)"
    "pb_nwrote b + pb_remaining b + pb_tag_len b \<le> pb_credit b"
    using room pos padding_counts unfolding room_for_def by blast+
  have n: "pb_nwrote b + snd (pb_buffer b) = cap" "pb_nwrote b = length (fst (pb_buffer b))" "cap < 2 ^ 32"
    "fst (pb_buffer b) = H @ frames_image fs" using h unfolding pb_holds_def by blast+
  have "k \<le> snd (pb_buffer b)" using k by (simp add: pb_remaining_def)
  have "pb_holds H cap gs (fs @ replicate k Padding) (pb_record Padding ?b)"
    unfolding pb_holds_def
  proof (intro conjI impI)
    show "fst (pb_buffer (pb_record Padding ?b)) = H @ frames_image (fs @ replicate k Padding)"
      using n(4) padding_image [of k] by (simp add: frames_image_def)
    show "pb_nwrote (pb_record Padding ?b) = length (fst (pb_buffer (pb_record Padding ?b)))" using n(2) by simp
    show "pb_nwrote (pb_record Padding ?b) + snd (pb_buffer (pb_record Padding ?b)) = cap" "cap < 2 ^ 32"
      using n(1,3) \<open>k \<le> snd (pb_buffer b)\<close> by simp_all
    show "\<forall>g \<in> set (fs @ replicate k Padding). frame_wf g \<and> belongs_to (type_of_frame g) (md_pktype (pb_meta (pb_record Padding ?b)))"
      using h r(1) by (auto simp: pb_holds_def)
    show d: "\<forall>g \<in> set (fs @ replicate k Padding). delimited g" using h r(2) by (auto simp: pb_holds_def)
    show "delimited_all (fs @ replicate k Padding)" by (rule delimited_all_all [OF d])
    show "pb_frames (pb_record Padding ?b) = gs @ List.map_filter guaranteed_of (fs @ replicate k Padding)"
      using h map_filter_padding [of k] by (simp add: pb_holds_def List.map_filter_def)
    show "md_in_flight (pb_meta (pb_record Padding ?b)) \<longleftrightarrow> (\<exists>g \<in> set (fs @ replicate k Padding). \<not> cc_free (type_of_frame g))"
      using k padding_counts by (auto intro!: bexI [of _ Padding])
    show "md_content (pb_meta (pb_record Padding ?b)) =
        foldl (\<lambda>c f. add_type c (type_of_frame f)) NonAckElicitingContent (fs @ replicate k Padding)"
      using h padding_content [of _ k] padding_content [of _ 1] by (simp add: pb_holds_def)
    show "md_ack (pb_meta (pb_record Padding ?b)) = ack_bound (fs @ replicate k Padding)"
      using h padding_ack [of fs k] by (simp add: pb_holds_def md_record_def Let_def)
    show "md_nframes (pb_meta (pb_record Padding ?b)) = 0 \<longleftrightarrow> fs @ replicate k Padding = []" using k by simp
    show "pb_nwrote (pb_record Padding ?b) + pb_tag_len (pb_record Padding ?b) \<le> cap" using n(1) r(3) k by simp
    show "pb_nwrote (pb_record Padding ?b) + pb_tag_len (pb_record Padding ?b) \<le> pb_credit (pb_record Padding ?b)" using r(4) k by simp
  qed
  then show ?thesis by (intro that [OF w]) simp_all
qed

text \<open>The room for a STREAM frame does not depend on its flags, and padding takes from it what it writes.\<close>

definition stream_room :: "packet_buffer \<Rightarrow> nat" where
  "stream_room b =
     (let limit = min (pb_nwrote b + snd (pb_buffer b)) (pb_credit b)
      in if belongs_to (TStream Zero Explicit No) (md_pktype (pb_meta b)) \<and> \<not> pb_finished b \<and> pb_min_size b \<le> limit
         then limit - pb_tag_len b - pb_nwrote b else 0)"

lemma stream_counts: "\<not> cc_free (TStream off len fin)"
  by (simp add: cc_free_def contain_spec_def frame_specs_def)

lemma stream_belongs: "belongs_to (TStream off len fin) p \<longleftrightarrow> belongs_to (TStream Zero Explicit No) p"
  by (simp add: belongs_to.simps)

lemma stream_belongs_padding: "belongs_to (TStream off len fin) p \<Longrightarrow> belongs_to TPadding p"
  by (simp add: belongs_to.simps Let_def)

lemma for_frame_stream:
  assumes "pb_holds H cap gs fs b"
  shows "pb_remaining (for_frame (TStream off len fin) b) = stream_room b"
proof -
  have "pb_nwrote b + snd (pb_buffer b) < 2 ^ 32" using assms by (auto simp: pb_holds_def)
  then have sat: "saturating_add (pb_nwrote b) (snd (pb_buffer b)) = pb_nwrote b + snd (pb_buffer b)"
    by (simp add: saturating_add_def)
  show ?thesis
  proof (cases "belongs_to (TStream Zero Explicit No) (md_pktype (pb_meta b)) \<and> \<not> pb_finished b")
    case True
    then have "pb_end (for_frame (TStream off len fin) b) =
      (if min (pb_nwrote b + snd (pb_buffer b)) (pb_credit b) < pb_min_size b then pb_nwrote b
       else min (pb_nwrote b + snd (pb_buffer b)) (pb_credit b) - pb_tag_len b)"
      using stream_belongs [of off len fin] stream_counts by (simp add: for_frame_def sat Let_def)
    then show ?thesis using True by (auto simp: pb_remaining_def stream_room_def Let_def min_def)
  next
    case False
    then have "pb_end (for_frame (TStream off len fin) b) = pb_nwrote b"
      using stream_belongs [of off len fin] by (auto simp: for_frame_def)
    then show ?thesis using False by (auto simp: pb_remaining_def stream_room_def Let_def)
  qed
qed

text \<open>A STREAM frame that fits is written.\<close>

lemma stream_dump_fits:
  assumes h: "pb_holds H cap gs fs b" and wf: "frame_wf (Stream f d)" and sz: "stream_size f = Some sz"
    and fits: "sz + length d \<le> stream_room b"
  obtains b' where "frame_dump (Stream f d) b = Some (Ready (Inr 1), b')" "pb_holds H cap gs (fs @ [Stream f d]) b'"
    "md_nframes (pb_meta b') = md_nframes (pb_meta b) + 1"
proof -
  have ty: "type_of_frame (Stream f d) = TStream (if sf_offset f = 0 then Zero else NonZero) (sf_len_bit f) (sf_fin_bit f)"
    by (simp add: stream_type_def)
  let ?b = "for_frame (type_of_frame (Stream f d)) b"
  have rem: "pb_remaining ?b = stream_room b" unfolding ty by (rule for_frame_stream [OF h])
  have "frame_image (Stream f d) \<noteq> []" by (rule frame_image_nonempty)
  moreover have "sz + length d = length (frame_image (Stream f d))" using frame_size_image [OF wf] sz by simp
  ultimately have pos: "0 < sz + length d" by (metis length_greater_0_conv)
  have room: "room_for (type_of_frame (Stream f d)) ?b" by (rule for_frame_room [OF h])
  then have r: "belongs_to (type_of_frame (Stream f d)) (md_pktype (pb_meta b))" "pb_min_size b \<le> pb_credit b"
    using pos fits rem stream_counts unfolding room_for_def ty by auto
  have exact: "size_exact (Stream f d)" by simp
  show ?thesis
  proof (cases rule: frame_dump_holds [OF h wf exact])
    case 1
    with r(1) show ?thesis by simp
  next
    case (2 b')
    have "pb_remaining ?b < 2 ^ 32" using h by (auto simp: pb_holds_def pb_remaining_def min_def)
    then have "saturating_add sz (length d) = sz + length d" using fits rem by (simp add: saturating_add_def)
    then have "can_fit (saturating_add sz (length (frame_data (Stream f d)))) ?b" using fits rem r(2) by (simp add: can_fit_def)
    then have "frame_dump (Stream f d) b \<noteq> Some (Ready (Inr 0), b')" using r(1) sz by (auto simp: frame_dump_def)
    with 2(1) show ?thesis by simp
  next
    case (3 b')
    then show ?thesis using that by blast
  qed
qed

section \<open>The contract of a source\<close>

text \<open>
  What assembling needs of a source: polled with a packet that holds the frames \<open>fs\<close> it returns, and the packet then holds
  \<open>fs\<close> and some more frames, at least one if it reports some and none if it is pending.
\<close>

locale package =
  fixes dump :: "'s \<Rightarrow> packet_buffer \<Rightarrow> ((quic_error + nat) poll \<times> 's \<times> packet_buffer) option"
    and ready :: "'s \<Rightarrow> bool"
  assumes dump_holds: "ready s \<Longrightarrow> pb_holds H cap gs fs b \<Longrightarrow>
    \<exists>res s' b' new. dump s b = Some (res, s', b') \<and> ready s' \<and> pb_holds H cap gs (fs @ new) b' \<and>
      md_nframes (pb_meta b) \<le> md_nframes (pb_meta b') \<and> md_pktype (pb_meta b') = md_pktype (pb_meta b) \<and>
      pb_tag_len b' = pb_tag_len b \<and> pb_credit b' = pb_credit b"

lemma poll_sources_holds:
  assumes "\<forall>so \<in> set sos. package (so_dump so) ready" and "ready s" and "pb_holds H cap gs fs b"
  shows "\<exists>res' s' b' new. poll_sources c sos res s b = Some (res', s', b') \<and> ready s' \<and> pb_holds H cap gs (fs @ new) b' \<and>
      md_nframes (pb_meta b) \<le> md_nframes (pb_meta b') \<and> md_pktype (pb_meta b') = md_pktype (pb_meta b) \<and>
      pb_tag_len b' = pb_tag_len b \<and> pb_credit b' = pb_credit b"
  using assms
proof (induction sos arbitrary: res s fs b)
  case Nil
  then show ?case by (auto intro!: exI [of _ "[]"])
next
  case (Cons so sos)
  have stay: ?case if "poll_sources c (so # sos) res s b = Some (res, s, b)"
    using that Cons.prems by (auto intro!: exI [of _ "[]"])
  have skip: ?case if "poll_sources c (so # sos) res s b = poll_sources c sos res s b"
    unfolding that using Cons.prems by (intro Cons.IH) auto
  show ?case
  proof (cases "\<not> pb_finished b \<and> so_belongs so s (md_pktype (pb_meta b)) \<and> so_content so s \<le> c")
    case False
    then show ?thesis using stay skip by (cases "pb_finished b") auto
  next
    case True
    have "package (so_dump so) ready" using Cons.prems(1) by simp
    from package.dump_holds [OF this Cons.prems(2,3)] obtain r s1 b1 new where
      d: "so_dump so s b = Some (r, s1, b1)" "ready s1" "pb_holds H cap gs (fs @ new) b1"
        "md_nframes (pb_meta b) \<le> md_nframes (pb_meta b1)" "md_pktype (pb_meta b1) = md_pktype (pb_meta b)"
        "pb_tag_len b1 = pb_tag_len b" "pb_credit b1 = pb_credit b" by blast
    have rest: "\<exists>res2 s2 b2 new2. poll_sources c sos res1 s1 b1 = Some (res2, s2, b2) \<and> ready s2 \<and>
      pb_holds H cap gs ((fs @ new) @ new2) b2 \<and> md_nframes (pb_meta b1) \<le> md_nframes (pb_meta b2) \<and>
      md_pktype (pb_meta b2) = md_pktype (pb_meta b1) \<and> pb_tag_len b2 = pb_tag_len b1 \<and> pb_credit b2 = pb_credit b1" for res1
      using Cons.prems(1) d by (intro Cons.IH) auto
    have go: "poll_sources c (so # sos) res s b = (case r of Ready (Inl e) \<Rightarrow> Some (Ready (Inl e), s1, b1)
        | Ready (Inr _) \<Rightarrow> poll_sources c sos (Ready (Inr 0)) s1 b1 | Pending \<Rightarrow> poll_sources c sos res s1 b1)"
      using True d(1) by simp
    consider e where "r = Ready (Inl e)" | n where "r = Ready (Inr n)" | "r = Pending"
      by (metis poll.exhaust sum.exhaust)
    then show ?thesis
    proof cases
      case 1
      then show ?thesis using go d by auto
    next
      case 2
      with go have "poll_sources c (so # sos) res s b = poll_sources c sos (Ready (Inr 0)) s1 b1" by simp
      with rest [of "Ready (Inr 0)"] d show ?thesis by (metis (no_types, lifting) append.assoc le_trans)
    next
      case 3
      with go have "poll_sources c (so # sos) res s b = poll_sources c sos res s1 b1" by simp
      with rest [of res] d show ?thesis by (metis (no_types, lifting) append.assoc le_trans)
    qed
  qed
qed

lemma assemble_holds:
  assumes "\<forall>so \<in> set sos. package (so_dump so) ready" and "ready s" and "pb_holds H cap gs fs b"
  obtains res s' b' new where "assemble c sos s b = Some (res, s', b')" "ready s'" "pb_holds H cap gs (fs @ new) b'"
    "md_pktype (pb_meta b') = md_pktype (pb_meta b)" "pb_tag_len b' = pb_tag_len b" "pb_credit b' = pb_credit b"
proof (cases "pb_finished b")
  case True
  with assms(2,3) show ?thesis by (intro that [of "Ready (Inr 0)" s b "[]"]) (simp_all add: assemble_def)
next
  case False
  have "\<forall>so \<in> set (sort_key (\<lambda>so. - int (so_priority so s)) sos). package (so_dump so) ready" using assms(1) by simp
  from poll_sources_holds [OF this assms(2,3), of c Pending] obtain res s' b' new where
    p: "poll_sources c (sort_key (\<lambda>so. - int (so_priority so s)) sos) Pending s b = Some (res, s', b')" "ready s'"
    "pb_holds H cap gs (fs @ new) b'" "md_pktype (pb_meta b') = md_pktype (pb_meta b)" "pb_tag_len b' = pb_tag_len b"
    "pb_credit b' = pb_credit b" by blast
  then obtain res' where "assemble c sos s b = Some (res', s', b')" using False by (simp add: assemble_def Let_def)
  from that [OF this p(2-6)] show ?thesis .
qed

text \<open>A frame that is sent once keeps the contract.\<close>

definition once_ready :: "frame option \<Rightarrow> bool" where
  "once_ready f \<longleftrightarrow> (case f of None \<Rightarrow> True | Some fr \<Rightarrow> frame_wf fr \<and> size_exact fr)"

lemma frame_dump_fields:
  "frame_dump f b = Some (res, b') \<Longrightarrow> pb_tag_len b' = pb_tag_len b \<and> pb_credit b' = pb_credit b \<and>
     md_pktype (pb_meta b') = md_pktype (pb_meta b) \<and> md_nframes (pb_meta b) \<le> md_nframes (pb_meta b')"
  by (auto simp: frame_dump_def pb_write_def Let_def bind_eq_Some_conv split: if_splits)

interpretation once: package once_dump once_ready
proof
  fix s H cap gs fs b
  assume r: "once_ready s" and h: "pb_holds H cap gs fs b"
  show "\<exists>res s' b' new. once_dump s b = Some (res, s', b') \<and> once_ready s' \<and> pb_holds H cap gs (fs @ new) b' \<and>
      md_nframes (pb_meta b) \<le> md_nframes (pb_meta b') \<and> md_pktype (pb_meta b') = md_pktype (pb_meta b) \<and>
      pb_tag_len b' = pb_tag_len b \<and> pb_credit b' = pb_credit b"
  proof (cases s)
    case None
    then show ?thesis using h by (auto simp: once_dump_def once_ready_def intro!: exI [of _ "[]"])
  next
    case (Some f)
    then have f: "frame_wf f" "size_exact f" using r by (simp_all add: once_ready_def)
    have ok: "once_ready (Some f)" "once_ready None" using f by (simp_all add: once_ready_def)
    show ?thesis
    proof (cases rule: frame_dump_holds [OF h f])
      case 1
      then show ?thesis using Some h ok by (auto simp: once_dump_def intro!: exI [of _ "[]"])
    next
      case (2 b')
      with frame_dump_fields [OF 2(1)] show ?thesis
        using Some ok by (auto simp: once_dump_def intro!: exI [of _ "[]"])
    next
      case (3 b')
      with frame_dump_fields [OF 3(1)] show ?thesis
        using Some ok by (auto simp: once_dump_def intro!: exI [of _ "[f]"])
    qed
  qed
qed

section \<open>A packet from its header to its last frame\<close>

text \<open>A header that writes what it says: the layout that \<open>begin\<close> remembers is then the real one.\<close>

definition header_ok :: "header_ops \<Rightarrow> byte list \<Rightarrow> bool" where
  "header_ok h hdr \<longleftrightarrow> emits (hd_put h) hdr \<and> length hdr = hd_size h"

lemma put_packet_number_length: "length (put_packet_number pn) = pn_size pn"
  by (cases pn) simp_all

lemma pb_begin_holds:
  assumes h: "header_ok h hdr" and cap: "room < 2 ^ 32"
    and b: "pb_begin h pn (new_packet_buffer ([], room) credit gs p 0 tag) = Some (True, b)"
  shows "pb_holds (hdr @ (if is_long (hd_type h) then [0, 0] else []) @ put_packet_number pn) room gs [] b"
    and "md_pktype (pb_meta b) = hd_type h" and "pb_tag_len b = tag" and "pb_credit b = credit"
proof -
  let ?s = "hdr @ (if is_long (hd_type h) then [0, 0] else []) @ put_packet_number pn"
  let ?w = "puts (hd_put h # (if is_long (hd_type h) then [put_uint 2 0] else []) @ [put_slice (put_packet_number pn)])"
  have "emits (put_uint 2 0) [0, 0]" using emits_put_uint [of 2 0] by (simp add: be_bytes.simps numeral_2_eq_2)
  then have "list_all2 emits (hd_put h # (if is_long (hd_type h) then [put_uint 2 0] else []) @ [put_slice (put_packet_number pn)])
    (hdr # (if is_long (hd_type h) then [[0, 0]] else []) @ [put_packet_number pn])"
    using h emits_put_slice by (simp add: header_ok_def)
  from emits_puts [OF this] have e: "emits ?w ?s" by (cases "is_long (hd_type h)") simp_all
  define b0 where "b0 = (new_packet_buffer ([], room) credit gs p 0 tag)\<lparr>pb_meta := (new_metadata p)\<lparr>md_pktype := hd_type h\<rparr>,
    pb_pn_offset := hd_size h + (if is_long (hd_type h) then 2 else 0),
    pb_min_size := hd_size h + (if is_long (hd_type h) then 2 else 0) + 4 + 16\<rparr>"
  have rm: "\<not> pb_remaining b0 < pb_pn_offset b0 + pn_size pn" and w: "pb_write ?w b0 = Some b"
    using b by (auto simp: pb_begin_def b0_def new_packet_buffer_def Let_def split: if_splits)
  have "length ?s = pb_pn_offset b0 + pn_size pn"
    using h by (simp add: header_ok_def b0_def put_packet_number_length)
  with rm have le: "length ?s \<le> pb_remaining b0" by linarith
  from w pb_write_emits [OF e le] have b': "b = b0\<lparr>pb_buffer := ([] @ ?s, room - length ?s), pb_nwrote := 0 + length ?s\<rparr>"
    by (simp add: b0_def new_packet_buffer_def)
  moreover have "length ?s \<le> room" using le by (simp add: pb_remaining_def b0_def new_packet_buffer_def)
  ultimately show "pb_holds ?s room gs [] b"
    using cap by (simp add: pb_holds_def b0_def new_packet_buffer_def new_metadata_def frames_image_def List.map_filter_def ack_bound_def)
  show "md_pktype (pb_meta b) = hd_type h" and "pb_tag_len b = tag" and "pb_credit b = credit"
    using b' by (simp_all add: b0_def new_packet_buffer_def)
qed

text \<open>A sealed packet leaves room for its tag and, when it counts, stays within the credit.\<close>

definition within_limits :: "nat \<Rightarrow> nat \<Rightarrow> nat \<Rightarrow> packet_buffer \<Rightarrow> bool" where
  "within_limits room credit tag b \<longleftrightarrow>
     (md_nframes (pb_meta b) \<noteq> 0 \<longrightarrow> length (fst (pb_buffer b)) + tag \<le> room) \<and>
     (md_in_flight (pb_meta b) \<longrightarrow> length (fst (pb_buffer b)) + tag \<le> credit)"

lemma pb_holds_limits:
  assumes "pb_holds H room gs fs b"
  shows "within_limits room (pb_credit b) (pb_tag_len b) b"
  using assms unfolding pb_holds_def within_limits_def by metis

text \<open>A packet with one frame, for the witnesses.\<close>

definition sample_header :: header_ops where
  "sample_header = \<lparr>hd_size = 2, hd_type = OneRtt False, hd_put = put_slice [0x40, 7]\<rparr>"

definition once_source :: "frame option source" where
  "once_source = \<lparr>so_content = (\<lambda>f. case f of None \<Rightarrow> NonAckElicitingContent | Some fr \<Rightarrow> content_of (type_of_frame fr)),
     so_belongs = (\<lambda>f p. case f of None \<Rightarrow> False | Some fr \<Rightarrow> belongs_to (type_of_frame fr) p),
     so_priority = (\<lambda>_. 0), so_dump = once_dump\<rparr>"

lemma sample_header_ok: "header_ok sample_header [0x40, 7]"
  by (simp add: header_ok_def sample_header_def emits_put_slice del: put_slice.simps)

lemma sample_begin:
  "\<exists>b. pb_begin sample_header (U8 9) (new_packet_buffer ([], 100) 50 [] (OneRtt False) 0 16) = Some (True, b)"
  by (simp add: pb_begin_def sample_header_def new_packet_buffer_def is_long_def pb_remaining_def saturating_add_def pb_write_def)

lemma add_type_eliciting:
  "is_ack_eliciting (add_type c ft) \<longleftrightarrow> is_ack_eliciting c \<or> \<not> contain_spec (frame_specs ft) NonAckEliciting"
  by (auto simp: add_type_def is_ack_eliciting_def contain_non_eliciting)

lemma fold_type_eliciting:
  "is_ack_eliciting (foldl (\<lambda>c f. add_type c (type_of_frame f)) c fs) \<longleftrightarrow>
     is_ack_eliciting c \<or> (\<exists>f \<in> set fs. \<not> contain_spec (frame_specs (type_of_frame f)) NonAckEliciting)"
  by (induction fs arbitrary: c) (auto simp: add_type_eliciting)

lemma pb_holds_read:
  assumes "nom_ok n" and "pb_holds H cap gs fs b"
  shows "\<exists>content. read_frames n \<lparr>fr_payload = drop (length H) (fst (pb_buffer b)), fr_packet_type = md_pktype (pb_meta b)\<rparr>
      NonAckElicitingContent [] = Some (Inr (content, filter (\<lambda>f. f \<noteq> Padding) fs)) \<and>
    (is_ack_eliciting content \<longleftrightarrow> is_ack_eliciting (md_content (pb_meta b)))"
proof -
  have h: "fst (pb_buffer b) = H @ frames_image fs" "delimited_all fs"
    "\<forall>f \<in> set fs. frame_wf f \<and> belongs_to (type_of_frame f) (md_pktype (pb_meta b))"
    "md_content (pb_meta b) = foldl (\<lambda>c f. add_type c (type_of_frame f)) NonAckElicitingContent fs"
    using assms(2) unfolding pb_holds_def by blast+
  show ?thesis
    using read_frames_put [OF assms(1) h(3,2), of NonAckElicitingContent "[]"] h(1,4)
    by (simp add: fold_content_eliciting fold_type_eliciting)
qed

section \<open>Properties\<close>





end
