(* ===== verification/Sender.thy ===== *)
theory Sender
  imports Stream_Transfer Recver Packet_Buffer
begin

text \<open>
  The sending part of a stream: the state machine of \<open>qrecovery/src/send/sender.rs\<close>, driven by the application through
  \<open>Writer\<close> (\<open>send/writer.rs\<close>) and by the protocol through \<open>Outgoing\<close> (\<open>send/outgoing.rs\<close>), over the send buffer of
  \<open>Send_Buf\<close>. \<open>ReadySender\<close> and \<open>SendingSender\<close> have the same fields and are one record. A handler returns its result,
  the new state and the wakers it wakes; the frames handed to the broker are returned too. \<open>None\<close> is a panic. A
  connection error is a value of the type parameter. The qlog events are left out.
\<close>

section \<open>The counters of the connection\<close>

record metrics =
  pending_bytes :: "64 word"
  inflight_bytes :: "64 word"
  acked_bytes :: "64 word"

definition add_pending :: "nat \<Rightarrow> metrics \<Rightarrow> metrics" where
  "add_pending n m = m\<lparr>pending_bytes := pending_bytes m + word_of_nat n\<rparr>"

definition metrics_sent :: "nat \<Rightarrow> metrics \<Rightarrow> metrics" where
  "metrics_sent n m = m\<lparr>inflight_bytes := inflight_bytes m + word_of_nat n, pending_bytes := pending_bytes m - word_of_nat n\<rparr>"

definition metrics_acked :: "nat \<Rightarrow> metrics \<Rightarrow> metrics" where
  "metrics_acked n m = m\<lparr>acked_bytes := acked_bytes m + word_of_nat n, inflight_bytes := inflight_bytes m - word_of_nat n\<rparr>"

section \<open>\<open>ReadySender\<close>\<close>

record open_sender =
  os_stream_id :: "64 word"
  os_sndbuf :: send_buf
  os_flush_waker :: "waker option"
  os_shutdown_waker :: "waker option"
  os_tx_wakers :: wakers
  os_writable_waker :: "waker option"

definition ready_new :: "64 word \<Rightarrow> nat \<Rightarrow> open_sender" where
  "ready_new sid buf_size =
     \<lparr>os_stream_id = sid, os_sndbuf = with_capacity buf_size, os_flush_waker = None, os_shutdown_waker = None,
      os_tx_wakers = [], os_writable_waker = None\<rparr>"

definition ready_poll_ready :: "waker \<Rightarrow> open_sender \<Rightarrow> ('e stream_error + unit) poll \<times> open_sender" where
  "ready_poll_ready w s =
     (if os_shutdown_waker s \<noteq> None then (Ready (Inl Finished), s)
      else if \<not> has_remaining_mut (os_sndbuf s) then (poll.Pending, s\<lparr>os_writable_waker := Some w\<rparr>)
      else (Ready (Inr ()), s))"

definition ready_write ::
  "byte list \<Rightarrow> open_sender \<times> metrics \<Rightarrow> (('e stream_error + unit) \<times> (open_sender \<times> metrics) \<times> waker list) option" where
  "ready_write data sm =
     (case sm of (s, m) \<Rightarrow>
        if os_shutdown_waker s \<noteq> None then Some (Inl Finished, (s, m), [])
        else map_option (\<lambda>b. (Inr (), (s\<lparr>os_sndbuf := b\<rparr>, add_pending (length data) m), wake_all (os_tx_wakers s)))
               (sb_write data (os_sndbuf s)))"

definition ready_update_window :: "nat \<Rightarrow> open_sender \<Rightarrow> (open_sender \<times> waker list) option" where
  "ready_update_window max_stream_data s =
     (if sb_max_data (os_sndbuf s) < max_stream_data then
        (let woken = (if sb_max_data (os_sndbuf s) < written (os_sndbuf s) then wake_all (os_tx_wakers s) else [])
         in map_option (\<lambda>b.
              let s = s\<lparr>os_sndbuf := b\<rparr>
              in if has_remaining_mut b
                 then (s\<lparr>os_writable_waker := None\<rparr>, woken @ (case os_writable_waker s of None \<Rightarrow> [] | Some w \<Rightarrow> [w]))
                 else (s, woken))
              (sb_extend max_stream_data (os_sndbuf s)))
      else Some (s, []))"

definition ready_poll_flush :: "waker \<Rightarrow> open_sender \<Rightarrow> unit poll \<times> open_sender" where
  "ready_poll_flush w s =
     (if is_all_rcvd (os_sndbuf s) then (Ready (), s) else (poll.Pending, s\<lparr>os_flush_waker := Some w\<rparr>))"

definition ready_poll_shutdown :: "waker \<Rightarrow> open_sender \<Rightarrow> unit poll \<times> open_sender \<times> waker list" where
  "ready_poll_shutdown w s = (poll.Pending, s\<lparr>os_shutdown_waker := Some w\<rparr>, wake_all (os_tx_wakers s))"

definition opt_waker :: "waker option \<Rightarrow> waker list" where
  "opt_waker w = (case w of None \<Rightarrow> [] | Some w \<Rightarrow> [w])"

definition ready_wake_all :: "open_sender \<Rightarrow> open_sender \<times> waker list" where
  "ready_wake_all s =
     (s\<lparr>os_writable_waker := None, os_flush_waker := None, os_shutdown_waker := None\<rparr>,
      wake_all (os_tx_wakers s) @ opt_waker (os_writable_waker s) @ opt_waker (os_flush_waker s) @
      opt_waker (os_shutdown_waker s))"

definition ready_be_stopped :: "open_sender \<Rightarrow> (nat \<times> open_sender \<times> waker list) option" where
  "ready_be_stopped s =
     (let (s, woken) = ready_wake_all s
      in if sb_sent (os_sndbuf s) \<noteq> 0 then None else Some (sb_sent (os_sndbuf s), s, woken))"

text \<open>The states before and after have the same fields; the old one is overwritten.\<close>

definition ready_upgrade :: "open_sender \<Rightarrow> open_sender" where
  "ready_upgrade s = s"

definition reset_of :: "nat \<Rightarrow> nat \<Rightarrow> reset_stream_error option" where
  "reset_of err_code final_size =
     Option.bind (from_u64 err_code) (\<lambda>e. map_option (\<lambda>n. \<lparr>re_app_err = e, re_final_size = n\<rparr>) (from_u64 final_size))"

definition combine :: "64 word \<Rightarrow> reset_stream_error \<Rightarrow> reset_stream_frame" where
  "combine sid r = \<lparr>rs_stream_id = sid, rs_app_err = re_app_err r, rs_final_size = re_final_size r\<rparr>"

definition ready_cancel :: "nat \<Rightarrow> open_sender \<Rightarrow> (reset_stream_error \<times> reset_stream_frame list) option" where
  "ready_cancel err_code s =
     map_option (\<lambda>r. (r, [combine (os_stream_id s) r])) (reset_of err_code (sb_sent (os_sndbuf s)))"

section \<open>\<open>SendingSender\<close>\<close>

definition sending_poll_ready :: "waker \<Rightarrow> open_sender \<Rightarrow> ('e stream_error + unit) poll \<times> open_sender" where
  "sending_poll_ready = ready_poll_ready"

definition sending_write ::
  "byte list \<Rightarrow> open_sender \<times> metrics \<Rightarrow> (('e stream_error + unit) \<times> (open_sender \<times> metrics) \<times> waker list) option" where
  "sending_write = ready_write"

definition sending_update_window :: "nat \<Rightarrow> open_sender \<Rightarrow> (open_sender \<times> waker list) option" where
  "sending_update_window = ready_update_window"

definition total_size :: "open_sender \<Rightarrow> nat option" where
  "total_size s = (if os_shutdown_waker s \<noteq> None then Some (written (os_sndbuf s)) else None)"

type_synonym stream_data = "(nat \<times> nat) \<times> bool \<times> byte list list \<times> bool"

definition sending_pick_up ::
  "(nat \<Rightarrow> nat option) \<Rightarrow> nat \<Rightarrow> open_sender \<Rightarrow> (unit poll + stream_data) \<times> open_sender" where
  "sending_pick_up predicate flow_limit s =
     (let total = total_size s;
          sent = sb_sent (os_sndbuf s);
          (res, b) = pick_up predicate flow_limit (os_sndbuf s);
          s = s\<lparr>os_sndbuf := b\<rparr>
      in case res of
           Inr ((lo, hi), is_fresh, data) \<Rightarrow> (Inr ((lo, hi), is_fresh, data, Some hi = total), s)
         | Inl availability \<Rightarrow>
             if total = Some sent then
               (case predicate sent of
                  None \<Rightarrow> (Inl (Ready ()), s)
                | Some _ \<Rightarrow> (Inr ((sent, sent), False, [], True), s))
             else (Inl availability, s))"

definition sending_on_data_acked :: "stream_frame \<Rightarrow> open_sender \<Rightarrow> (open_sender \<times> waker list) option" where
  "sending_on_data_acked f s =
     map_option (\<lambda>b.
       let s = s\<lparr>os_sndbuf := b\<rparr>
       in if is_all_rcvd b then (s\<lparr>os_flush_waker := None\<rparr>, opt_waker (os_flush_waker s)) else (s, []))
       (on_data_acked (sf_offset f) (sf_offset f + sf_length f) (os_sndbuf s))"

definition sending_may_loss_data :: "stream_frame \<Rightarrow> open_sender \<Rightarrow> (open_sender \<times> waker list) option" where
  "sending_may_loss_data f s =
     map_option (\<lambda>b. (s\<lparr>os_sndbuf := b\<rparr>, wake_all (os_tx_wakers s)))
       (may_loss_data (sf_offset f) (sf_offset f + sf_length f) (os_sndbuf s))"

definition sending_poll_flush :: "waker \<Rightarrow> open_sender \<Rightarrow> unit poll \<times> open_sender" where
  "sending_poll_flush = ready_poll_flush"

definition sending_poll_shutdown :: "waker \<Rightarrow> open_sender \<Rightarrow> unit poll \<times> open_sender \<times> waker list" where
  "sending_poll_shutdown = ready_poll_shutdown"

definition sending_wake_all :: "open_sender \<Rightarrow> open_sender \<times> waker list" where
  "sending_wake_all = ready_wake_all"

definition sending_be_stopped :: "open_sender \<Rightarrow> nat \<times> open_sender \<times> waker list" where
  "sending_be_stopped s = (let (s, woken) = sending_wake_all s in (sb_sent (os_sndbuf s), s, woken))"

definition sending_cancel :: "nat \<Rightarrow> open_sender \<Rightarrow> (reset_stream_error \<times> reset_stream_frame list) option" where
  "sending_cancel err_code s =
     map_option (\<lambda>r. (r, [combine (os_stream_id s) r])) (reset_of err_code (sb_sent (os_sndbuf s)))"

section \<open>\<open>DataSentSender\<close>\<close>

datatype fin_state = FinSent | FinLost | FinRcvd

record data_sent =
  ds_stream_id :: "64 word"
  ds_sndbuf :: send_buf
  ds_flush_waker :: "waker option"
  ds_shutdown_waker :: "waker option"
  ds_tx_wakers :: wakers
  ds_fin_state :: fin_state

definition sending_upgrade :: "open_sender \<Rightarrow> data_sent" where
  "sending_upgrade s =
     \<lparr>ds_stream_id = os_stream_id s, ds_sndbuf = os_sndbuf s, ds_flush_waker = os_flush_waker s,
      ds_shutdown_waker = os_shutdown_waker s, ds_tx_wakers = os_tx_wakers s, ds_fin_state = FinSent\<rparr>"

definition ds_pick_up ::
  "(nat \<Rightarrow> nat option) \<Rightarrow> nat \<Rightarrow> data_sent \<Rightarrow> (unit poll + stream_data) \<times> data_sent" where
  "ds_pick_up predicate flow_limit s =
     (let total = written (ds_sndbuf s);
          (res, b) = pick_up predicate flow_limit (ds_sndbuf s);
          s = s\<lparr>ds_sndbuf := b\<rparr>
      in case res of
           Inr ((lo, hi), is_fresh, data) \<Rightarrow> (Inr ((lo, hi), is_fresh, data, hi = total), s)
         | Inl availability \<Rightarrow>
             if ds_fin_state s = FinLost then
               (case predicate total of
                  None \<Rightarrow> (Inl (Ready ()), s)
                | Some _ \<Rightarrow> (Inr ((total, total), False, [], True), s\<lparr>ds_fin_state := FinSent\<rparr>))
             else (Inl availability, s))"

definition ds_is_all_rcvd :: "data_sent \<Rightarrow> bool" where
  "ds_is_all_rcvd s \<longleftrightarrow> is_all_rcvd (ds_sndbuf s) \<and> ds_fin_state s = FinRcvd"

definition ds_on_data_acked :: "stream_frame \<Rightarrow> data_sent \<Rightarrow> (data_sent \<times> waker list) option" where
  "ds_on_data_acked f s =
     map_option (\<lambda>b.
       let s = s\<lparr>ds_sndbuf := b\<rparr>;
           s = (if is_fin f then s\<lparr>ds_fin_state := FinRcvd\<rparr> else s)
       in if ds_is_all_rcvd s
          then (s\<lparr>ds_flush_waker := None, ds_shutdown_waker := None\<rparr>,
                opt_waker (ds_flush_waker s) @ opt_waker (ds_shutdown_waker s))
          else (s, []))
       (on_data_acked (sf_offset f) (sf_offset f + sf_length f) (ds_sndbuf s))"

definition ds_may_loss_data :: "stream_frame \<Rightarrow> data_sent \<Rightarrow> (data_sent \<times> waker list) option" where
  "ds_may_loss_data f s =
     (let woken = wake_all (ds_tx_wakers s);
          s = (if is_fin f \<and> ds_fin_state s \<noteq> FinRcvd then s\<lparr>ds_fin_state := FinLost\<rparr> else s)
      in map_option (\<lambda>b. (s\<lparr>ds_sndbuf := b\<rparr>, woken))
           (may_loss_data (sf_offset f) (sf_offset f + sf_length f) (ds_sndbuf s)))"

definition ds_poll_flush :: "waker \<Rightarrow> data_sent \<Rightarrow> (unit poll \<times> data_sent) option" where
  "ds_poll_flush w s = (if ds_is_all_rcvd s then None else Some (poll.Pending, s\<lparr>ds_flush_waker := Some w\<rparr>))"

definition ds_poll_shutdown :: "waker \<Rightarrow> data_sent \<Rightarrow> (unit poll \<times> data_sent \<times> waker list) option" where
  "ds_poll_shutdown w s =
     (if ds_is_all_rcvd s then None else Some (poll.Pending, s\<lparr>ds_shutdown_waker := Some w\<rparr>, wake_all (ds_tx_wakers s)))"

definition ds_wake_all :: "data_sent \<Rightarrow> data_sent \<times> waker list" where
  "ds_wake_all s =
     (s\<lparr>ds_flush_waker := None, ds_shutdown_waker := None\<rparr>,
      wake_all (ds_tx_wakers s) @ opt_waker (ds_flush_waker s) @ opt_waker (ds_shutdown_waker s))"

definition ds_be_stopped :: "data_sent \<Rightarrow> nat \<times> data_sent \<times> waker list" where
  "ds_be_stopped s = (let (s, woken) = ds_wake_all s in (written (ds_sndbuf s), s, woken))"

definition ds_cancel :: "nat \<Rightarrow> data_sent \<Rightarrow> (reset_stream_error \<times> reset_stream_frame list) option" where
  "ds_cancel err_code s =
     map_option (\<lambda>r. (r, [combine (ds_stream_id s) r])) (reset_of err_code (sb_sent (ds_sndbuf s)))"

section \<open>\<open>Sender\<close>\<close>

datatype sender =
    SReady open_sender
  | SSending open_sender
  | SDataSent data_sent
  | SDataRcvd
  | SResetSent reset_stream_error
  | SResetRcvd reset_stream_error

type_synonym 'e arc_sender = "'e + sender"

definition new_sender :: "64 word \<Rightarrow> nat \<Rightarrow> 'e arc_sender" where
  "new_sender sid buf_size = Inr (SReady (ready_new sid buf_size))"

definition sender_fresh_bytes :: "sender \<Rightarrow> nat" where
  "sender_fresh_bytes s =
     (let fresh = (\<lambda>b. min (written b) (sb_max_data b) - sb_sent b)
      in case s of
           SReady s \<Rightarrow> fresh (os_sndbuf s)
         | SSending s \<Rightarrow> fresh (os_sndbuf s)
         | SDataSent s \<Rightarrow> fresh (ds_sndbuf s)
         | _ \<Rightarrow> 0)"

definition sender_source :: "sender \<Rightarrow> (64 word \<times> wakers) option" where
  "sender_source s =
     (case s of
        SReady s \<Rightarrow> Some (os_stream_id s, os_tx_wakers s)
      | SSending s \<Rightarrow> Some (os_stream_id s, os_tx_wakers s)
      | SDataSent s \<Rightarrow> Some (ds_stream_id s, ds_tx_wakers s)
      | _ \<Rightarrow> None)"

definition set_tx_wakers :: "wakers \<Rightarrow> sender \<Rightarrow> sender" where
  "set_tx_wakers ws s =
     (case s of
        SReady s \<Rightarrow> SReady (s\<lparr>os_tx_wakers := ws\<rparr>)
      | SSending s \<Rightarrow> SSending (s\<lparr>os_tx_wakers := ws\<rparr>)
      | SDataSent s \<Rightarrow> SDataSent (s\<lparr>ds_tx_wakers := ws\<rparr>)
      | s \<Rightarrow> s)"

section \<open>\<open>Outgoing\<close>\<close>

text \<open>The choice of what to send, with the change of state it brings.\<close>

definition outgoing_pick :: "(nat \<Rightarrow> nat option) \<Rightarrow> nat \<Rightarrow> sender \<Rightarrow> (unit poll + stream_data) \<times> sender" where
  "outgoing_pick predicate flow_limit sender =
     (let settle = (\<lambda>(res, s). (res, case res of
            Inr (_, _, _, True) \<Rightarrow> SDataSent (sending_upgrade s)
          | _ \<Rightarrow> SSending s))
      in case sender of
           SReady s \<Rightarrow> settle (sending_pick_up predicate flow_limit (ready_upgrade s))
         | SSending s \<Rightarrow> settle (sending_pick_up predicate flow_limit s)
         | SDataSent s \<Rightarrow> apsnd SDataSent (ds_pick_up predicate flow_limit s)
         | _ \<Rightarrow> (Inl poll.Pending, sender))"

text \<open>The closure \<open>write\<close>: one STREAM frame, after padding where the frame is to fill the packet.\<close>

definition write_stream ::
  "64 word \<Rightarrow> nat \<Rightarrow> stream_data \<Rightarrow> packet_buffer \<times> nat \<times> nat \<Rightarrow> (packet_buffer \<times> nat \<times> nat) option" where
  "write_stream sid capacity sd st =
     (case (sd, st) of (((lo, hi), fresh, data, eos), (b, credit, budget)) \<Rightarrow>
        Option.bind (stream_frame_new sid lo (hi - lo)) (\<lambda>f.
        let f = set_eos_flag eos f
        in Option.bind (encoding_strategy f capacity) (\<lambda>strategy.
           let f = set_len_bit (es_len_bit strategy) f
           in Option.bind
                (if es_pre_padding strategy \<noteq> 0
                 then map_option (pb_record Padding) (pb_write (put_slice (replicate (es_pre_padding strategy) 0)) b)
                 else Some b) (\<lambda>b.
              Option.bind (frame_dump (Stream f (concat data)) b) (\<lambda>(res, b).
              if res \<noteq> Ready (Inr 1) then None
              else Option.bind (checked_sub budget (sf_length f)) (\<lambda>budget.
                   map_option (\<lambda>credit. (b, credit, budget))
                     (if fresh then checked_sub credit (sf_length f) else Some credit)))))))"

text \<open>
  The assertion of \<open>estimate_max_capacity\<close> is on offsets beyond \<open>2 ^ 62\<close>, which no buffer has: the predicate takes them as
  not sendable.
\<close>

definition stream_predicate :: "nat \<Rightarrow> 64 word \<Rightarrow> nat \<Rightarrow> nat \<Rightarrow> nat option" where
  "stream_predicate capacity sid allowance offset =
     (case stream_max_capacity capacity sid offset of
        Some (Some n) \<Rightarrow> Some (min n allowance)
      | _ \<Rightarrow> None)"

definition outgoing_poll_dump ::
  "waker \<Rightarrow> 'e arc_sender \<times> nat \<times> nat \<Rightarrow> packet_buffer \<Rightarrow>
   ((quic_error + nat) poll \<times> ('e arc_sender \<times> nat \<times> nat) \<times> packet_buffer) option" where
  "outgoing_poll_dump w st b =
     (case st of (s, credit, budget) \<Rightarrow>
        case s of
          Inl _ \<Rightarrow> Some (Ready (Inr 0), (s, credit, budget), b)
        | Inr sender \<Rightarrow>
            (case sender_source sender of
               None \<Rightarrow> Some (poll.Pending, (s, credit, budget), b)
             | Some (sid, _) \<Rightarrow>
                 (let b = for_frame (TStream Zero Explicit No) b;
                      capacity = pb_remaining b;
                      start = md_nframes (pb_meta b)
                  in case outgoing_pick (stream_predicate capacity sid budget) credit sender of
                       (Inr sd, sender) \<Rightarrow>
                         map_option (\<lambda>(b, credit, budget).
                           (Ready (Inr (md_nframes (pb_meta b) - start)), (Inr sender, credit, budget), b))
                           (write_stream sid capacity sd (b, credit, budget))
                     | (Inl (Ready _), sender) \<Rightarrow> Some (Ready (Inr 0), (Inr sender, credit, budget), b)
                     | (Inl poll.Pending, sender) \<Rightarrow>
                         Some (poll.Pending, (Inr (case sender_source sender of
                             None \<Rightarrow> sender | Some (_, ws) \<Rightarrow> set_tx_wakers (register w ws) sender), credit, budget), b))))"

definition outgoing_fresh_bytes :: "'e arc_sender \<Rightarrow> nat" where
  "outgoing_fresh_bytes s = (case s of Inl _ \<Rightarrow> 0 | Inr sender \<Rightarrow> sender_fresh_bytes sender)"

definition outgoing_update_window :: "nat \<Rightarrow> 'e arc_sender \<Rightarrow> ('e arc_sender \<times> waker list) option" where
  "outgoing_update_window max_stream_data s =
     (if VARINT_MAX < max_stream_data then None
      else case s of
             Inr (SReady r) \<Rightarrow> map_option (\<lambda>(r, woken). (Inr (SReady r), woken)) (ready_update_window max_stream_data r)
           | Inr (SSending r) \<Rightarrow> map_option (\<lambda>(r, woken). (Inr (SSending r), woken)) (sending_update_window max_stream_data r)
           | _ \<Rightarrow> Some (s, []))"

definition outgoing_on_data_acked :: "stream_frame \<Rightarrow> 'e arc_sender \<Rightarrow> (bool \<times> 'e arc_sender \<times> waker list) option" where
  "outgoing_on_data_acked f s =
     (case s of
        Inr (SReady _) \<Rightarrow> None
      | Inr (SSending r) \<Rightarrow> map_option (\<lambda>(r, woken). (False, Inr (SSending r), woken)) (sending_on_data_acked f r)
      | Inr (SDataSent r) \<Rightarrow>
          map_option (\<lambda>(r, woken). if ds_is_all_rcvd r then (True, Inr SDataRcvd, woken) else (False, Inr (SDataSent r), woken))
            (ds_on_data_acked f r)
      | _ \<Rightarrow> Some (False, s, []))"

definition outgoing_may_loss_data :: "stream_frame \<Rightarrow> 'e arc_sender \<Rightarrow> ('e arc_sender \<times> waker list) option" where
  "outgoing_may_loss_data f s =
     (case s of
        Inr (SReady _) \<Rightarrow> None
      | Inr (SSending r) \<Rightarrow> map_option (\<lambda>(r, woken). (Inr (SSending r), woken)) (sending_may_loss_data f r)
      | Inr (SDataSent r) \<Rightarrow> map_option (\<lambda>(r, woken). (Inr (SDataSent r), woken)) (ds_may_loss_data f r)
      | _ \<Rightarrow> Some (s, []))"

definition outgoing_be_stopped :: "nat \<Rightarrow> 'e arc_sender \<Rightarrow> (nat option \<times> 'e arc_sender \<times> waker list) option" where
  "outgoing_be_stopped error_code s =
     (let stop = (\<lambda>(final_size, woken). map_option (\<lambda>r. (Some final_size, Inr (SResetSent r), woken)) (reset_of error_code final_size))
      in case s of
           Inr (SReady r) \<Rightarrow> Option.bind (ready_be_stopped r) (\<lambda>(final_size, _, woken). stop (final_size, woken))
         | Inr (SSending r) \<Rightarrow> (case sending_be_stopped r of (final_size, _, woken) \<Rightarrow> stop (final_size, woken))
         | Inr (SDataSent r) \<Rightarrow> (case ds_be_stopped r of (final_size, _, woken) \<Rightarrow> stop (final_size, woken))
         | _ \<Rightarrow> Some (None, s, []))"

definition outgoing_on_reset_acked :: "'e arc_sender \<Rightarrow> 'e arc_sender option" where
  "outgoing_on_reset_acked s =
     (case s of
        Inl _ \<Rightarrow> Some s
      | Inr (SResetSent r) \<Rightarrow> Some (Inr (SResetRcvd r))
      | Inr (SResetRcvd _) \<Rightarrow> Some s
      | _ \<Rightarrow> None)"

definition outgoing_on_error :: "'e \<Rightarrow> 'e arc_sender \<Rightarrow> 'e arc_sender \<times> waker list" where
  "outgoing_on_error e s =
     (case s of
        Inr (SReady r) \<Rightarrow> (Inl e, snd (ready_wake_all r))
      | Inr (SSending r) \<Rightarrow> (Inl e, snd (sending_wake_all r))
      | Inr (SDataSent r) \<Rightarrow> (Inl e, snd (ds_wake_all r))
      | _ \<Rightarrow> (s, []))"

definition outgoing_unregister :: "waker \<Rightarrow> 'e arc_sender \<Rightarrow> 'e arc_sender" where
  "outgoing_unregister w s =
     (case s of
        Inl _ \<Rightarrow> s
      | Inr sender \<Rightarrow>
          (case sender_source sender of None \<Rightarrow> s | Some (_, ws) \<Rightarrow> Inr (set_tx_wakers (unregister w ws) sender)))"

section \<open>\<open>Writer\<close>\<close>

definition writer_cancel :: "nat \<Rightarrow> 'e arc_sender \<Rightarrow> ('e arc_sender \<times> reset_stream_frame list) option" where
  "writer_cancel err_code s =
     (case s of
        Inr (SReady r) \<Rightarrow> map_option (\<lambda>(reset, fs). (Inr (SResetSent reset), fs)) (ready_cancel err_code r)
      | Inr (SSending r) \<Rightarrow> map_option (\<lambda>(reset, fs). (Inr (SResetSent reset), fs)) (sending_cancel err_code r)
      | Inr (SDataSent r) \<Rightarrow> map_option (\<lambda>(reset, fs). (Inr (SResetSent reset), fs)) (ds_cancel err_code r)
      | _ \<Rightarrow> Some (s, []))"

definition writer_poll_ready :: "waker \<Rightarrow> 'e arc_sender \<Rightarrow> ('e stream_error + unit) poll \<times> 'e arc_sender" where
  "writer_poll_ready w s =
     (case s of
        Inl e \<Rightarrow> (Ready (Inl (Connection e)), s)
      | Inr (SReady r) \<Rightarrow> apsnd (Inr \<circ> SReady) (ready_poll_ready w r)
      | Inr (SSending r) \<Rightarrow> apsnd (Inr \<circ> SSending) (sending_poll_ready w r)
      | Inr (SDataSent _) \<Rightarrow> (Ready (Inl Finished), s)
      | Inr SDataRcvd \<Rightarrow> (Ready (Inl Finished), s)
      | Inr (SResetSent reset) \<Rightarrow> (Ready (Inl (Reset reset)), s)
      | Inr (SResetRcvd reset) \<Rightarrow> (Ready (Inl (Reset reset)), s))"

definition writer_write ::
  "byte list \<Rightarrow> 'e arc_sender \<times> metrics \<Rightarrow> (('e stream_error + unit) \<times> ('e arc_sender \<times> metrics) \<times> waker list) option" where
  "writer_write buf sm =
     (case sm of (s, m) \<Rightarrow>
        case s of
          Inl e \<Rightarrow> Some (Inl (Connection e), sm, [])
        | Inr (SReady r) \<Rightarrow> map_option (apsnd (apfst (apfst (Inr \<circ> SReady)))) (ready_write buf (r, m))
        | Inr (SSending r) \<Rightarrow> map_option (apsnd (apfst (apfst (Inr \<circ> SSending)))) (sending_write buf (r, m))
        | Inr (SDataSent _) \<Rightarrow> Some (Inl Finished, sm, [])
        | Inr SDataRcvd \<Rightarrow> Some (Inl Finished, sm, [])
        | Inr (SResetSent reset) \<Rightarrow> Some (Inl (Reset reset), sm, [])
        | Inr (SResetRcvd reset) \<Rightarrow> Some (Inl (Reset reset), sm, []))"

text \<open>\<open>poll_write\<close>: in the two open states the data is written when there is room for more.\<close>

definition writer_poll_write ::
  "waker \<Rightarrow> byte list \<Rightarrow> 'e arc_sender \<times> metrics \<Rightarrow>
   (('e stream_error + unit) poll \<times> ('e arc_sender \<times> metrics) \<times> waker list) option" where
  "writer_poll_write w data sm =
     (case sm of (s, m) \<Rightarrow>
        case s of
          Inl e \<Rightarrow> Some (Ready (Inl (Connection e)), sm, [])
        | Inr (SReady r) \<Rightarrow>
            (case ready_poll_ready w r of
               (poll.Pending, r) \<Rightarrow> Some (poll.Pending, (Inr (SReady r), m), [])
             | (Ready (Inl e), r) \<Rightarrow> Some (Ready (Inl e), (Inr (SReady r), m), [])
             | (Ready (Inr _), r) \<Rightarrow> map_option (\<lambda>(res, (r, m), woken). (Ready res, (Inr (SReady r), m), woken)) (ready_write data (r, m)))
        | Inr (SSending r) \<Rightarrow>
            (case sending_poll_ready w r of
               (poll.Pending, r) \<Rightarrow> Some (poll.Pending, (Inr (SSending r), m), [])
             | (Ready (Inl e), r) \<Rightarrow> Some (Ready (Inl e), (Inr (SSending r), m), [])
             | (Ready (Inr _), r) \<Rightarrow>
                 map_option (\<lambda>(res, (r, m), woken). (Ready res, (Inr (SSending r), m), woken)) (sending_write data (r, m)))
        | Inr (SDataSent _) \<Rightarrow> Some (Ready (Inl Finished), sm, [])
        | Inr SDataRcvd \<Rightarrow> Some (Ready (Inl Finished), sm, [])
        | Inr (SResetSent reset) \<Rightarrow> Some (Ready (Inl (Reset reset)), sm, [])
        | Inr (SResetRcvd reset) \<Rightarrow> Some (Ready (Inl (Reset reset)), sm, []))"

definition writer_poll_flush :: "waker \<Rightarrow> 'e arc_sender \<Rightarrow> (('e stream_error + unit) poll \<times> 'e arc_sender) option" where
  "writer_poll_flush w s =
     (let ok = (\<lambda>p. case p of poll.Pending \<Rightarrow> poll.Pending | Ready u \<Rightarrow> Ready (Inr u))
      in case s of
           Inl e \<Rightarrow> Some (Ready (Inl (Connection e)), s)
         | Inr (SReady r) \<Rightarrow> Some (map_prod ok (Inr \<circ> SReady) (ready_poll_flush w r))
         | Inr (SSending r) \<Rightarrow> Some (map_prod ok (Inr \<circ> SSending) (sending_poll_flush w r))
         | Inr (SDataSent r) \<Rightarrow> map_option (map_prod ok (Inr \<circ> SDataSent)) (ds_poll_flush w r)
         | Inr SDataRcvd \<Rightarrow> Some (Ready (Inr ()), s)
         | Inr (SResetSent reset) \<Rightarrow> Some (Ready (Inl (Reset reset)), s)
         | Inr (SResetRcvd reset) \<Rightarrow> Some (Ready (Inl (Reset reset)), s))"

definition writer_poll_shutdown ::
  "waker \<Rightarrow> 'e arc_sender \<Rightarrow> (('e stream_error + unit) poll \<times> 'e arc_sender \<times> waker list) option" where
  "writer_poll_shutdown w s =
     (let ok = (\<lambda>p. case p of poll.Pending \<Rightarrow> poll.Pending | Ready u \<Rightarrow> Ready (Inr u))
      in case s of
           Inl e \<Rightarrow> Some (Ready (Inl (Connection e)), s, [])
         | Inr (SReady r) \<Rightarrow> Some (map_prod ok (apfst (Inr \<circ> SReady)) (ready_poll_shutdown w r))
         | Inr (SSending r) \<Rightarrow> Some (map_prod ok (apfst (Inr \<circ> SSending)) (sending_poll_shutdown w r))
         | Inr (SDataSent r) \<Rightarrow> map_option (map_prod ok (apfst (Inr \<circ> SDataSent))) (ds_poll_shutdown w r)
         | Inr SDataRcvd \<Rightarrow> Some (Ready (Inr ()), s, [])
         | Inr (SResetSent reset) \<Rightarrow> Some (Ready (Inl (Reset reset)), s, [])
         | Inr (SResetRcvd reset) \<Rightarrow> Some (Ready (Inl (Reset reset)), s, []))"

section \<open>A stream being sent\<close>

text \<open>
  What happens to the sending part of a stream, with the history as ghosts: the bytes written so far, the frames sent and the
  frames acknowledged. Frames may be acknowledged and reported lost in any order and any number of times.
\<close>

inductive sending ::
  "byte list \<Rightarrow> (stream_frame \<times> byte list) set \<Rightarrow> (stream_frame \<times> byte list) set \<Rightarrow> 'e arc_sender \<Rightarrow> bool" where
  Start: "sending [] {} {} (new_sender sid buf_size)"
| Write: "sending W F A s \<Longrightarrow> length W + length d < 2 ^ 62 \<Longrightarrow> writer_write d (s, m) = Some (res, (s', m'), woken) \<Longrightarrow>
    sending (W @ (if res = Inr () then d else [])) F A s'"
| Poll_Write: "sending W F A s \<Longrightarrow> length W + length d < 2 ^ 62 \<Longrightarrow> writer_poll_write w d (s, m) = Some (res, (s', m'), woken) \<Longrightarrow>
    sending (W @ (if res = Ready (Inr ()) then d else [])) F A s'"
| Poll_Ready: "sending W F A s \<Longrightarrow> writer_poll_ready w s = (res, s') \<Longrightarrow> sending W F A s'"
| Flush: "sending W F A s \<Longrightarrow> writer_poll_flush w s = Some (res, s') \<Longrightarrow> sending W F A s'"
| Shutdown: "sending W F A s \<Longrightarrow> writer_poll_shutdown w s = Some (res, s', woken) \<Longrightarrow> sending W F A s'"
| Cancel: "sending W F A s \<Longrightarrow> writer_cancel err s = Some (s', frames) \<Longrightarrow> sending W F A s'"
| Window: "sending W F A s \<Longrightarrow> outgoing_update_window n s = Some (s', woken) \<Longrightarrow> sending W F A s'"
| Send: "sending W F A (Inr s) \<Longrightarrow> \<forall>p k. predicate p = Some k \<longrightarrow> 0 < k \<Longrightarrow>
    outgoing_pick predicate flow s = (Inr ((lo, hi), fresh, data, eos), s') \<Longrightarrow>
    sf_offset f = lo \<Longrightarrow> sf_length f = hi - lo \<Longrightarrow> is_fin f = eos \<Longrightarrow>
    sending W (insert (f, concat data) F) A (Inr s')"
| Idle: "sending W F A (Inr s) \<Longrightarrow> outgoing_pick predicate flow s = (Inl r, s') \<Longrightarrow> sending W F A (Inr s')"
| Wait: "sending W F A (Inr s) \<Longrightarrow> sending W F A (Inr (set_tx_wakers ws s))"
| Acked: "sending W F A s \<Longrightarrow> (f, d) \<in> F \<Longrightarrow> outgoing_on_data_acked f s = Some (done, s', woken) \<Longrightarrow>
    sending W F (insert (f, d) A) s'"
| Lost: "sending W F A s \<Longrightarrow> (f, d) \<in> F \<Longrightarrow> outgoing_may_loss_data f s = Some (s', woken) \<Longrightarrow> sending W F A s'"
| Stopped: "sending W F A s \<Longrightarrow> outgoing_be_stopped err s = Some (final_size, s', woken) \<Longrightarrow> sending W F A s'"
| Reset_Acked: "sending W F A s \<Longrightarrow> outgoing_on_reset_acked s = Some s' \<Longrightarrow> sending W F A s'"
| Error: "sending W F A s \<Longrightarrow> outgoing_on_error e s = (s', woken) \<Longrightarrow> sending W F A s'"

section \<open>The invariant\<close>

definition covered :: "(stream_frame \<times> byte list) set \<Rightarrow> nat \<Rightarrow> bool" where
  "covered A p \<longleftrightarrow> (\<exists>(f, d) \<in> A. sf_offset f \<le> p \<and> p < sf_offset f + length d)"

definition acked_by :: "(stream_frame \<times> byte list) set \<Rightarrow> send_buf \<Rightarrow> bool" where
  "acked_by A b \<longleftrightarrow> (\<forall>p. confirmed b p \<longrightarrow> covered A p)"

definition fin_in :: "(stream_frame \<times> byte list) set \<Rightarrow> bool" where
  "fin_in F \<longleftrightarrow> (\<exists>(f, d) \<in> F. is_fin f)"

definition within :: "nat \<Rightarrow> (stream_frame \<times> byte list) set \<Rightarrow> bool" where
  "within n F \<longleftrightarrow> (\<forall>(f, d) \<in> F. sf_offset f + length d \<le> n)"

definition sent_all :: "byte list \<Rightarrow> send_buf \<Rightarrow> bool" where
  "sent_all W b \<longleftrightarrow> sb_ok W b \<and> sb_sent b = length W \<and> bm_size (sb_state b) = length W"

fun sender_inv ::
  "byte list \<Rightarrow> (stream_frame \<times> byte list) set \<Rightarrow> (stream_frame \<times> byte list) set \<Rightarrow> 'e arc_sender \<Rightarrow> bool" where
  "sender_inv W F A (Inl _) \<longleftrightarrow> True"
| "sender_inv W F A (Inr (SReady r)) \<longleftrightarrow> sends W (os_sndbuf r) \<and> sb_sent (os_sndbuf r) = 0 \<and> F = {}"
| "sender_inv W F A (Inr (SSending r)) \<longleftrightarrow> sends W (os_sndbuf r) \<and> within (sb_sent (os_sndbuf r)) F \<and>
     (\<forall>(f, d) \<in> F. d \<noteq> [] \<and> \<not> is_fin f) \<and> acked_by A (os_sndbuf r)"
| "sender_inv W F A (Inr (SDataSent r)) \<longleftrightarrow> sent_all W (ds_sndbuf r) \<and> (\<forall>(f, d) \<in> F. d = [] \<longrightarrow> sf_offset f = length W) \<and>
     acked_by A (ds_sndbuf r) \<and> (ds_fin_state r = FinRcvd \<longrightarrow> fin_in A) \<and> \<not> ds_is_all_rcvd r"
| "sender_inv W F A (Inr SDataRcvd) \<longleftrightarrow> (\<forall>p < length W. covered A p) \<and> fin_in A"
| "sender_inv W F A (Inr (SResetSent r)) \<longleftrightarrow> re_final_size r \<le> length W \<and> within (re_final_size r) F \<and>
     (fin_in F \<longrightarrow> re_final_size r = length W)"
| "sender_inv W F A (Inr (SResetRcvd r)) \<longleftrightarrow> re_final_size r \<le> length W \<and> within (re_final_size r) F \<and>
     (fin_in F \<longrightarrow> re_final_size r = length W)"

definition sender_ok ::
  "byte list \<Rightarrow> (stream_frame \<times> byte list) set \<Rightarrow> (stream_frame \<times> byte list) set \<Rightarrow> 'e arc_sender \<Rightarrow> bool" where
  "sender_ok W F A s \<longleftrightarrow> A \<subseteq> F \<and> length W < 2 ^ 62 \<and> (\<forall>(f, d) \<in> F. stream_part W f d) \<and> sender_inv W F A s"

section \<open>The buffer in the two phases\<close>

lemma extend_to_sent: "extend_to pos m = Some (k, m') \<Longrightarrow> bm_size m < 2 ^ 62 \<Longrightarrow> bm_sent m' = bm_sent m"
  by (auto simp: extend_to_def bm_sent_def Let_def split: if_splits)

lemma sends_small: "sends W b \<Longrightarrow> bm_size (sb_state b) < 2 ^ 62"
  by (simp add: sends_def sb_ok_def Send_Buf.map_ok_def)

lemma sb_write_sent: "sends W b \<Longrightarrow> sb_write d b = Some b' \<Longrightarrow> sb_sent b' = sb_sent b"
  using sends_small [of W b] extend_to_sent
  by (fastforce simp: sb_write_def sb_sent_def split: if_splits)

lemma sb_extend_sent: "sends W b \<Longrightarrow> sb_extend n b = Some b' \<Longrightarrow> sb_sent b' = sb_sent b"
  using sends_small [of W b] extend_to_sent
  by (fastforce simp: sb_extend_def sb_sent_def split: if_splits)

lemma sends_written: "sends W b \<Longrightarrow> written b = length W"
  by (simp add: sends_def written_length)

lemma sends_sent_le: "sends W b \<Longrightarrow> sb_sent b \<le> length W"
proof -
  assume s: "sends W b"
  then have "Send_Buf.map_ok (sb_state b)" "bm_size (sb_state b) \<le> length W" by (simp_all add: sends_def sb_ok_def)
  with bm_sent_le [of "sb_state b"] show ?thesis by (simp add: sb_sent_def)
qed

text \<open>All data acknowledged: every byte is coloured received.\<close>

lemma all_rcvd_confirmed:
  assumes "sb_ok W b" and "is_all_rcvd b" and "p < length W"
  shows "confirmed b p"
proof -
  have b: "concat (sb_data b) = drop (sb_offset b) W" "sb_offset b \<le> bm_size (sb_state b)"
    "\<forall>p < sb_offset b. color_at (sb_state b) p = Recved" using assms(1) by (auto simp: sb_ok_def)
  have "length W \<le> sb_offset b" using b(1) assms(2) by (simp add: is_all_rcvd_def)
  with b assms(3) show ?thesis by (simp add: confirmed_def)
qed

lemma acked_by_mono: "acked_by A b \<Longrightarrow> (\<And>p. confirmed b' p \<Longrightarrow> confirmed b p) \<Longrightarrow> acked_by A b'"
  by (auto simp: acked_by_def)

lemma acked_by_insert:
  assumes "acked_by A b" and "\<And>p. confirmed b' p \<Longrightarrow> confirmed b p \<or> sf_offset f \<le> p \<and> p < sf_offset f + length d"
  shows "acked_by (insert (f, d) A) b'"
  using assms by (fastforce simp: acked_by_def covered_def)

lemma with_capacity_sends: "sends [] (with_capacity n)" "sb_sent (with_capacity n) = 0" "\<not> confirmed (with_capacity n) p"
  using with_capacity_ok by (auto simp: sends_def with_capacity_def empty_map_def confirmed_def sb_sent_def bm_sent_def)

lemma sent_all_range:
  assumes "sent_all W b" and "stream_part W f d" and "d = [] \<longrightarrow> sf_offset f = length W"
  shows "range_ok (sb_state b) (sf_offset f) (sf_offset f + sf_length f)"
  using assms by (auto simp: sent_all_def range_ok_def stream_part_def slice_of_def sb_sent_def)

section \<open>Every operation keeps the invariant\<close>

text \<open>A buffer that grows while the stream is open.\<close>

definition grows :: "byte list \<Rightarrow> send_buf \<Rightarrow> send_buf \<Rightarrow> bool" where
  "grows W' b b' \<longleftrightarrow> sends W' b' \<and> sb_sent b' = sb_sent b \<and> (\<forall>p. confirmed b' p \<longrightarrow> confirmed b p)"

lemma grows_refl: "sends W b \<Longrightarrow> grows W b b"
  by (simp add: grows_def)

lemma sb_write_grows:
  assumes "sends W b" and "length W + length d < 2 ^ 62"
  obtains b' where "sb_write d b = Some b'" "grows (W @ d) b b'"
  using sb.wr_ok [OF assms] sb_write_sent [OF assms(1)] by (auto simp: grows_def)

lemma sb_extend_grows:
  assumes "sends W b" and "sb_max_data b \<le> n"
  obtains b' where "sb_extend n b = Some b'" "grows W b b'"
  using sb.grant_ok [OF assms] sb_extend_sent [OF assms(1)] by (auto simp: grows_def)

lemma stream_part_extend: "stream_part W f d \<Longrightarrow> \<not> is_fin f \<Longrightarrow> stream_part (W @ W') f d"
  by (auto simp: stream_part_def slice_of_extend)

lemma sender_ok_grow:
  assumes "sender_ok W F A (Inr (SSending r))" and "grows (W @ d) (os_sndbuf r) (os_sndbuf r')" and "length W + length d < 2 ^ 62"
  shows "sender_ok (W @ d) F A (Inr (SSending r'))"
  using assms by (auto simp: sender_ok_def grows_def acked_by_def intro: stream_part_extend)

lemma sender_ok_grow_ready:
  assumes "sender_ok W F A (Inr (SReady r))" and "grows (W @ d) (os_sndbuf r) (os_sndbuf r')" and "length W + length d < 2 ^ 62"
  shows "sender_ok (W @ d) F A (Inr (SReady r'))"
  using assms by (auto simp: sender_ok_def grows_def)

lemmas sending_defs = sending_poll_ready_def sending_write_def sending_update_window_def sending_poll_flush_def
  sending_poll_shutdown_def sending_wake_all_def

lemma ready_write_grows:
  assumes "sends W (os_sndbuf r)" and "length W + length d < 2 ^ 62"
  obtains res r' m' woken where "ready_write d (r, m) = Some (res, (r', m'), woken)"
    "grows (W @ (if res = Inr () then d else [])) (os_sndbuf r) (os_sndbuf r')"
proof (cases "os_shutdown_waker r = None")
  case True
  obtain b where "sb_write d (os_sndbuf r) = Some b" "grows (W @ d) (os_sndbuf r) b" by (rule sb_write_grows [OF assms])
  then show ?thesis
    using True by (intro that [of "Inr ()" "r\<lparr>os_sndbuf := b\<rparr>" "add_pending (length d) m"]) (simp_all add: ready_write_def)
next
  case False
  with assms(1) show ?thesis by (intro that [of "Inl Finished" r m]) (simp_all add: ready_write_def grows_refl)
qed

lemma sender_cases [case_names Err Ready Sending DataSent DataRcvd ResetSent ResetRcvd]:
  fixes s :: "'e arc_sender"
  obtains e where "s = Inl e" | r where "s = Inr (SReady r)" | r where "s = Inr (SSending r)" | r where "s = Inr (SDataSent r)"
    | "s = Inr SDataRcvd" | r where "s = Inr (SResetSent r)" | r where "s = Inr (SResetRcvd r)"
  by (metis sender.exhaust sum.exhaust)

lemma writer_write_ok:
  assumes ok: "sender_ok W F A s" and len: "length W + length d < 2 ^ 62"
  obtains res s' m' woken where "writer_write d (s, m) = Some (res, (s', m'), woken)"
    "sender_ok (W @ (if res = Inr () then d else [])) F A s'"
proof (cases s rule: sender_cases)
  case (Ready r)
  then have "sends W (os_sndbuf r)" using ok by (simp add: sender_ok_def)
  from ready_write_grows [OF this len, of m] obtain res r' m' woken where
    w: "ready_write d (r, m) = Some (res :: 'a stream_error + unit, (r', m'), woken)"
    "grows (W @ (if res = Inr () then d else [])) (os_sndbuf r) (os_sndbuf r')" by blast
  have "sender_ok (W @ (if res = Inr () then d else [])) F A (Inr (SReady r'))"
    using ok Ready w(2) len by (intro sender_ok_grow_ready [of W F A r]) auto
  moreover have "writer_write d (s, m) = Some (res, (Inr (SReady r'), m'), woken)" using w(1) Ready by (simp add: writer_write_def)
  ultimately show ?thesis using that by blast
next
  case (Sending r)
  then have "sends W (os_sndbuf r)" using ok by (simp add: sender_ok_def)
  from ready_write_grows [OF this len, of m] obtain res r' m' woken where
    w: "ready_write d (r, m) = Some (res :: 'a stream_error + unit, (r', m'), woken)"
    "grows (W @ (if res = Inr () then d else [])) (os_sndbuf r) (os_sndbuf r')" by blast
  have "sender_ok (W @ (if res = Inr () then d else [])) F A (Inr (SSending r'))"
    using ok Sending w(2) len by (intro sender_ok_grow [of W F A r]) auto
  moreover have "writer_write d (s, m) = Some (res, (Inr (SSending r'), m'), woken)"
    using w(1) Sending by (simp add: writer_write_def sending_defs)
  ultimately show ?thesis using that by blast
qed (use ok in \<open>auto intro!: that simp: writer_write_def\<close>)

text \<open>Only the buffers matter: an operation that changes wakers keeps the invariant.\<close>

lemma sender_ok_same_ready:
  "sender_ok W F A (Inr (SReady r)) \<Longrightarrow> os_sndbuf r' = os_sndbuf r \<Longrightarrow> sender_ok W F A (Inr (SReady r'))"
  by (auto simp: sender_ok_def)

lemma sender_ok_same_sending:
  "sender_ok W F A (Inr (SSending r)) \<Longrightarrow> os_sndbuf r' = os_sndbuf r \<Longrightarrow> sender_ok W F A (Inr (SSending r'))"
  by (simp add: sender_ok_def)

lemma sender_ok_same_sent:
  "sender_ok W F A (Inr (SDataSent r)) \<Longrightarrow> ds_sndbuf r' = ds_sndbuf r \<Longrightarrow> ds_fin_state r' = ds_fin_state r \<Longrightarrow>
     sender_ok W F A (Inr (SDataSent r'))"
  by (simp add: sender_ok_def ds_is_all_rcvd_def)

lemmas sender_ok_same = sender_ok_same_ready sender_ok_same_sending sender_ok_same_sent

lemma writer_poll_ready_ok:
  assumes "sender_ok W F A s" and "writer_poll_ready w s = (res, s')"
  shows "sender_ok W F A s'"
  using assms
  by (cases s rule: sender_cases)
    (auto simp: writer_poll_ready_def sending_defs ready_poll_ready_def apsnd_def map_prod_def split: if_splits intro: sender_ok_same)

lemma writer_poll_flush_ok:
  assumes "sender_ok W F A s"
  obtains res s' where "writer_poll_flush w s = Some (res, s')" "sender_ok W F A s'"
    "res = Ready (Inr ()) \<Longrightarrow> \<forall>p < length W. covered A p"
proof (cases s rule: sender_cases)
  case (Ready r)
  have "sends W (os_sndbuf r)" "F = {}" "A \<subseteq> F" "sb_sent (os_sndbuf r) = 0" using assms Ready by (auto simp: sender_ok_def)
  show ?thesis
  proof (cases "is_all_rcvd (os_sndbuf r)")
    case True
    have "W = []"
    proof (rule ccontr)
      assume "W \<noteq> []"
      then have c: "confirmed (os_sndbuf r) 0"
        using all_rcvd_confirmed [OF _ True, of W 0] \<open>sends W (os_sndbuf r)\<close> by (simp add: sends_def)
      have m: "Send_Buf.map_ok (sb_state (os_sndbuf r))" using \<open>sends W (os_sndbuf r)\<close> by (simp add: sends_def sb_ok_def)
      from c have "0 < bm_size (sb_state (os_sndbuf r))" "color_at (sb_state (os_sndbuf r)) 0 = Recved" by (auto simp: confirmed_def)
      then have "1 \<le> bm_sent (sb_state (os_sndbuf r))" using m by (intro bm_sent_geI) auto
      then show False using \<open>sb_sent (os_sndbuf r) = 0\<close> by (simp add: sb_sent_def)
    qed
    then show ?thesis using True Ready assms
      by (intro that [of "poll.Ready (Inr ())" s]) (simp_all add: writer_poll_flush_def ready_poll_flush_def)
  next
    case False
    then show ?thesis using Ready assms
      by (intro that [of poll.Pending "Inr (SReady (r\<lparr>os_flush_waker := Some w\<rparr>))"])
        (auto simp: writer_poll_flush_def ready_poll_flush_def intro: sender_ok_same)
  qed
next
  case (Sending r)
  show ?thesis
  proof (cases "is_all_rcvd (os_sndbuf r)")
    case True
    have b: "sb_ok W (os_sndbuf r)" "acked_by A (os_sndbuf r)" using assms Sending by (auto simp: sender_ok_def sends_def)
    then have "\<forall>p < length W. covered A p" using all_rcvd_confirmed [OF b(1) True] by (simp add: acked_by_def)
    then show ?thesis using True Sending assms
      by (intro that [of "poll.Ready (Inr ())" s]) (simp_all add: writer_poll_flush_def ready_poll_flush_def sending_defs)
  next
    case False
    then show ?thesis using Sending assms
      by (intro that [of poll.Pending "Inr (SSending (r\<lparr>os_flush_waker := Some w\<rparr>))"])
        (auto simp: writer_poll_flush_def ready_poll_flush_def sending_defs intro: sender_ok_same)
  qed
next
  case (DataSent r)
  then have "\<not> ds_is_all_rcvd r" using assms by (simp add: sender_ok_def)
  then show ?thesis using DataSent assms
    by (intro that [of poll.Pending "Inr (SDataSent (r\<lparr>ds_flush_waker := Some w\<rparr>))"])
      (auto simp: writer_poll_flush_def ds_poll_flush_def intro: sender_ok_same)
next
  case DataRcvd
  then show ?thesis using assms
    by (intro that [of "poll.Ready (Inr ())" s]) (simp_all add: writer_poll_flush_def sender_ok_def)
qed (use assms in \<open>auto intro!: that simp: writer_poll_flush_def\<close>)

lemma writer_poll_shutdown_ok:
  assumes "sender_ok W F A s"
  obtains res s' woken where "writer_poll_shutdown w s = Some (res, s', woken)" "sender_ok W F A s'"
    "res = Ready (Inr ()) \<Longrightarrow> (\<forall>p < length W. covered A p) \<and> fin_in A"
proof (cases s rule: sender_cases)
  case (Ready r)
  then show ?thesis using assms
    by (intro that [of poll.Pending "Inr (SReady (r\<lparr>os_shutdown_waker := Some w\<rparr>))"])
      (auto simp: writer_poll_shutdown_def ready_poll_shutdown_def intro: sender_ok_same)
next
  case (Sending r)
  then show ?thesis using assms
    by (intro that [of poll.Pending "Inr (SSending (r\<lparr>os_shutdown_waker := Some w\<rparr>))"])
      (auto simp: writer_poll_shutdown_def ready_poll_shutdown_def sending_defs intro: sender_ok_same)
next
  case (DataSent r)
  then have "\<not> ds_is_all_rcvd r" using assms by (simp add: sender_ok_def)
  then show ?thesis using DataSent assms
    by (intro that [of poll.Pending "Inr (SDataSent (r\<lparr>ds_shutdown_waker := Some w\<rparr>))"])
      (auto simp: writer_poll_shutdown_def ds_poll_shutdown_def intro: sender_ok_same)
next
  case DataRcvd
  then show ?thesis using assms
    by (intro that [of "poll.Ready (Inr ())" s]) (simp_all add: writer_poll_shutdown_def sender_ok_def)
qed (use assms in \<open>auto intro!: that simp: writer_poll_shutdown_def\<close>)

lemma ready_poll_ready_cases:
  obtains (closed) "ready_poll_ready w r = (Ready (Inl Finished) :: ('e stream_error + unit) poll, r)"
  | (full) "ready_poll_ready w r = (poll.Pending :: ('e stream_error + unit) poll, r\<lparr>os_writable_waker := Some w\<rparr>)"
  | (room) "ready_poll_ready w r = (Ready (Inr ()) :: ('e stream_error + unit) poll, r)"
  by (cases "os_shutdown_waker r \<noteq> None"; cases "has_remaining_mut (os_sndbuf r)") (simp_all add: ready_poll_ready_def)

lemma writer_poll_write_ok:
  assumes ok: "sender_ok W F A s" and len: "length W + length d < 2 ^ 62"
  obtains res s' m' woken where "writer_poll_write w d (s, m) = Some (res, (s', m'), woken)"
    "sender_ok (W @ (if res = Ready (Inr ()) then d else [])) F A s'"
proof -
  obtain res s' m' woken where w: "writer_write d (s, m) = Some (res, (s', m'), woken)"
    "sender_ok (W @ (if res = Inr () then d else [])) F A s'" by (rule writer_write_ok [OF ok len])
  show ?thesis
  proof (cases s rule: sender_cases)
    case (Ready r)
    show ?thesis
    proof (cases rule: ready_poll_ready_cases [of w r, where 'e = 'a])
      case closed
      then show ?thesis using Ready ok by (intro that [of "Ready (Inl Finished)" s m "[]"]) (simp_all add: writer_poll_write_def)
    next
      case full
      then show ?thesis using Ready ok
        by (intro that [of poll.Pending "Inr (SReady (r\<lparr>os_writable_waker := Some w\<rparr>))" m "[]"])
          (auto simp: writer_poll_write_def intro: sender_ok_same)
    next
      case room
      obtain r2 where "ready_write d (r, m) = Some (res, (r2, m'), woken)" "s' = Inr (SReady r2)"
        using w(1) Ready by (auto simp: writer_write_def)
      then show ?thesis using room Ready w(2)
        by (intro that [of "poll.Ready res" s' m' woken]) (simp_all add: writer_poll_write_def)
    qed
  next
    case (Sending r)
    show ?thesis
    proof (cases rule: ready_poll_ready_cases [of w r, where 'e = 'a])
      case closed
      then show ?thesis using Sending ok
        by (intro that [of "Ready (Inl Finished)" s m "[]"]) (simp_all add: writer_poll_write_def sending_defs)
    next
      case full
      then show ?thesis using Sending ok
        by (intro that [of poll.Pending "Inr (SSending (r\<lparr>os_writable_waker := Some w\<rparr>))" m "[]"])
          (auto simp: writer_poll_write_def sending_defs intro: sender_ok_same)
    next
      case room
      obtain r2 where "ready_write d (r, m) = Some (res, (r2, m'), woken)" "s' = Inr (SSending r2)"
        using w(1) Sending by (auto simp: writer_write_def sending_defs)
      then show ?thesis using room Sending w(2)
        by (intro that [of "poll.Ready res" s' m' woken]) (simp_all add: writer_poll_write_def sending_defs)
    qed
  qed (use ok in \<open>auto intro!: that simp: writer_poll_write_def\<close>)
qed

lemma ready_update_window_grows:
  assumes "sends W (os_sndbuf r)"
  obtains r' woken where "ready_update_window n r = Some (r', woken)" "grows W (os_sndbuf r) (os_sndbuf r')"
proof (cases "sb_max_data (os_sndbuf r) < n")
  case True
  obtain b where "sb_extend n (os_sndbuf r) = Some b" "grows W (os_sndbuf r) b"
    by (rule sb_extend_grows [OF assms, of n]) (use True in auto)
  then show ?thesis
    using True that by (cases "has_remaining_mut b") (auto simp: ready_update_window_def Let_def)
next
  case False
  then show ?thesis using grows_refl [OF assms] by (intro that [of r "[]"]) (simp_all add: ready_update_window_def)
qed

lemma outgoing_update_window_ok:
  assumes ok: "sender_ok W F A s" and "n \<le> VARINT_MAX"
  obtains s' woken where "outgoing_update_window n s = Some (s', woken)" "sender_ok W F A s'"
proof (cases s rule: sender_cases)
  case (Ready r)
  then have "sends W (os_sndbuf r)" and len: "length W + length ([] :: byte list) < 2 ^ 62" using ok by (simp_all add: sender_ok_def)
  from ready_update_window_grows [OF this(1), of n] obtain r' woken where
    u: "ready_update_window n r = Some (r', woken)" "grows (W @ []) (os_sndbuf r) (os_sndbuf r')" by auto
  from sender_ok_grow_ready [OF _ u(2) len] ok Ready have "sender_ok W F A (Inr (SReady r'))" by simp
  then show ?thesis using u(1) Ready assms(2) by (intro that [of "Inr (SReady r')" woken]) (simp_all add: outgoing_update_window_def)
next
  case (Sending r)
  then have "sends W (os_sndbuf r)" and len: "length W + length ([] :: byte list) < 2 ^ 62" using ok by (simp_all add: sender_ok_def)
  from ready_update_window_grows [OF this(1), of n] obtain r' woken where
    u: "ready_update_window n r = Some (r', woken)" "grows (W @ []) (os_sndbuf r) (os_sndbuf r')" by auto
  from sender_ok_grow [OF _ u(2) len] ok Sending have "sender_ok W F A (Inr (SSending r'))" by simp
  then show ?thesis using u(1) Sending assms(2)
    by (intro that [of "Inr (SSending r')" woken]) (simp_all add: outgoing_update_window_def sending_defs)
qed (use assms in \<open>auto intro!: that simp: outgoing_update_window_def\<close>)

lemma within_stream: "\<forall>(f, d) \<in> F. stream_part W f d \<Longrightarrow> within (length W) F"
  by (auto simp: within_def stream_part_def slice_of_def)

lemma reset_of_final: "reset_of err n = Some r \<Longrightarrow> re_final_size r = n"
  by (auto simp: reset_of_def from_u64_def bind_eq_Some_conv split: if_splits)

lemma reset_of_returns: "err < 2 ^ 62 \<Longrightarrow> n < 2 ^ 62 \<Longrightarrow> \<exists>r. reset_of err n = Some r"
  by (simp add: reset_of_def from_u64_def)

text \<open>What a reset may give as the final size, in each of the three open states.\<close>

lemma sender_ok_final:
  assumes "sender_ok W F A (Inr s)"
  shows "s = SReady r \<Longrightarrow> n = sb_sent (os_sndbuf r) \<Longrightarrow> n \<le> length W \<and> within n F \<and> (fin_in F \<longrightarrow> n = length W)"
    and "s = SSending r \<Longrightarrow> n = sb_sent (os_sndbuf r) \<Longrightarrow> n \<le> length W \<and> within n F \<and> (fin_in F \<longrightarrow> n = length W)"
    and "s = SDataSent r' \<Longrightarrow> n = sb_sent (ds_sndbuf r') \<Longrightarrow> n \<le> length W \<and> within n F \<and> (fin_in F \<longrightarrow> n = length W)"
    and "s = SDataSent r' \<Longrightarrow> n = written (ds_sndbuf r') \<Longrightarrow> n \<le> length W \<and> within n F \<and> (fin_in F \<longrightarrow> n = length W)"
  using assms within_stream [of F W] written_length [of W "ds_sndbuf r'"] sends_sent_le [of W "os_sndbuf r"]
  by (auto simp: sender_ok_def sent_all_def fin_in_def within_def)

lemma sender_ok_reset:
  assumes "sender_ok W F A s" and "re_final_size r \<le> length W \<and> within (re_final_size r) F \<and> (fin_in F \<longrightarrow> re_final_size r = length W)"
  shows "sender_ok W F A (Inr (SResetSent r))"
  using assms by (simp add: sender_ok_def)

lemma writer_cancel_ok:
  assumes ok: "sender_ok W F A s" and step: "writer_cancel err s = Some (s', frames)"
  shows "sender_ok W F A s'"
proof (cases s rule: sender_cases)
  case (Ready r)
  then obtain reset where "s' = Inr (SResetSent reset)" "reset_of err (sb_sent (os_sndbuf r)) = Some reset"
    using step by (auto simp: writer_cancel_def ready_cancel_def)
  then show ?thesis using sender_ok_final(1) [OF ok [unfolded Ready] refl refl] reset_of_final sender_ok_reset [OF ok] by metis
next
  case (Sending r)
  then obtain reset where "s' = Inr (SResetSent reset)" "reset_of err (sb_sent (os_sndbuf r)) = Some reset"
    using step by (auto simp: writer_cancel_def sending_cancel_def)
  then show ?thesis using sender_ok_final(2) [OF ok [unfolded Sending] refl refl] reset_of_final sender_ok_reset [OF ok] by metis
next
  case (DataSent r)
  then obtain reset where "s' = Inr (SResetSent reset)" "reset_of err (sb_sent (ds_sndbuf r)) = Some reset"
    using step by (auto simp: writer_cancel_def ds_cancel_def)
  then show ?thesis using sender_ok_final(3) [OF ok [unfolded DataSent] refl refl] reset_of_final sender_ok_reset [OF ok] by metis
qed (use ok step in \<open>simp_all add: writer_cancel_def\<close>)

lemma pick_up_Inl: "pick_up predicate flow b = (Inl r, b') \<Longrightarrow> b' = b"
  by (auto simp: pick_up_def dest: pick_Inl(1) split: prod.splits sum.splits)

lemma pick_up_confirmed:
  assumes ok: "sb_ok W b" and pos: "\<forall>p k. predicate p = Some k \<longrightarrow> 0 < k"
    and pick: "pick_up predicate flow b = (Inr ((lo, hi), fresh, chunks), b')" and "confirmed b' p"
  shows "confirmed b p"
proof -
  obtain m' where m': "pick predicate flow (sb_max_data b) (sb_state b) = (Inr ((lo, hi), fresh), m')" "b' = b\<lparr>sb_state := m'\<rparr>"
    using pick_up_spec(7) [OF ok pos pick] by blast
  have m: "Send_Buf.map_ok (sb_state b)" "bm_size (sb_state b) \<le> sb_max_data b" using ok by (auto simp: sb_ok_def)
  note q = pick_Inr [OF m pos m'(1)]
  show ?thesis using assms(4) q(2) q(7) [of p] by (auto simp: confirmed_def m'(2) split: if_splits)
qed

text \<open>What the choice of the two phases promises.\<close>

definition picked :: "byte list \<Rightarrow> stream_data \<Rightarrow> send_buf \<Rightarrow> send_buf \<Rightarrow> bool" where
  "picked W sd b b' \<longleftrightarrow> (case sd of ((lo, hi), fresh, data, eos) \<Rightarrow>
     lo \<le> hi \<and> hi \<le> length W \<and> hi \<le> sb_sent b' \<and> sb_sent b \<le> sb_sent b' \<and> concat data = take (hi - lo) (drop lo W) \<and>
     (eos \<longrightarrow> hi = length W) \<and> (lo = hi \<longrightarrow> eos) \<and> (\<forall>p. confirmed b' p \<longrightarrow> confirmed b p))"

lemma sending_pick_up_ok:
  assumes s: "sends W (os_sndbuf r)" and pos: "\<forall>p k. predicate p = Some k \<longrightarrow> 0 < k"
    and pick: "sending_pick_up predicate flow r = (Inr sd, r')"
  shows "sends W (os_sndbuf r') \<and> picked W sd (os_sndbuf r) (os_sndbuf r')"
proof -
  let ?b = "os_sndbuf r"
  obtain res b' where p: "pick_up predicate flow ?b = (res, b')" by force
  have ok: "sb_ok W ?b" using s by (simp add: sends_def)
  show ?thesis
  proof (cases res)
    case (Inl a)
    with pick_up_Inl p have b': "b' = ?b" by blast
    have t: "total_size r = Some (sb_sent ?b)" and sd: "sd = ((sb_sent ?b, sb_sent ?b), False, [], True)"
      "r' = r\<lparr>os_sndbuf := ?b\<rparr>"
      using pick p Inl b' by (auto simp: sending_pick_up_def Let_def split: if_splits option.splits)
    then have "sb_sent ?b = length W" using sends_written [OF s] by (auto simp: total_size_def split: if_splits)
    then show ?thesis using s sd by (simp add: picked_def)
  next
    case (Inr x)
    then obtain lo hi fresh data where x: "res = Inr ((lo, hi), fresh, data)" by (metis prod.exhaust)
    have sd: "sd = ((lo, hi), fresh, data, Some hi = total_size r)" "r' = r\<lparr>os_sndbuf := b'\<rparr>"
      using pick p x by (auto simp: sending_pick_up_def Let_def)
    have "Some hi = total_size r \<Longrightarrow> hi = length W" using sends_written [OF s] by (auto simp: total_size_def split: if_splits)
    moreover note k = sb.pk_ok [OF s pos p [unfolded x]]
    ultimately show ?thesis using sd by (auto simp: picked_def sb_sent_def)
  qed
qed

lemma ds_pick_up_ok:
  assumes s: "sent_all W (ds_sndbuf r)" and pos: "\<forall>p k. predicate p = Some k \<longrightarrow> 0 < k"
    and pick: "ds_pick_up predicate flow r = (Inr sd, r')"
  shows "sent_all W (ds_sndbuf r') \<and> picked W sd (ds_sndbuf r) (ds_sndbuf r') \<and> sb_data (ds_sndbuf r') = sb_data (ds_sndbuf r) \<and>
    (ds_fin_state r' = ds_fin_state r \<or> ds_fin_state r' = FinSent)"
proof -
  let ?b = "ds_sndbuf r"
  obtain res b' where p: "pick_up predicate flow ?b = (res, b')" by force
  have ok: "sb_ok W ?b" using s by (simp add: sent_all_def)
  have wr: "written ?b = length W" by (rule written_length [OF ok])
  show ?thesis
  proof (cases res)
    case (Inl a)
    with pick_up_Inl p have b': "b' = ?b" by blast
    have "sd = ((length W, length W), False, [], True)" "r' = r\<lparr>ds_fin_state := FinSent\<rparr>"
      using pick p Inl b' wr by (auto simp: ds_pick_up_def Let_def split: if_splits option.splits)
    then show ?thesis using s by (simp add: picked_def sent_all_def)
  next
    case (Inr x)
    then obtain lo hi fresh data where x: "res = Inr ((lo, hi), fresh, data)" by (metis prod.exhaust)
    have sd: "sd = ((lo, hi), fresh, data, hi = length W)" "r' = r\<lparr>ds_sndbuf := b'\<rparr>"
      using pick p x wr by (auto simp: ds_pick_up_def Let_def)
    note k = pick_up_spec [OF ok pos p [unfolded x]]
    note c = pick_up_confirmed [OF ok pos p [unfolded x]]
    have b': "sb_data b' = sb_data ?b" "sb_max_data b' = sb_max_data ?b" using k(7) by auto
    have size: "bm_size (sb_state b') = length W" using k(1) ok s b'(2) by (simp add: sb_ok_def sent_all_def)
    have "bm_sent (sb_state b') \<le> length W" using bm_sent_le [of "sb_state b'"] k(1) size by (simp add: sb_ok_def)
    then have sent: "sb_sent b' = length W" using k(5) s by (simp add: sb_sent_def sent_all_def)
    have "lo \<le> hi \<and> (lo = hi \<longrightarrow> hi = length W)" using k(4) size by (auto simp: range_ok_def)
    then show ?thesis using k(1,2,3) size sent s sd b'(1) c by (auto simp: picked_def sent_all_def)
  qed
qed

lemma sending_pick_up_Inl: "sending_pick_up predicate flow r = (Inl x, r') \<Longrightarrow> os_sndbuf r' = os_sndbuf r"
  by (auto simp: sending_pick_up_def Let_def split: prod.splits sum.splits if_splits option.splits dest: pick_up_Inl)

lemma ds_pick_up_Inl: "ds_pick_up predicate flow r = (Inl x, r') \<Longrightarrow> ds_sndbuf r' = ds_sndbuf r \<and> ds_fin_state r' = ds_fin_state r"
  by (auto simp: ds_pick_up_def Let_def split: prod.splits sum.splits if_splits option.splits dest: pick_up_Inl)

lemma picked_part:
  assumes "picked W ((lo, hi), fresh, data, eos) b b'" and "sf_offset f = lo" "sf_length f = hi - lo" "is_fin f = eos"
  shows "stream_part W f (concat data)" and "length (concat data) = hi - lo"
proof -
  have h: "lo \<le> hi" "hi \<le> length W" "concat data = take (hi - lo) (drop lo W)" "eos \<longrightarrow> hi = length W"
    using assms(1) by (auto simp: picked_def)
  then show l: "length (concat data) = hi - lo" by simp
  show "stream_part W f (concat data)"
    unfolding stream_part_def slice_of_def l using assms(2-4) h by auto
qed

lemma sent_all_upgrade:
  assumes "sends W b" and "length W \<le> sb_sent b"
  shows "sent_all W b"
proof -
  have "sb_ok W b" "bm_size (sb_state b) \<le> length W" "bm_sent (sb_state b) \<le> bm_size (sb_state b)"
    using assms(1) bm_sent_le [of "sb_state b"] by (auto simp: sends_def sb_ok_def)
  then show ?thesis using assms(2) by (simp add: sent_all_def sb_sent_def)
qed

lemma sender_ok_as_sending: "sender_ok W F A (Inr (SReady r)) \<Longrightarrow> sender_ok W F A (Inr (SSending r))"
proof -
  assume ok: "sender_ok W F A (Inr (SReady r))"
  then have s: "sends W (os_sndbuf r)" "sb_sent (os_sndbuf r) = 0" "F = {}" "A \<subseteq> F" by (auto simp: sender_ok_def)
  have "\<not> confirmed (os_sndbuf r) p" for p
  proof
    assume "confirmed (os_sndbuf r) p"
    then have c: "p < bm_size (sb_state (os_sndbuf r))" "color_at (sb_state (os_sndbuf r)) p = Recved" by (auto simp: confirmed_def)
    have m: "Send_Buf.map_ok (sb_state (os_sndbuf r))" using s(1) by (simp add: sends_def sb_ok_def)
    show False using bm_sent_color [OF m c(1)] c(2) s(2) by (simp add: sb_sent_def)
  qed
  then show ?thesis using ok s by (auto simp: sender_ok_def within_def acked_by_def)
qed

lemma sending_pick_ok:
  assumes ok: "sender_ok W F A (Inr (SSending r))" and pos: "\<forall>p k. predicate p = Some k \<longrightarrow> 0 < k"
    and pick: "sending_pick_up predicate flow r = (Inr ((lo, hi), fresh, data, eos), r')"
    and f: "sf_offset f = lo" "sf_length f = hi - lo" "is_fin f = eos"
  shows "sender_ok W (insert (f, concat data) F) A (Inr (if eos then SDataSent (sending_upgrade r') else SSending r'))"
proof -
  have inv: "sends W (os_sndbuf r)" "within (sb_sent (os_sndbuf r)) F" "\<forall>(f, d) \<in> F. d \<noteq> [] \<and> \<not> is_fin f"
    "acked_by A (os_sndbuf r)" "A \<subseteq> F" "length W < 2 ^ 62" "\<forall>(f, d) \<in> F. stream_part W f d" using ok by (auto simp: sender_ok_def)
  from sending_pick_up_ok [OF inv(1) pos pick] have
    r': "sends W (os_sndbuf r')" and k: "picked W ((lo, hi), fresh, data, eos) (os_sndbuf r) (os_sndbuf r')" by auto
  note part = picked_part [OF k f]
  have k': "lo \<le> hi" "hi \<le> sb_sent (os_sndbuf r')" "sb_sent (os_sndbuf r) \<le> sb_sent (os_sndbuf r')" "eos \<Longrightarrow> hi = length W"
    "lo = hi \<Longrightarrow> eos" "\<forall>p. confirmed (os_sndbuf r') p \<longrightarrow> confirmed (os_sndbuf r) p" using k by (auto simp: picked_def)
  have ack: "acked_by A (os_sndbuf r')" using inv(4) k'(6) by (auto simp: acked_by_def)
  have ne: "concat data \<noteq> []" if "lo < hi" using part(2) that by (metis less_nat_zero_code list.size(3) zero_less_diff)
  have hi: "sf_offset f + length (concat data) = hi" using part(2) f(1) k'(1) by simp
  show ?thesis
  proof (cases eos)
    case True
    have "sent_all W (os_sndbuf r')" using k'(2) k'(4) [OF True] by (intro sent_all_upgrade [OF r']) simp
    moreover have "concat data = [] \<longrightarrow> sf_offset f = length W" using hi k'(4) [OF True] by (metis add.right_neutral list.size(3))
    ultimately show ?thesis
      using True inv ack part(1) by (auto simp: sender_ok_def sending_upgrade_def ds_is_all_rcvd_def)
  next
    case False
    then have "lo < hi" using k'(1,5) by (metis le_neq_implies_less)
    moreover have "within (sb_sent (os_sndbuf r')) (insert (f, concat data) F)"
      using inv(2) k'(2,3) hi by (fastforce simp: within_def)
    ultimately show ?thesis using False inv(3,5,6,7) ack part(1) r' ne f(3) by (auto simp: sender_ok_def)
  qed
qed

lemma outgoing_pick_ok:
  assumes ok: "sender_ok W F A (Inr s)" and pos: "\<forall>p k. predicate p = Some k \<longrightarrow> 0 < k"
    and pick: "outgoing_pick predicate flow s = (Inr ((lo, hi), fresh, data, eos), s')"
    and f: "sf_offset f = lo" "sf_length f = hi - lo" "is_fin f = eos"
  shows "sender_ok W (insert (f, concat data) F) A (Inr s')"
proof -
  have sending: ?thesis if a: "sender_ok W F A (Inr (SSending r))"
    and b: "(case sending_pick_up predicate flow r of (res, s) \<Rightarrow> (res, case res of
            Inr (_, _, _, True) \<Rightarrow> SDataSent (sending_upgrade s) | _ \<Rightarrow> SSending s)) = (Inr ((lo, hi), fresh, data, eos), s')" for r
  proof -
    obtain r' where r': "sending_pick_up predicate flow r = (Inr ((lo, hi), fresh, data, eos), r')"
      "s' = (if eos then SDataSent (sending_upgrade r') else SSending r')"
      using b by (cases "sending_pick_up predicate flow r") (auto split: bool.splits)
    from sending_pick_ok [OF a pos r'(1) f] r'(2) show ?thesis by simp
  qed
  show ?thesis
  proof (cases s)
    case (SReady r)
    with sender_ok_as_sending ok pick show ?thesis by (intro sending [of r]) (simp_all add: outgoing_pick_def ready_upgrade_def Let_def)
  next
    case (SSending r)
    with ok pick show ?thesis by (intro sending [of r]) (simp_all add: outgoing_pick_def Let_def)
  next
    case (SDataSent r)
    obtain r' where r': "ds_pick_up predicate flow r = (Inr ((lo, hi), fresh, data, eos), r')" "s' = SDataSent r'"
      using pick SDataSent by (auto simp: outgoing_pick_def apsnd_def map_prod_def split: prod.splits)
    have inv: "sent_all W (ds_sndbuf r)" "\<forall>(f, d) \<in> F. d = [] \<longrightarrow> sf_offset f = length W" "acked_by A (ds_sndbuf r)"
      "ds_fin_state r = FinRcvd \<longrightarrow> fin_in A" "\<not> ds_is_all_rcvd r" "A \<subseteq> F" "length W < 2 ^ 62" "\<forall>(f, d) \<in> F. stream_part W f d"
      using ok SDataSent by (auto simp: sender_ok_def)
    from ds_pick_up_ok [OF inv(1) pos r'(1)] have p: "sent_all W (ds_sndbuf r')"
      "picked W ((lo, hi), fresh, data, eos) (ds_sndbuf r) (ds_sndbuf r')" "sb_data (ds_sndbuf r') = sb_data (ds_sndbuf r)"
      "ds_fin_state r' = ds_fin_state r \<or> ds_fin_state r' = FinSent" by auto
    note part = picked_part [OF p(2) f]
    have k': "lo \<le> hi" "eos \<Longrightarrow> hi = length W" "lo = hi \<Longrightarrow> eos" "\<forall>q. confirmed (ds_sndbuf r') q \<longrightarrow> confirmed (ds_sndbuf r) q"
      using p(2) by (auto simp: picked_def)
    have "concat data = [] \<Longrightarrow> sf_offset f = length W" using part(2) k'(1-3) f(1) by (metis diff_is_0_eq' le_antisym list.size(3) diff_is_0_eq)
    moreover have "acked_by A (ds_sndbuf r')" using inv(3) k'(4) by (auto simp: acked_by_def)
    moreover have "ds_fin_state r' = FinRcvd \<longrightarrow> fin_in A" "\<not> ds_is_all_rcvd r'"
      using p(3,4) inv(4,5) by (auto simp: ds_is_all_rcvd_def is_all_rcvd_def)
    ultimately show ?thesis using r'(2) p(1) part(1) inv(2,6,7,8) by (auto simp: sender_ok_def)
  qed (use pick in \<open>simp_all add: outgoing_pick_def Let_def\<close>)
qed

lemma outgoing_pick_idle_ok:
  assumes ok: "sender_ok W F A (Inr s :: 'e arc_sender)" and pick: "outgoing_pick predicate flow s = (Inl x, s')"
  shows "sender_ok W F A (Inr s' :: 'e arc_sender)"
proof (cases s)
  case (SReady r)
  obtain r' where "sending_pick_up predicate flow r = (Inl x, r')" "s' = SSending r'"
    using pick SReady by (cases "sending_pick_up predicate flow r") (auto simp: outgoing_pick_def ready_upgrade_def Let_def)
  with sending_pick_up_Inl sender_ok_as_sending [where ?'b = 'e] ok SReady show ?thesis by (metis sender_ok_same(2))
next
  case (SSending r)
  obtain r' where "sending_pick_up predicate flow r = (Inl x, r')" "s' = SSending r'"
    using pick SSending by (cases "sending_pick_up predicate flow r") (auto simp: outgoing_pick_def Let_def)
  with sending_pick_up_Inl ok SSending show ?thesis by (metis sender_ok_same(2))
next
  case (SDataSent r)
  obtain r' where "ds_pick_up predicate flow r = (Inl x, r')" "s' = SDataSent r'"
    using pick SDataSent by (auto simp: outgoing_pick_def apsnd_def map_prod_def split: prod.splits)
  with ds_pick_up_Inl ok SDataSent show ?thesis by (metis sender_ok_same(3))
qed (use ok pick in \<open>simp_all add: outgoing_pick_def Let_def\<close>)

lemma part_length: "stream_part W f d \<Longrightarrow> sf_length f = length d"
  by (simp add: stream_part_def)

lemma sent_all_acked:
  assumes s: "sent_all W b" and r: "range_ok (sb_state b) lo hi"
  obtains b' where "on_data_acked lo hi b = Some b'" "sent_all W b'" "\<And>p. confirmed b' p \<Longrightarrow> confirmed b p \<or> lo \<le> p \<and> p < hi"
proof -
  have ok: "sb_ok W b" using s by (simp add: sent_all_def)
  from on_data_acked_spec [OF ok r] obtain b' where b': "on_data_acked lo hi b = Some b'" "sb_ok W b'" "sb_max_data b' = sb_max_data b"
    "bm_sent (sb_state b) \<le> bm_sent (sb_state b')"
    "\<forall>p < bm_size (sb_state b). color_at (sb_state b') p = (if lo \<le> p \<and> p < hi then Recved else color_at (sb_state b) p)" by blast
  have size: "bm_size (sb_state b') = bm_size (sb_state b)" using sb_ok_size b'(2,3) ok by simp
  moreover have "bm_sent (sb_state b') \<le> bm_size (sb_state b')" using bm_sent_le [of "sb_state b'"] b'(2) unfolding sb_ok_def by blast
  ultimately have "sent_all W b'" using s b'(2,4) by (simp add: sent_all_def sb_sent_def)
  moreover have "confirmed b p \<or> lo \<le> p \<and> p < hi" if "confirmed b' p" for p
    using that b'(5) size by (auto simp: confirmed_def split: if_splits)
  ultimately show ?thesis using b'(1) that by blast
qed

lemma sent_all_lost:
  assumes s: "sent_all W b" and r: "range_ok (sb_state b) lo hi"
  obtains b' where "may_loss_data lo hi b = Some b'" "sent_all W b'" "\<And>p. confirmed b' p \<Longrightarrow> confirmed b p" "sb_data b' = sb_data b"
proof -
  have ok: "sb_ok W b" using s by (simp add: sent_all_def)
  from may_loss_data_spec [OF ok r] obtain b' where b': "may_loss_data lo hi b = Some b'" "sb_ok W b'" "sb_max_data b' = sb_max_data b"
    "bm_sent (sb_state b) \<le> bm_sent (sb_state b')"
    "\<forall>p < bm_size (sb_state b). color_at (sb_state b') p = (if lo \<le> p \<and> p < hi then lose (color_at (sb_state b) p) else color_at (sb_state b) p)"
    by blast
  have size: "bm_size (sb_state b') = bm_size (sb_state b)" using sb_ok_size b'(2,3) ok by simp
  moreover have "bm_sent (sb_state b') \<le> bm_size (sb_state b')" using bm_sent_le [of "sb_state b'"] b'(2) unfolding sb_ok_def by blast
  ultimately have "sent_all W b'" using s b'(2,4) by (simp add: sent_all_def sb_sent_def)
  moreover have "confirmed b p" if "confirmed b' p" for p
    using that b'(5) size by (auto simp: confirmed_def lose_def split: if_splits)
  moreover have "sb_data b' = sb_data b" using b'(1) by (auto simp: may_loss_data_def)
  ultimately show ?thesis using b'(1) that by blast
qed

lemma within_mono: "within n F \<Longrightarrow> n \<le> n' \<Longrightarrow> within n' F"
  by (fastforce simp: within_def)

lemma outgoing_on_data_acked_ok:
  fixes s :: "'e arc_sender"
  assumes ok: "sender_ok W F A s" and mem: "(f, d) \<in> F"
  obtains fin s' woken where "outgoing_on_data_acked f s = Some (fin, s', woken)" "sender_ok W F (insert (f, d) A) s'"
proof -
  have part: "stream_part W f d" "A \<subseteq> F" "length W < 2 ^ 62" "\<forall>(f, d) \<in> F. stream_part W f d" using ok mem by (auto simp: sender_ok_def)
  let ?hi = "sf_offset f + sf_length f"
  show ?thesis
  proof (cases s rule: sender_cases)
    case (Ready r)
    then show ?thesis using ok mem by (simp add: sender_ok_def)
  next
    case (Sending r)
    have inv: "sends W (os_sndbuf r)" "within (sb_sent (os_sndbuf r)) F" "\<forall>(f, d) \<in> F. d \<noteq> [] \<and> \<not> is_fin f"
      "acked_by A (os_sndbuf r)" using ok Sending by (auto simp: sender_ok_def)
    have "sf_offset f < ?hi" "?hi \<le> bm_sent (sb_state (os_sndbuf r))"
      using inv(2,3) mem part_length [OF part(1)] by (auto simp: within_def sb_sent_def)
    from sb.acked_ok [OF inv(1) this] obtain b where b: "on_data_acked (sf_offset f) ?hi (os_sndbuf r) = Some b" "sends W b"
      "sb_sent (os_sndbuf r) \<le> sb_sent b" "\<forall>p. confirmed b p \<longrightarrow> confirmed (os_sndbuf r) p \<or> sf_offset f \<le> p \<and> p < ?hi"
      by (auto simp: sb_sent_def)
    have "acked_by (insert (f, d) A) b"
      using b(4) part_length [OF part(1)] by (intro acked_by_insert [OF inv(4)]) auto
    then have "sender_ok W F (insert (f, d) A) (Inr (SSending r') :: 'e arc_sender)" if "os_sndbuf r' = b" for r'
      using that b(2) inv(3) part mem within_mono [OF inv(2) b(3)] by (auto simp: sender_ok_def)
    then show ?thesis using b(1) Sending that
      by (cases "is_all_rcvd b") (auto simp: outgoing_on_data_acked_def sending_on_data_acked_def Let_def)
  next
    case (DataSent r)
    have inv: "sent_all W (ds_sndbuf r)" "\<forall>(f, d) \<in> F. d = [] \<longrightarrow> sf_offset f = length W" "acked_by A (ds_sndbuf r)"
      "ds_fin_state r = FinRcvd \<longrightarrow> fin_in A" using ok DataSent by (auto simp: sender_ok_def)
    have "range_ok (sb_state (ds_sndbuf r)) (sf_offset f) ?hi" using sent_all_range [OF inv(1) part(1)] inv(2) mem by auto
    from sent_all_acked [OF inv(1) this] obtain b where b: "on_data_acked (sf_offset f) ?hi (ds_sndbuf r) = Some b" "sent_all W b"
      "\<And>p. confirmed b p \<Longrightarrow> confirmed (ds_sndbuf r) p \<or> sf_offset f \<le> p \<and> p < ?hi" by blast
    have ack: "acked_by (insert (f, d) A) b"
      using b(3) part_length [OF part(1)] by (intro acked_by_insert [OF inv(3)]) auto
    define r1 where "r1 = (if is_fin f then r\<lparr>ds_sndbuf := b, ds_fin_state := FinRcvd\<rparr> else r\<lparr>ds_sndbuf := b\<rparr>)"
    have r1: "ds_sndbuf r1 = b" "ds_fin_state r1 = FinRcvd \<longrightarrow> fin_in (insert (f, d) A)"
      using inv(4) by (auto simp: r1_def fin_in_def)
    show ?thesis
    proof (cases "ds_is_all_rcvd r1")
      case True
      then have a: "is_all_rcvd b" "fin_in (insert (f, d) A)" using r1 by (auto simp: ds_is_all_rcvd_def)
      have "\<forall>p < length W. covered (insert (f, d) A) p"
        using all_rcvd_confirmed [OF _ a(1), of W] b(2) ack unfolding acked_by_def sent_all_def by blast
      then have "sender_ok W F (insert (f, d) A) (Inr SDataRcvd :: 'e arc_sender)" using a(2) part mem by (simp add: sender_ok_def)
      moreover have "\<exists>woken. outgoing_on_data_acked f s = Some (True, Inr SDataRcvd, woken)"
        using b(1) True DataSent
        by (auto simp: outgoing_on_data_acked_def ds_on_data_acked_def Let_def r1_def ds_is_all_rcvd_def split: if_splits)
      ultimately show ?thesis using that by blast
    next
      case False
      have "sender_ok W F (insert (f, d) A) (Inr (SDataSent r1) :: 'e arc_sender)"
        using r1 False b(2) ack inv(2) part mem by (auto simp: sender_ok_def)
      moreover have "\<exists>woken. outgoing_on_data_acked f s = Some (False, Inr (SDataSent r1), woken)"
        using b(1) False DataSent
        by (auto simp: outgoing_on_data_acked_def ds_on_data_acked_def Let_def r1_def split: if_splits)
      ultimately show ?thesis using that by blast
    qed
  next
    case DataRcvd
    then have "sender_ok W F (insert (f, d) A) s" using ok mem by (auto simp: sender_ok_def covered_def fin_in_def)
    then show ?thesis using DataRcvd by (intro that [of False s "[]"]) (simp_all add: outgoing_on_data_acked_def)
  next
    case (Err e)
    then have "sender_ok W F (insert (f, d) A) s" using ok mem by (auto simp: sender_ok_def)
    then show ?thesis using Err by (intro that [of False s "[]"]) (simp_all add: outgoing_on_data_acked_def)
  next
    case (ResetSent e)
    then have "sender_ok W F (insert (f, d) A) s" using ok mem by (auto simp: sender_ok_def)
    then show ?thesis using ResetSent by (intro that [of False s "[]"]) (simp_all add: outgoing_on_data_acked_def)
  next
    case (ResetRcvd e)
    then have "sender_ok W F (insert (f, d) A) s" using ok mem by (auto simp: sender_ok_def)
    then show ?thesis using ResetRcvd by (intro that [of False s "[]"]) (simp_all add: outgoing_on_data_acked_def)
  qed
qed

lemma outgoing_may_loss_data_ok:
  fixes s :: "'e arc_sender"
  assumes ok: "sender_ok W F A s" and mem: "(f, d) \<in> F"
  obtains s' woken where "outgoing_may_loss_data f s = Some (s', woken)" "sender_ok W F A s'"
proof -
  have part: "stream_part W f d" "A \<subseteq> F" "length W < 2 ^ 62" "\<forall>(f, d) \<in> F. stream_part W f d" using ok mem by (auto simp: sender_ok_def)
  let ?hi = "sf_offset f + sf_length f"
  show ?thesis
  proof (cases s rule: sender_cases)
    case (Ready r)
    then show ?thesis using ok mem by (simp add: sender_ok_def)
  next
    case (Sending r)
    have inv: "sends W (os_sndbuf r)" "within (sb_sent (os_sndbuf r)) F" "\<forall>(f, d) \<in> F. d \<noteq> [] \<and> \<not> is_fin f"
      "acked_by A (os_sndbuf r)" using ok Sending by (auto simp: sender_ok_def)
    have "sf_offset f < ?hi" "?hi \<le> bm_sent (sb_state (os_sndbuf r))"
      using inv(2,3) mem part_length [OF part(1)] by (auto simp: within_def sb_sent_def)
    from sb.lost_ok [OF inv(1) this] obtain b where b: "may_loss_data (sf_offset f) ?hi (os_sndbuf r) = Some b" "sends W b"
      "sb_sent (os_sndbuf r) \<le> sb_sent b" "\<forall>p. confirmed b p \<longrightarrow> confirmed (os_sndbuf r) p" by (auto simp: sb_sent_def)
    have "acked_by A b" using b(4) inv(4) by (auto simp: acked_by_def)
    then have "sender_ok W F A (Inr (SSending (r\<lparr>os_sndbuf := b\<rparr>)) :: 'e arc_sender)"
      using b(2) inv(3) part within_mono [OF inv(2) b(3)] by (auto simp: sender_ok_def)
    then show ?thesis using b(1) Sending that by (auto simp: outgoing_may_loss_data_def sending_may_loss_data_def)
  next
    case (DataSent r)
    have inv: "sent_all W (ds_sndbuf r)" "\<forall>(f, d) \<in> F. d = [] \<longrightarrow> sf_offset f = length W" "acked_by A (ds_sndbuf r)"
      "ds_fin_state r = FinRcvd \<longrightarrow> fin_in A" "\<not> ds_is_all_rcvd r" using ok DataSent by (auto simp: sender_ok_def)
    have "range_ok (sb_state (ds_sndbuf r)) (sf_offset f) ?hi" using sent_all_range [OF inv(1) part(1)] inv(2) mem by auto
    from sent_all_lost [OF inv(1) this] obtain b where b: "may_loss_data (sf_offset f) ?hi (ds_sndbuf r) = Some b" "sent_all W b"
      "\<And>p. confirmed b p \<Longrightarrow> confirmed (ds_sndbuf r) p" "sb_data b = sb_data (ds_sndbuf r)" by blast
    define r1 where "r1 = (if is_fin f \<and> ds_fin_state r \<noteq> FinRcvd then r\<lparr>ds_fin_state := FinLost\<rparr> else r)\<lparr>ds_sndbuf := b\<rparr>"
    have "acked_by A b" using b(3) inv(3) by (auto simp: acked_by_def)
    moreover have "ds_sndbuf r1 = b" "ds_fin_state r1 = FinRcvd \<longleftrightarrow> ds_fin_state r = FinRcvd" by (auto simp: r1_def)
    moreover from this have "\<not> ds_is_all_rcvd r1" using inv(5) b(4) by (simp add: ds_is_all_rcvd_def is_all_rcvd_def)
    ultimately have "sender_ok W F A (Inr (SDataSent r1) :: 'e arc_sender)"
      using b(2) inv(2,4) part by (simp add: sender_ok_def)
    moreover have "\<exists>woken. outgoing_may_loss_data f s = Some (Inr (SDataSent r1), woken)"
      using b(1) DataSent by (simp add: outgoing_may_loss_data_def ds_may_loss_data_def Let_def r1_def)
    ultimately show ?thesis using that by blast
  qed (use ok in \<open>auto intro!: that simp: outgoing_may_loss_data_def\<close>)
qed

lemma outgoing_be_stopped_ok:
  assumes ok: "sender_ok W F A s" and step: "outgoing_be_stopped err s = Some (final_size, s', woken)"
  shows "sender_ok W F A s'"
proof (cases s rule: sender_cases)
  case (Ready r)
  then obtain reset where "s' = Inr (SResetSent reset)" "reset_of err (sb_sent (os_sndbuf r)) = Some reset"
    using step by (auto simp: outgoing_be_stopped_def ready_be_stopped_def ready_wake_all_def Let_def split: if_splits)
  then show ?thesis using sender_ok_final(1) [OF ok [unfolded Ready] refl refl] reset_of_final sender_ok_reset [OF ok] by metis
next
  case (Sending r)
  then obtain reset where "s' = Inr (SResetSent reset)" "reset_of err (sb_sent (os_sndbuf r)) = Some reset"
    using step by (auto simp: outgoing_be_stopped_def sending_be_stopped_def sending_defs ready_wake_all_def Let_def)
  then show ?thesis using sender_ok_final(2) [OF ok [unfolded Sending] refl refl] reset_of_final sender_ok_reset [OF ok] by metis
next
  case (DataSent r)
  then obtain reset where "s' = Inr (SResetSent reset)" "reset_of err (written (ds_sndbuf r)) = Some reset"
    using step by (auto simp: outgoing_be_stopped_def ds_be_stopped_def ds_wake_all_def Let_def)
  then show ?thesis using sender_ok_final(4) [OF ok [unfolded DataSent] refl refl] reset_of_final sender_ok_reset [OF ok] by metis
qed (use ok step in \<open>simp_all add: outgoing_be_stopped_def Let_def\<close>)

lemma outgoing_on_reset_acked_ok:
  "sender_ok W F A s \<Longrightarrow> outgoing_on_reset_acked s = Some s' \<Longrightarrow> sender_ok W F A s'"
  by (cases s rule: sender_cases) (auto simp: outgoing_on_reset_acked_def sender_ok_def)

lemma outgoing_on_error_ok: "sender_ok W F A s \<Longrightarrow> outgoing_on_error e s = (s', woken) \<Longrightarrow> sender_ok W F A s'"
  by (cases s rule: sender_cases) (auto simp: outgoing_on_error_def sender_ok_def)

lemma set_tx_wakers_ok:
  fixes s :: sender
  shows "sender_ok W F A (Inr s :: 'e arc_sender) \<Longrightarrow> sender_ok W F A (Inr (set_tx_wakers ws s) :: 'e arc_sender)"
  by (cases s) (auto simp: set_tx_wakers_def intro: sender_ok_same)

lemma new_sender_ok: "sender_ok [] {} {} (new_sender sid buf_size)"
  using with_capacity_sends by (simp add: sender_ok_def new_sender_def ready_new_def)

lemma sending_ok: "sending W F A s \<Longrightarrow> sender_ok W F A s"
proof (induction rule: sending.induct)
  case (Write W F A s d m res s' m' woken)
  from writer_write_ok [OF Write.IH Write.hyps(2), of m] Write.hyps(3) show ?case by (metis option.inject prod.inject)
next
  case (Poll_Write W F A s d w m res s' m' woken)
  from writer_poll_write_ok [OF Poll_Write.IH Poll_Write.hyps(2), of w m] Poll_Write.hyps(3) show ?case
    by (metis option.inject prod.inject)
next
  case (Flush W F A s w res s')
  from writer_poll_flush_ok [OF Flush.IH, of w] Flush.hyps(2) show ?case by (metis option.inject prod.inject)
next
  case (Shutdown W F A s w res s' woken)
  from writer_poll_shutdown_ok [OF Shutdown.IH, of w] Shutdown.hyps(2) show ?case by (metis option.inject prod.inject)
next
  case (Window W F A s n s' woken)
  then have "n \<le> VARINT_MAX" by (auto simp: outgoing_update_window_def split: if_splits)
  from outgoing_update_window_ok [OF Window.IH this] Window.hyps(2) show ?case by (metis option.inject prod.inject)
next
  case (Acked W F A s f d fin s' woken)
  from outgoing_on_data_acked_ok [OF Acked.IH Acked.hyps(2)] Acked.hyps(3) show ?case by (metis option.inject prod.inject)
next
  case (Lost W F A s f d s' woken)
  from outgoing_may_loss_data_ok [OF Lost.IH Lost.hyps(2)] Lost.hyps(3) show ?case by (metis option.inject prod.inject)
qed (blast intro: new_sender_ok writer_poll_ready_ok writer_cancel_ok outgoing_pick_ok outgoing_pick_idle_ok set_tx_wakers_ok
    outgoing_be_stopped_ok outgoing_on_reset_acked_ok outgoing_on_error_ok)+

section \<open>Writing into a packet\<close>

declare belongs_to.simps [simp del]

lemma stream_predicate_Some:
  assumes "stream_predicate capacity sid allowance offset = Some k"
  obtains n where "stream_max_capacity capacity sid offset = Some (Some n)" "k = min n allowance"
  using assms by (auto simp: stream_predicate_def split: option.splits)

lemma stream_predicate_pos:
  assumes "0 < allowance"
  shows "\<forall>p k. stream_predicate capacity sid allowance p = Some k \<longrightarrow> 0 < k"
proof (intro allI impI)
  fix p k assume "stream_predicate capacity sid allowance p = Some k"
  then obtain n where "stream_max_capacity capacity sid p = Some (Some n)" "k = min n allowance" by (rule stream_predicate_Some)
  moreover from this(1) have "0 < n" by (auto simp: stream_max_capacity_def split: if_splits)
  ultimately show "0 < k" using assms by simp
qed

text \<open>The length of what is picked is what the predicate allows, and fresh data stays within the flow limit.\<close>

lemma pick_up_length:
  assumes ok: "sb_ok W b" and pos: "\<forall>p k. predicate p = Some k \<longrightarrow> 0 < k"
    and pick: "pick_up predicate flow b = (Inr ((lo, hi), fresh, chunks), b')"
  shows "\<exists>k. predicate lo = Some k \<and> hi \<le> lo + k" and "fresh \<Longrightarrow> hi \<le> lo + flow"
proof -
  obtain m' where m': "pick predicate flow (sb_max_data b) (sb_state b) = (Inr ((lo, hi), fresh), m')"
    using pick_up_spec(7) [OF ok pos pick] by blast
  have m: "Send_Buf.map_ok (sb_state b)" "bm_size (sb_state b) \<le> sb_max_data b" using ok by (auto simp: sb_ok_def)
  from pick_Inr(5,6) [OF m pos m'] show "\<exists>k. predicate lo = Some k \<and> hi \<le> lo + k" "fresh \<Longrightarrow> hi \<le> lo + flow" by blast+
qed

lemma outgoing_pick_length:
  assumes ok: "sender_ok W F A (Inr s)" and pos: "\<forall>p k. predicate p = Some k \<longrightarrow> 0 < k"
    and pick: "outgoing_pick predicate flow s = (Inr ((lo, hi), fresh, data, eos), s')"
  shows "(\<exists>k. predicate lo = Some k \<and> hi \<le> lo + k) \<and> (fresh \<longrightarrow> hi \<le> lo + flow)"
proof -
  have open_case: ?thesis if s: "sends W (os_sndbuf r)" and p: "sending_pick_up predicate flow r = (Inr ((lo, hi), fresh, data, eos), r')" for r r'
  proof -
    obtain res b' where b: "pick_up predicate flow (os_sndbuf r) = (res, b')" by force
    show ?thesis
    proof (cases res)
      case (Inl a)
      then show ?thesis using p b by (auto simp: sending_pick_up_def Let_def split: if_splits option.splits)
    next
      case (Inr x)
      then have "res = Inr ((lo, hi), fresh, data)" using p b by (auto simp: sending_pick_up_def Let_def split: prod.splits)
      with pick_up_length [OF _ pos] b s show ?thesis by (auto simp: sends_def)
    qed
  qed
  show ?thesis
  proof (cases s)
    case (SReady r)
    then obtain r' where "sending_pick_up predicate flow r = (Inr ((lo, hi), fresh, data, eos), r')"
      using pick by (cases "sending_pick_up predicate flow r") (auto simp: outgoing_pick_def ready_upgrade_def Let_def)
    with SReady ok show ?thesis by (intro open_case) (auto simp: sender_ok_def)
  next
    case (SSending r)
    then obtain r' where "sending_pick_up predicate flow r = (Inr ((lo, hi), fresh, data, eos), r')"
      using pick by (cases "sending_pick_up predicate flow r") (auto simp: outgoing_pick_def Let_def)
    with SSending ok show ?thesis by (intro open_case) (auto simp: sender_ok_def)
  next
    case (SDataSent r)
    then obtain r' where r': "ds_pick_up predicate flow r = (Inr ((lo, hi), fresh, data, eos), r')"
      using pick by (auto simp: outgoing_pick_def apsnd_def map_prod_def split: prod.splits)
    have s: "sb_ok W (ds_sndbuf r)" using ok SDataSent by (simp add: sender_ok_def sent_all_def)
    obtain res b' where b: "pick_up predicate flow (ds_sndbuf r) = (res, b')" by force
    show ?thesis
    proof (cases res)
      case (Inl a)
      then show ?thesis using r' b by (auto simp: ds_pick_up_def Let_def split: if_splits option.splits)
    next
      case (Inr x)
      then have "res = Inr ((lo, hi), fresh, data)" using r' b by (auto simp: ds_pick_up_def Let_def split: prod.splits)
      with pick_up_length [OF s pos] b show ?thesis by auto
    qed
  qed (use pick in \<open>simp_all add: outgoing_pick_def Let_def\<close>)
qed

lemma outgoing_pick_order:
  assumes ok: "sender_ok W F A (Inr s)" and pos: "\<forall>p k. predicate p = Some k \<longrightarrow> 0 < k"
    and pick: "outgoing_pick predicate flow s = (Inr ((lo, hi), fresh, data, eos), s')"
  shows "lo \<le> hi"
proof (cases s)
  case (SReady r)
  then obtain r' where "sending_pick_up predicate flow r = (Inr ((lo, hi), fresh, data, eos), r')"
    using pick by (cases "sending_pick_up predicate flow r") (auto simp: outgoing_pick_def ready_upgrade_def Let_def)
  with sending_pick_up_ok [OF _ pos] SReady ok show ?thesis by (fastforce simp: sender_ok_def picked_def)
next
  case (SSending r)
  then obtain r' where "sending_pick_up predicate flow r = (Inr ((lo, hi), fresh, data, eos), r')"
    using pick by (cases "sending_pick_up predicate flow r") (auto simp: outgoing_pick_def Let_def)
  with sending_pick_up_ok [OF _ pos] SSending ok show ?thesis by (fastforce simp: sender_ok_def picked_def)
next
  case (SDataSent r)
  then obtain r' where "ds_pick_up predicate flow r = (Inr ((lo, hi), fresh, data, eos), r')"
    using pick by (auto simp: outgoing_pick_def apsnd_def map_prod_def split: prod.splits)
  with ds_pick_up_ok [OF _ pos] SDataSent ok show ?thesis by (fastforce simp: sender_ok_def picked_def)
qed (use pick in \<open>simp_all add: outgoing_pick_def Let_def\<close>)

text \<open>The frame that is written for a choice, with the padding before it.\<close>

lemma write_stream_holds:
  assumes h: "pb_holds H cap gs fs b" and sid: "unat sid < 2 ^ 62"
    and room: "room_for (TStream Zero Explicit No) b" "pb_remaining b = stream_room b"
    and cap: "stream_max_capacity (stream_room b) sid lo = Some (Some n)" and len: "hi - lo \<le> n" "hi - lo \<le> budget"
    and fresh: "fresh \<Longrightarrow> hi - lo \<le> credit" and d: "length (concat data) = hi - lo" "lo \<le> hi" "hi \<le> VARINT_MAX"
  obtains f b' k where "write_stream sid (stream_room b) ((lo, hi), fresh, data, eos) (b, credit, budget) =
      Some (b', if fresh then credit - (hi - lo) else credit, budget - (hi - lo))"
    "pb_holds H cap gs (fs @ replicate k Padding @ [Stream f (concat data)]) b'"
    "sf_id f = sid" "sf_offset f = lo" "sf_length f = hi - lo" "is_fin f = eos"
    "md_nframes (pb_meta b) < md_nframes (pb_meta b')"
proof -
  let ?C = "stream_room b"
  define f0 where "f0 = \<lparr>sf_id = sid, sf_offset = lo, sf_length = hi - lo, sf_len_bit = Omit, sf_fin_bit = (if eos then Yes else No)\<rparr>"
  have f0: "stream_frame_new sid lo (hi - lo) = Some (f0\<lparr>sf_fin_bit := No\<rparr>)" "set_eos_flag eos (f0\<lparr>sf_fin_bit := No\<rparr>) = f0"
    using d(2,3) by (simp_all add: stream_frame_new_def f0_def set_eos_flag_def)
  have C: "?C < 2 ^ 32" using h by (auto simp: stream_room_def pb_holds_def Let_def)
  then have C62: "?C < 2 ^ 62" by simp
  from stream_strategy_fits [OF cap len(1) C62 f0_def [unfolded f0_def]] obtain st sz where
    st: "encoding_strategy f0 ?C = Some st" "stream_size (set_len_bit (es_len_bit st) f0) = Some sz"
      "es_pre_padding st + sz + (hi - lo) \<le> ?C" by (auto simp: f0_def)
  define f where "f = set_len_bit (es_len_bit st) f0"
  have f: "sf_id f = sid" "sf_offset f = lo" "sf_length f = hi - lo" "is_fin f = eos" "stream_size f = Some sz"
    using st(2) by (simp_all add: f_def f0_def set_len_bit_def is_fin_def)
  have "hi - lo < 2 ^ 32" using st(3) C by linarith
  then have wf: "frame_wf (Stream f (concat data))"
    using sid f d \<open>hi - lo < 2 ^ 32\<close> by simp
  let ?k = "es_pre_padding st"
  have pad: "\<exists>b1. (if ?k \<noteq> 0 then map_option (pb_record Padding) (pb_write (put_slice (replicate ?k 0)) b) else Some b) = Some b1 \<and>
    pb_holds H cap gs (fs @ replicate ?k Padding) b1 \<and> stream_room b1 = ?C - ?k \<and> md_nframes (pb_meta b) \<le> md_nframes (pb_meta b1)"
  proof (cases "?k = 0")
    case False
    then have k: "0 < ?k" "?k \<le> pb_remaining b" using st(3) room(2) by simp_all
    have "belongs_to TPadding (md_pktype (pb_meta b))" if "0 < pb_remaining b"
      using room(1) that stream_belongs_padding unfolding room_for_def by blast
    then have "room_for TPadding b" using room(1) stream_counts unfolding room_for_def by blast
    from pb_holds_padding [OF h this k] obtain b1 where b1: "pb_write (put_slice (replicate ?k 0)) b = Some b1"
      "pb_holds H cap gs (fs @ replicate ?k Padding) (pb_record Padding b1)" "pb_nwrote b1 = pb_nwrote b + ?k"
      "snd (pb_buffer b1) = snd (pb_buffer b) - ?k" "pb_min_size b1 = pb_min_size b" "pb_credit b1 = pb_credit b"
      "pb_tag_len b1 = pb_tag_len b" "pb_finished b1 = pb_finished b" "pb_meta b1 = pb_meta b" .
    have "?k \<le> snd (pb_buffer b)" using k by (simp add: pb_remaining_def)
    moreover have "pb_min_size (pb_record Padding b1) = pb_min_size b1" "pb_finished (pb_record Padding b1) = pb_finished b1"
      by (simp_all add: pb_record_def pb_mark_def)
    ultimately have "stream_room (pb_record Padding b1) = ?C - ?k"
      using b1(3-9) by (simp add: stream_room_def Let_def add.assoc)
    then show ?thesis using False b1(1,2,9) by simp
  qed (use h in simp)
  then obtain b1 where b1: "(if ?k \<noteq> 0 then map_option (pb_record Padding) (pb_write (put_slice (replicate ?k 0)) b) else Some b) = Some b1"
    "pb_holds H cap gs (fs @ replicate ?k Padding) b1" "stream_room b1 = ?C - ?k" "md_nframes (pb_meta b) \<le> md_nframes (pb_meta b1)"
    by blast
  have fits: "sz + length (concat data) \<le> stream_room b1" using st(3) b1(3) d(1) by simp
  obtain b2 where b2: "frame_dump (Stream f (concat data)) b1 = Some (Ready (Inr 1), b2)"
    "pb_holds H cap gs ((fs @ replicate ?k Padding) @ [Stream f (concat data)]) b2"
    "md_nframes (pb_meta b2) = md_nframes (pb_meta b1) + 1"
    by (rule stream_dump_fits [OF b1(2) wf f(5) fits])
  have "write_stream sid ?C ((lo, hi), fresh, data, eos) (b, credit, budget) =
      Some (b2, if fresh then credit - (hi - lo) else credit, budget - (hi - lo))"
    using f0 st(1) b1(1) b2(1) f(3) len(2) fresh unfolding write_stream_def
    by (simp add: f_def [symmetric] checked_sub_def del: One_nat_def)
  then show ?thesis using b2(2,3) b1(4) f by (intro that [of b2 ?k f]) simp_all
qed

text \<open>
  Dumping a stream into a packet: nothing is written, or one STREAM frame of the stream with the padding before it; none of the
  assertions and subtractions of \<open>poll_dump\<close> fails.
\<close>

lemma outgoing_poll_dump_ok:
  fixes s :: "'e arc_sender"
  assumes run: "sending W F A s" and h: "pb_holds H cap gs fs b" and budget: "0 < budget"
    and sid: "\<And>sender sid ws. s = Inr sender \<Longrightarrow> sender_source sender = Some (sid, ws) \<Longrightarrow> unat sid < 2 ^ 62"
  obtains (idle) res s' b' where "outgoing_poll_dump w (s, credit, budget) b = Some (res, (s', credit, budget), b')"
    "pb_holds H cap gs fs b'" "sending W F A s'" "res = poll.Pending \<or> res = Ready (Inr 0)"
    "md_nframes (pb_meta b') = md_nframes (pb_meta b)"
  | (sent) n s' b' k f d fresh where
    "outgoing_poll_dump w (s, credit, budget) b =
       Some (Ready (Inr n), (s', if fresh then credit - length d else credit, budget - length d), b')"
    "0 < n" "md_nframes (pb_meta b') = md_nframes (pb_meta b) + n"
    "pb_holds H cap gs (fs @ replicate k Padding @ [Stream f d]) b'" "sending W (insert (f, d) F) A s'"
    "length d \<le> budget" "fresh \<Longrightarrow> length d \<le> credit"
proof (cases s)
  case (Inl e)
  with run h show ?thesis by (intro idle [of "Ready (Inr 0)" s b]) (simp_all add: outgoing_poll_dump_def)
next
  case (Inr sender)
  have ok: "sender_ok W F A (Inr sender :: 'e arc_sender)" using sending_ok [OF run] Inr by simp
  show ?thesis
  proof (cases "sender_source sender")
    case None
    with run h Inr show ?thesis by (intro idle [of poll.Pending s b]) (simp_all add: outgoing_poll_dump_def)
  next
    case (Some src)
    then obtain sid ws where src: "sender_source sender = Some (sid, ws)" by (cases src) simp
    let ?ft = "TStream Zero Explicit No"
    let ?b = "for_frame ?ft b"
    have h': "pb_holds H cap gs fs ?b" using h by simp
    have room: "room_for ?ft ?b" "pb_remaining ?b = stream_room ?b"
      using for_frame_room [OF h] for_frame_stream [OF h, of Zero Explicit No] by (simp_all add: stream_room_def)
    let ?p = "stream_predicate (pb_remaining ?b) sid budget"
    note pos = stream_predicate_pos [OF budget, of "pb_remaining ?b" sid]
    obtain res sender' where pick: "outgoing_pick ?p credit sender = (res, sender')" by force
    show ?thesis
    proof (cases res)
      case (Inl r)
      have i: "sending W F A (Inr sender' :: 'e arc_sender)"
        using run pick Inr unfolding Inl by (auto intro: sending.Idle)
      show ?thesis
      proof (cases r)
        case Pending
        let ?s = "case sender_source sender' of None \<Rightarrow> sender' | Some (_, ws) \<Rightarrow> set_tx_wakers (register w ws) sender'"
        have "sending W F A (Inr ?s :: 'e arc_sender)" using i by (cases "sender_source sender'") (auto intro: sending.Wait)
        then show ?thesis using Inr src pick Inl Pending h'
          by (intro idle [of poll.Pending "Inr ?s" ?b]) (simp_all add: outgoing_poll_dump_def Let_def)
      next
        case (Ready u)
        then show ?thesis using Inr src pick Inl h' i
          by (intro idle [of "poll.Ready (Inr 0)" "Inr sender'" ?b]) (simp_all add: outgoing_poll_dump_def Let_def)
      qed
    next
      case res: (Inr x)
      then obtain lo hi fresh data eos where x: "x = ((lo, hi), fresh, data, eos)" by (metis prod.exhaust)
      note pick' = pick [unfolded res x]
      from outgoing_pick_length [OF ok pos pick'] obtain k where k: "?p lo = Some k" "hi \<le> lo + k" "fresh \<longrightarrow> hi \<le> lo + credit" by blast
      from stream_predicate_Some [OF k(1)] obtain n where
        n: "stream_max_capacity (stream_room ?b) sid lo = Some (Some n)" "k = min n budget" using room(2) by auto
      define f0 where "f0 = \<lparr>sf_id = sid, sf_offset = lo, sf_length = hi - lo, sf_len_bit = Omit, sf_fin_bit = (if eos then Yes else No)\<rparr>"
      have "stream_part W f0 (concat data) \<and> length (concat data) = hi - lo \<and> lo \<le> hi \<and> hi \<le> length W"
      proof -
        have "sender_ok W (insert (f0, concat data) F) A (Inr sender' :: 'e arc_sender)"
          by (rule outgoing_pick_ok [OF ok pos pick']) (simp_all add: f0_def is_fin_def)
        then have "stream_part W f0 (concat data)" by (simp add: sender_ok_def)
        moreover have "lo \<le> hi" using outgoing_pick_order [OF ok pos pick'] by simp
        ultimately show ?thesis by (auto simp: stream_part_def slice_of_def f0_def)
      qed
      then have d: "length (concat data) = hi - lo" "lo \<le> hi" "hi \<le> VARINT_MAX"
        using ok by (auto simp: sender_ok_def VARINT_MAX_def)
      have len: "hi - lo \<le> n" "hi - lo \<le> budget" "fresh \<Longrightarrow> hi - lo \<le> credit" using k(2,3) n(2) by auto
      obtain f b' j where f: "write_stream sid (stream_room ?b) ((lo, hi), fresh, data, eos) (?b, credit, budget) =
          Some (b', if fresh then credit - (hi - lo) else credit, budget - (hi - lo))"
        "pb_holds H cap gs (fs @ replicate j Padding @ [Stream f (concat data)]) b'" "sf_offset f = lo" "sf_length f = hi - lo"
        "is_fin f = eos" "md_nframes (pb_meta ?b) < md_nframes (pb_meta b')"
        by (rule write_stream_holds [OF h' sid [OF Inr src] room n(1) len d])
      have "sending W (insert (f, concat data) F) A (Inr sender' :: 'e arc_sender)"
        using run Inr by (intro sending.Send [OF _ pos pick' f(3-5)]) simp
      then show ?thesis
        using Inr src pick' f d len room(2)
        by (intro sent [of "md_nframes (pb_meta b') - md_nframes (pb_meta ?b)" "Inr sender'" fresh "concat data" b' j f])
          (simp_all add: outgoing_poll_dump_def Let_def)
    qed
  qed
qed

text \<open>What may be missing when nothing is left to send.\<close>

lemma pick_up_idle:
  assumes "pick_up predicate flow b = (Inl poll.Pending, b')"
  shows "color_at (sb_state b) p = Flighting \<or> color_at (sb_state b) p = Recved"
proof -
  have "pick predicate flow (sb_max_data b) (sb_state b) = (Inl poll.Pending, sb_state b')"
    using assms by (auto simp: pick_up_def split: prod.splits sum.splits)
  then show ?thesis by (rule pick_Inl(2)) simp
qed

definition in_transit :: "send_buf \<Rightarrow> bool" where
  "in_transit b \<longleftrightarrow> (\<forall>p < min (written b) (sb_max_data b).
     color_at (sb_state b) p = Flighting \<or> color_at (sb_state b) p = Recved)"

lemma sending_pick_up_idle:
  assumes "sending_pick_up predicate flow r = (Inl poll.Pending, r')"
  shows "in_transit (os_sndbuf r) \<and> total_size r \<noteq> Some (sb_sent (os_sndbuf r))"
  using assms pick_up_idle [of predicate flow "os_sndbuf r"]
  by (auto simp: sending_pick_up_def in_transit_def Let_def split: prod.splits sum.splits if_splits option.splits)

lemma ds_pick_up_idle:
  assumes "ds_pick_up predicate flow r = (Inl poll.Pending, r')"
  shows "in_transit (ds_sndbuf r) \<and> ds_fin_state r \<noteq> FinLost"
  using assms pick_up_idle [of predicate flow "ds_sndbuf r"]
  by (auto simp: ds_pick_up_def in_transit_def Let_def split: prod.splits sum.splits if_splits option.splits)

text \<open>A stream of three bytes: written, shut down and sent in one frame.\<close>

definition sample_fin_frame :: stream_frame where
  "sample_fin_frame = \<lparr>sf_id = 4, sf_offset = 0, sf_length = 3, sf_len_bit = Explicit, sf_fin_bit = Yes\<rparr>"

definition sample_open :: open_sender where
  "sample_open = \<lparr>os_stream_id = 4,
     os_sndbuf = \<lparr>sb_offset = 0, sb_data = [[1, 2, 3]], sb_max_data = 10,
       sb_state = \<lparr>states = [state_encode 0 Pending], bm_size = 3\<rparr>\<rparr>,
     os_flush_waker = None, os_shutdown_waker = Some 7, os_tx_wakers = [], os_writable_waker = None\<rparr>"

definition sample_data_sent :: data_sent where
  "sample_data_sent = sending_upgrade (sample_open\<lparr>os_sndbuf := (os_sndbuf sample_open)\<lparr>sb_state :=
     \<lparr>states = [set_color (state_encode 0 Pending) Flighting], bm_size = 3\<rparr>\<rparr>\<rparr>)"

lemma sample_open_run: "sending [1, 2, 3] {} {} (Inr (SReady sample_open) :: 'e arc_sender)"
proof -
  let ?m = "\<lparr>pending_bytes = 0, inflight_bytes = 0, acked_bytes = 0\<rparr>"
  let ?r = "sample_open\<lparr>os_shutdown_waker := None\<rparr>"
  have "writer_write [1, 2, 3] (new_sender 4 10 :: 'e arc_sender, ?m) =
      Some (Inr (), (Inr (SReady ?r), add_pending (length [1, 2, 3 :: byte]) ?m), wake_all [])"
    by (simp add: writer_write_def new_sender_def ready_new_def ready_write_def sb_write_def with_capacity_def empty_map_def extend_to_def
        written_def sample_open_def)
  from sending.Write [OF sending.Start [of 4 10] _ this] have w: "sending [1, 2, 3] {} {} (Inr (SReady ?r) :: 'e arc_sender)" by simp
  have "writer_poll_shutdown 7 (Inr (SReady ?r) :: 'e arc_sender) = Some (poll.Pending, Inr (SReady sample_open), wake_all [])"
    by (simp add: writer_poll_shutdown_def ready_poll_shutdown_def sample_open_def)
  from sending.Shutdown [OF w this] show ?thesis .
qed

lemma sample_pick:
  "outgoing_pick (\<lambda>_. Some 5) 9 (SReady sample_open) = (Inr ((0, 3), True, [[1, 2, 3]], True), SDataSent sample_data_sent)"
  by (simp add: outgoing_pick_def ready_upgrade_def sending_pick_up_def total_size_def sample_open_def written_def pick_up_def pick_def
      state_decode_def vec_get_def merge_after_def same_after_def usize_succ_def sample_data_sent_def sending_upgrade_def)

lemma sample_sending: "sending [1, 2, 3] {(sample_fin_frame, [1, 2, 3])} {} (Inr (SDataSent sample_data_sent) :: 'e arc_sender)"
  using sending.Send [OF sample_open_run _ sample_pick, of sample_fin_frame] by (simp add: sample_fin_frame_def is_fin_def)

section \<open>Properties\<close>

text \<open>
  C3. Every STREAM frame ever sent carries exactly the bytes written at its offset, carries FIN only if it reaches the end of all
  that was written, and after such a frame no further write is accepted; the offsets never pass the largest offset that can be
  encoded.
\<close>

theorem sent_frames_carry_the_stream:
  assumes "sending W F A s" and "(f, d) \<in> F"
  shows "d = take (length d) (drop (sf_offset f) W) \<and> sf_length f = length d \<and> sf_offset f + length d \<le> VARINT_MAX \<and>
    (is_fin f \<longrightarrow> sf_offset f + length d = length W \<and>
      (\<forall>data m. \<exists>e s' m' woken. writer_write data (s, m) = Some (Inl e, (s', m'), woken)))"
proof -
  have ok: "sender_ok W F A s" by (rule sending_ok [OF assms(1)])
  then have p: "stream_part W f d" "length W < 2 ^ 62" using assms(2) by (auto simp: sender_ok_def)
  have "\<exists>e s' m' woken. writer_write data (s, m) = Some (Inl e, (s', m'), woken)" if "is_fin f" for data m
  proof (cases s rule: sender_cases)
    case (Ready r)
    then show ?thesis using ok assms(2) by (simp add: sender_ok_def)
  next
    case (Sending r)
    then show ?thesis using ok assms(2) that by (auto simp: sender_ok_def)
  qed (simp_all add: writer_write_def)
  with p show ?thesis by (auto simp: stream_part_def slice_of_def VARINT_MAX_def)
qed

theorem sent_frames_carry_the_stream_witness:
  "\<forall>m. \<exists>e s' m' woken. writer_write [9] (Inr (SDataSent sample_data_sent) :: unit arc_sender, m) = Some (Inl e, (s', m'), woken)"
  using sent_frames_carry_the_stream [OF sample_sending [where 'e = unit], of sample_fin_frame "[1, 2, 3]"]
  by (simp add: sample_fin_frame_def is_fin_def)

text \<open>
  C37. The sending part never panics: in every reachable state every write, flush and shutdown of the application and every
  acknowledgement and loss report of a frame that was sent return, in any order and any number of times.
\<close>

theorem sender_never_panics:
  assumes "sending W F A s"
  shows "(\<forall>d m. length W + length d < 2 ^ 62 \<longrightarrow> writer_write d (s, m) \<noteq> None \<and> writer_poll_write w d (s, m) \<noteq> None) \<and>
    writer_poll_flush w s \<noteq> None \<and> writer_poll_shutdown w s \<noteq> None \<and>
    (\<forall>n \<le> VARINT_MAX. outgoing_update_window n s \<noteq> None) \<and>
    (\<forall>(f, d) \<in> F. outgoing_on_data_acked f s \<noteq> None \<and> outgoing_may_loss_data f s \<noteq> None)"
proof -
  have ok: "sender_ok W F A s" by (rule sending_ok [OF assms])
  have "writer_write d (s, m) \<noteq> None \<and> writer_poll_write w d (s, m) \<noteq> None" if "length W + length d < 2 ^ 62" for d m
    using writer_write_ok [OF ok that, of m] writer_poll_write_ok [OF ok that, of w m] by (metis option.distinct(1))
  moreover have "writer_poll_flush w s \<noteq> None" using writer_poll_flush_ok [OF ok, of w] by (metis option.distinct(1))
  moreover have "writer_poll_shutdown w s \<noteq> None" using writer_poll_shutdown_ok [OF ok, of w] by (metis option.distinct(1))
  moreover have "outgoing_update_window n s \<noteq> None" if "n \<le> VARINT_MAX" for n
    using outgoing_update_window_ok [OF ok that] by (metis option.distinct(1))
  moreover have "outgoing_on_data_acked f s \<noteq> None \<and> outgoing_may_loss_data f s \<noteq> None" if "(f, d) \<in> F" for f d
    using outgoing_on_data_acked_ok [OF ok that] outgoing_may_loss_data_ok [OF ok that] by (metis option.distinct(1))
  ultimately show ?thesis by blast
qed

theorem sender_never_panics_witness:
  "outgoing_on_data_acked sample_fin_frame (Inr (SDataSent sample_data_sent) :: unit arc_sender) \<noteq> None"
  using sender_never_panics [OF sample_sending [where 'e = unit]] by simp

text \<open>
  C5. When a flush reports success every byte written is in an acknowledged frame; when a shutdown reports success, so is the
  FIN.
\<close>

theorem shutdown_means_acknowledged:
  assumes "sending W F A s"
  shows "(writer_poll_flush w s = Some (Ready (Inr ()), s') \<longrightarrow>
      (\<forall>p < length W. \<exists>(f, d) \<in> A. sf_offset f \<le> p \<and> p < sf_offset f + length d)) \<and>
    (writer_poll_shutdown w s = Some (Ready (Inr ()), s', woken) \<longrightarrow>
      (\<forall>p < length W. \<exists>(f, d) \<in> A. sf_offset f \<le> p \<and> p < sf_offset f + length d) \<and> (\<exists>(f, d) \<in> A. is_fin f))"
proof -
  have ok: "sender_ok W F A s" by (rule sending_ok [OF assms])
  obtain res s1 where f: "writer_poll_flush w s = Some (res, s1)" "res = Ready (Inr ()) \<Longrightarrow> \<forall>p < length W. covered A p"
    by (rule writer_poll_flush_ok [OF ok, of w]) blast
  obtain res2 s2 wk where h: "writer_poll_shutdown w s = Some (res2, s2, wk)"
    "res2 = Ready (Inr ()) \<Longrightarrow> (\<forall>p < length W. covered A p) \<and> fin_in A"
    by (rule writer_poll_shutdown_ok [OF ok, of w]) blast
  from f h show ?thesis by (simp add: covered_def fin_in_def)
qed

theorem shutdown_means_acknowledged_witness:
  "\<exists>s. sending [1, 2, 3] {(sample_fin_frame, [1, 2, 3])} {(sample_fin_frame, [1, 2, 3])} (s :: unit arc_sender) \<and>
     writer_poll_shutdown 7 s = Some (Ready (Inr ()), s, []) \<and>
     (\<exists>(f, d) \<in> {(sample_fin_frame, [1, 2, 3 :: byte])}. is_fin f)"
proof -
  have "outgoing_on_data_acked sample_fin_frame (Inr (SDataSent sample_data_sent) :: unit arc_sender) =
    Some (True, Inr SDataRcvd, [7])" by code_simp
  from sending.Acked [OF sample_sending [where 'e = unit] _ this, of "[1, 2, 3]"]
  have run: "sending [1, 2, 3] {(sample_fin_frame, [1, 2, 3])} {(sample_fin_frame, [1, 2, 3])} (Inr SDataRcvd :: unit arc_sender)" by simp
  moreover have "writer_poll_shutdown 7 (Inr SDataRcvd :: unit arc_sender) = Some (Ready (Inr ()), Inr SDataRcvd, [])"
    by (simp add: writer_poll_shutdown_def)
  ultimately show ?thesis using shutdown_means_acknowledged [OF run, of 7 "Inr SDataRcvd" "[]"] by blast
qed

text \<open>
  C38. The final size that a reset announces, whether the application cancels or the peer asks to stop, is one the peer can accept: no
  frame sent reaches beyond it, it is the end of the stream if a FIN was sent, and it does not exceed what was written.
\<close>

theorem reset_final_size_consistent:
  assumes "sending W F A s"
    and "writer_cancel err s = Some (s', frames) \<and> frames \<noteq> [] \<and> n = rs_final_size (hd frames) \<or>
      outgoing_be_stopped err s = Some (Some n, s', woken)"
  shows "(\<forall>(f, d) \<in> F. sf_offset f + length d \<le> n) \<and> n \<le> length W \<and> ((\<exists>(f, d) \<in> F. is_fin f) \<longrightarrow> n = length W) \<and>
    (\<exists>r. s' = Inr (SResetSent r) \<and> re_final_size r = n)"
proof -
  have ok: "sender_ok W F A s" by (rule sending_ok [OF assms(1)])
  have "\<exists>r. s' = Inr (SResetSent r) \<and> re_final_size r = n"
    using assms(2)
  proof
    assume "writer_cancel err s = Some (s', frames) \<and> frames \<noteq> [] \<and> n = rs_final_size (hd frames)"
    then show ?thesis
      by (cases s rule: sender_cases) (auto simp: writer_cancel_def ready_cancel_def sending_cancel_def ds_cancel_def combine_def)
  next
    assume "outgoing_be_stopped err s = Some (Some n, s', woken)"
    then show ?thesis
      by (cases s rule: sender_cases)
        (auto simp: outgoing_be_stopped_def ready_be_stopped_def sending_be_stopped_def ds_be_stopped_def Let_def bind_eq_Some_conv
          split: if_splits prod.splits dest: reset_of_final)
  qed
  then obtain r where r: "s' = Inr (SResetSent r)" "re_final_size r = n" by blast
  have "sender_ok W F A s'"
    using assms(2) writer_cancel_ok [OF ok] outgoing_be_stopped_ok [OF ok] by blast
  then show ?thesis using r by (auto simp: sender_ok_def within_def fin_in_def)
qed

theorem reset_final_size_consistent_witness:
  "\<exists>s' frames. writer_cancel 5 (Inr (SDataSent sample_data_sent) :: unit arc_sender) = Some (s', frames) \<and>
    (\<exists>r. s' = Inr (SResetSent r) \<and> re_final_size r = 3)"
proof -
  have c: "writer_cancel 5 (Inr (SDataSent sample_data_sent) :: unit arc_sender) =
    Some (Inr (SResetSent \<lparr>re_app_err = 5, re_final_size = 3\<rparr>), [\<lparr>rs_stream_id = 4, rs_app_err = 5, rs_final_size = 3\<rparr>])"
    by (simp add: writer_cancel_def ds_cancel_def reset_of_def from_u64_def combine_def sample_data_sent_def sample_open_def
        sending_upgrade_def sb_sent_def bm_sent_def)
  from reset_final_size_consistent [OF sample_sending [where 'e = unit], where err = 5 and n = 3] c show ?thesis by auto
qed

text \<open>
  C39. Nothing is forgotten: when a stream that is not reset has nothing to send (its poll is pending, whatever the room and the flow
  credit), every byte within the stream's window is in flight or acknowledged, and if it was shut down then either its FIN is in flight
  or acknowledged, or data is still waiting for the window.
\<close>

theorem idle_means_all_in_transit:
  assumes "sending W F A (Inr s :: 'e arc_sender)" and "outgoing_pick predicate flow s = (Inl poll.Pending, s')"
  shows "(case s of
      SReady r \<Rightarrow> in_transit (os_sndbuf r) \<and> (os_shutdown_waker r \<noteq> None \<longrightarrow> sb_sent (os_sndbuf r) < length W)
    | SSending r \<Rightarrow> in_transit (os_sndbuf r) \<and> (os_shutdown_waker r \<noteq> None \<longrightarrow> sb_sent (os_sndbuf r) < length W)
    | SDataSent r \<Rightarrow> in_transit (ds_sndbuf r) \<and> ds_fin_state r \<noteq> FinLost
    | _ \<Rightarrow> True)"
proof -
  have ok: "sender_ok W F A (Inr s :: 'e arc_sender)" by (rule sending_ok [OF assms(1)])
  have o: "in_transit (os_sndbuf r) \<and> (os_shutdown_waker r \<noteq> None \<longrightarrow> sb_sent (os_sndbuf r) < length W)"
    if a: "sends W (os_sndbuf r)" and b: "sending_pick_up predicate flow r = (Inl poll.Pending, r')" for r r'
    using sending_pick_up_idle [OF b] sends_written [OF a] sends_sent_le [OF a] by (auto simp: total_size_def)
  show ?thesis
  proof (cases s)
    case (SReady r)
    then obtain r' where "sending_pick_up predicate flow r = (Inl poll.Pending, r')"
      using assms(2) by (cases "sending_pick_up predicate flow r") (auto simp: outgoing_pick_def ready_upgrade_def Let_def)
    with SReady ok o show ?thesis by (auto simp: sender_ok_def)
  next
    case (SSending r)
    then obtain r' where "sending_pick_up predicate flow r = (Inl poll.Pending, r')"
      using assms(2) by (cases "sending_pick_up predicate flow r") (auto simp: outgoing_pick_def Let_def)
    with SSending ok o show ?thesis by (auto simp: sender_ok_def)
  next
    case (SDataSent r)
    then obtain r' where "ds_pick_up predicate flow r = (Inl poll.Pending, r')"
      using assms(2) by (auto simp: outgoing_pick_def apsnd_def map_prod_def split: prod.splits)
    with ds_pick_up_idle SDataSent show ?thesis by auto
  qed simp_all
qed

theorem idle_means_all_in_transit_witness:
  "in_transit (ds_sndbuf sample_data_sent) \<and> ds_fin_state sample_data_sent \<noteq> FinLost"
proof -
  have "outgoing_pick (\<lambda>_. Some 5) 9 (SDataSent sample_data_sent) = (Inl poll.Pending, SDataSent sample_data_sent)" by code_simp
  from idle_means_all_in_transit [OF sample_sending [where 'e = unit] this] show ?thesis by simp
qed



end
