(* ===== verification/Spec2Isabelle.thy ===== *)
theory Spec2Isabelle
  imports Packet_Number Stream_Transfer Packet_Frames Rcvd_Journal Flow Stream_Ids Recver Sender
begin

text \<open>
  Verification of the protocol core of dquic, an implementation of QUIC (RFC 9000) in Rust.

  \<^bold>\<open>The program.\<close> The application writes a stream into a send buffer and reads it from a receive buffer. The
  transport cuts the stream into STREAM frames, packs frames into packets, numbers the packets, records which packets
  arrived, acknowledges them, and retransmits what may be lost. Two limits bound what a peer may send: the bytes of the
  connection and of each stream, and the number of streams. The theories follow these parts.

  \<^item> \<open>Prelude\<close>: machine arithmetic with its overflows, byte strings, slices and vector operations.
  \<^item> \<open>Recv_Buf\<close> (\<open>qrecovery/src/recv/rcvbuf.rs\<close>): \<open>RecvBuf\<close> as a record of the read position and the segments; \<open>recv\<close>,
    \<open>try_read\<close>, \<open>try_next\<close>, \<open>available\<close>. Every fragment stores exactly the missing bytes, and every order of fragments
    reassembles the stream. The locale \<open>reassembly\<close> states the contract its clients use.
  \<^item> \<open>Recver\<close> (\<open>recv/recver.rs\<close>, \<open>recv/incoming.rs\<close>, \<open>recv/reader.rs\<close>): the receiving state machine over that buffer. The
    application reads a prefix and sees the end of the stream only when it has read everything; a conforming peer is
    never accused; a complete stream is delivered; the final size is fixed; and a frame with FIN escapes the stream limit.
  \<^item> \<open>Send_Buf\<close> (\<open>qrecovery/src/send/sndbuf.rs\<close>): the list of coloured ranges with its packed 64-bit entries, and \<open>SendBuf\<close>
    on top of it. Each operation recolours exactly its range; what is picked up is what was written.
  \<^item> \<open>Sender\<close> (\<open>send/sender.rs\<close>, \<open>send/outgoing.rs\<close>, \<open>send/writer.rs\<close>, \<open>qbase/src/metric.rs\<close>): the sending state machine over that
    buffer, with the relation \<open>sending\<close> of what was written, sent and acknowledged. Every frame carries the stream, no
    handler panics, a successful shutdown means everything is acknowledged, an idle stream has everything in transit,
    and a reset announces a final size the peer accepts.
  \<^item> \<open>Stream_Transfer\<close>: both buffers joined by a network that loses, duplicates and reorders, as a step relation. What is
    read is a prefix of what was written, no step gets stuck, and what is acknowledged has arrived.
  \<^item> \<open>Packet_Number\<close> (\<open>qbase/src/packet/number.rs\<close>): packet numbers at 64 bits against the algorithm of RFC 9000 A.3.
  \<^item> \<open>Wire\<close>, \<open>Frame_Type\<close>, \<open>Frame\<close>, \<open>Frame_Codec\<close>, \<open>Packet_Frames\<close> (\<open>qbase/src/varint.rs\<close>, \<open>qbase/src/frame.rs\<close> and
    \<open>qbase/src/frame/\<close>, \<open>qbase/src/packet.rs\<close>): a writer, a size and a parser for every frame, and the loop that reads the
    frames of a payload. Writers work on a buffer with a capacity and fail when it is exceeded, as \<open>BufMut\<close> does. Every
    well-formed frame survives the round trip, the parser is total, the loop ends, and the sizes are exact.
  \<^item> \<open>Packet_Buffer\<close> (\<open>qbase/src/packet/assemble.rs\<close>): the buffer a packet is assembled in, with its size limit and
    congestion credit, and the sources polled for frames. The locale \<open>package\<close> is the contract of a source; whatever
    sources are polled, the packet is read back as the frames written and stays within its limits.
  \<^item> \<open>Rcvd_Journal\<close> (\<open>qrecovery/src/journal/rcvd.rs\<close>): the bounded set of received packet numbers refines the set of all
    numbers ever recorded; no packet is accepted twice; an ACK frame names received packets only.
  \<^item> \<open>Wakers\<close> (\<open>qbase/src/util/wakers.rs\<close>, \<open>qbase/src/net/tx.rs\<close>): lists of wakers, a waker being a number.
  \<^item> \<open>Limit\<close>: the contract of a monotone limit that one side grants and the other obeys (locale \<open>limit_protocol\<close>), used by
    \<open>Flow\<close> (\<open>qbase/src/flow.rs\<close>) for bytes and by \<open>Stream_Ids\<close> (\<open>qbase/src/sid.rs\<close>, \<open>qbase/src/sid/\<close>) for streams. A sender
    under its credits never breaks the receiver's limit, whatever happens to the limit frames, and is not stuck for ever;
    the streams of a peer are created once, in order and without gaps.

  \<^bold>\<open>Conventions.\<close> Unsigned integers are natural numbers with the overflow checks written out where the code can
  reach them, and words where the code works on bits. \<open>Bytes\<close> and slices are byte lists. A panic, a failed assertion and
  an arithmetic overflow are the value \<open>None\<close>; a returned error is \<open>Inl\<close>. A mutex-protected method is one atomic step. A
  loop whose end is not obvious is a \<open>partial_function\<close> in the option monad, so that running for ever is \<open>None\<close>, and it is
  proved to return; \<open>same_after_fuel\<close> of \<open>Send_Buf\<close> takes the length of the list as its fuel, one unit for each
  element it can pass. The parser combinators of the library \<open>nom\<close> are a record of functions, with their documented
  behaviour as the predicate \<open>nom_ok\<close>, which \<open>sample_nom\<close> of \<open>Frame_Codec\<close> is shown to satisfy.

  \<^bold>\<open>Not modelled.\<close> The journal of sent packets, the set of streams, connection
  ids, packet headers and packet protection, transport parameters, congestion control, the TLS adapter, sockets, NAT
  traversal, the event log and the tasks that connect them: they are asynchronous orchestration, third-party
  cryptography, operating-system I/O, generated code, or depend on the clock of the runtime. Inside the modelled parts,
  qlog events, display and conversion into \<open>io::Error\<close> are left out.
\<close>

end
